(* ===== verification/Pevm_Prelude.thy ===== *)
theory Pevm_Prelude
  imports Main "HOL-Library.Word" "HOL-Library.AList" "HOL-Library.Multiset"
begin

text \<open>
  Shared vocabulary of the development: the widths of the integers the crate uses, Rust's
  saturating arithmetic on them, the part of \<^verbatim>\<open>BTreeMap\<close> the crate relies on (insertion,
  removal, \<^verbatim>\<open>range(..i).next_back()\<close> and ascending iteration), \<^verbatim>\<open>Vec::swap_remove\<close>, and the
  generic transition-system interface on which the invariants of the concurrent parts are
  proved. Nothing here is specific to one component.
\<close>

section \<open>Collections\<close>

named_theorems sat_simps \<open>saturating and wrapping word arithmetic read as natural numbers\<close>
named_theorems range_simps \<open>backward range queries on ordered maps\<close>
named_theorems status_simps \<open>scheduler status bookkeeping\<close>

section \<open>Machine integers and identifiers\<close>

type_synonym u8 = "8 word"
type_synonym u64 = "64 word"
type_synonym u128 = "128 word"
type_synonym u256 = "256 word"
type_synonym b256 = "256 word"
type_synonym address = "160 word"

text \<open>
  \<^verbatim>\<open>usize\<close> indices (transaction indices, incarnations, the scheduler's counters) are natural
  numbers: they are bounded by the block size plus the number of task requests, far below
  \<open>2 ^ 64\<close>, and every subtraction on them is shown not to go below zero.
\<close>

section \<open>Saturating arithmetic\<close>

definition saturating_add :: "'a::len word \<Rightarrow> 'a word \<Rightarrow> 'a word" where
  "saturating_add a b = (if unat a + unat b < 2 ^ LENGTH('a) then a + b else - 1)"

definition saturating_sub :: "'a::len word \<Rightarrow> 'a word \<Rightarrow> 'a word" where
  "saturating_sub a b = (if a < b then 0 else a - b)"

definition saturating_mul :: "'a::len word \<Rightarrow> 'a word \<Rightarrow> 'a word" where
  "saturating_mul a b = (if unat a * unat b < 2 ^ LENGTH('a) then a * b else - 1)"

definition abs_diff :: "'a::len word \<Rightarrow> 'a word \<Rightarrow> 'a word" where
  "abs_diff a b = (if a < b then b - a else a - b)"

lemma unat_minus_one_max [sat_simps]: "unat (- 1 :: 'a::len word) = 2 ^ LENGTH('a) - 1"
  by (simp add: unsigned_minus_1_eq_mask mask_eq_exp_minus_1)

lemma unat_saturating_add [sat_simps]:
  "unat (saturating_add a b) = min (2 ^ LENGTH('a) - 1) (unat a + unat (b :: 'a::len word))"
  by (auto simp: saturating_add_def unat_word_ariths unat_minus_one_max)

lemma unat_saturating_sub [sat_simps]:
  "unat (saturating_sub a b) = unat a - unat (b :: 'a::len word)"
  by (auto simp: saturating_sub_def word_less_nat_alt unat_sub_if')

lemma unat_saturating_mul [sat_simps]:
  "unat (saturating_mul a b) = min (2 ^ LENGTH('a) - 1) (unat a * unat (b :: 'a::len word))"
  by (auto simp: saturating_mul_def unat_word_ariths unat_minus_one_max)

lemma unat_abs_diff [sat_simps]:
  "unat (abs_diff a b) = (if unat a < unat b then unat b - unat a else unat a - unat (b :: 'a::len word))"
  by (auto simp: abs_diff_def word_less_nat_alt unat_sub_if')

lemma saturating_add_0 [simp]: "saturating_add a 0 = a" "saturating_add 0 a = a"
  by (auto simp: saturating_add_def)

lemma saturating_sub_0 [simp]: "saturating_sub a 0 = a"
  by (auto simp: saturating_sub_def)

section \<open>Ordered maps\<close>

text \<open>
  A \<^verbatim>\<open>BTreeMap<TxIdx, V>\<close> is a finite map on transaction indices. The double-ended iterator of
  \<^verbatim>\<open>range(..i)\<close> is represented by its upper bound: \<^verbatim>\<open>next_back\<close> yields the greatest key below
  the bound and the bound moves down to that key.
\<close>

type_synonym 'v btree = "nat \<rightharpoonup> 'v"

fun next_back :: "'v btree \<Rightarrow> nat \<Rightarrow> (nat \<times> 'v) option" where
  "next_back m 0 = None"
| "next_back m (Suc i) = (case m i of Some v \<Rightarrow> Some (i, v) | None \<Rightarrow> next_back m i)"

text \<open>Ascending iteration over the keys below \<open>n\<close> (all of them, for a block of \<open>n\<close> transactions).\<close>

fun entries_below :: "nat \<Rightarrow> 'v btree \<Rightarrow> (nat \<times> 'v) list" where
  "entries_below 0 m = []"
| "entries_below (Suc n) m =
     entries_below n m @ (case m n of Some v \<Rightarrow> [(n, v)] | None \<Rightarrow> [])"

lemma next_back_SomeD:
  "next_back m i = Some (k, v) \<Longrightarrow> k < i \<and> m k = Some v \<and> (\<forall>j. k < j \<and> j < i \<longrightarrow> m j = None)"
proof (induction i)
  case (Suc i)
  then show ?case by (fastforce split: option.splits simp: less_Suc_eq)
qed simp

lemma next_back_SomeI:
  "k < i \<Longrightarrow> m k = Some v \<Longrightarrow> (\<And>j. k < j \<Longrightarrow> j < i \<Longrightarrow> m j = None) \<Longrightarrow> next_back m i = Some (k, v)"
proof (induction i)
  case (Suc i)
  show ?case
  proof (cases "k = i")
    case True
    with Suc.prems show ?thesis by simp
  next
    case False
    with Suc.prems have "m i = None" by simp
    with False Suc show ?thesis by simp
  qed
qed simp

lemma next_back_Some_iff [range_simps]:
  "next_back m i = Some (k, v) \<longleftrightarrow> k < i \<and> m k = Some v \<and> (\<forall>j. k < j \<and> j < i \<longrightarrow> m j = None)"
proof
  assume "next_back m i = Some (k, v)"
  then show "k < i \<and> m k = Some v \<and> (\<forall>j. k < j \<and> j < i \<longrightarrow> m j = None)"
    by (rule next_back_SomeD)
next
  assume "k < i \<and> m k = Some v \<and> (\<forall>j. k < j \<and> j < i \<longrightarrow> m j = None)"
  then show "next_back m i = Some (k, v)"
    by (intro next_back_SomeI) auto
qed

lemma next_back_None_iff [range_simps]:
  "next_back m i = None \<longleftrightarrow> (\<forall>j < i. m j = None)"
  by (induction i) (auto split: option.splits simp: less_Suc_eq)

lemma next_back_less: "next_back m i = Some (k, v) \<Longrightarrow> k < i"
  by (simp add: next_back_Some_iff)

lemma next_back_cong:
  "(\<And>j. j < i \<Longrightarrow> m j = m' j) \<Longrightarrow> next_back m i = next_back m' i"
  by (induction i) (auto split: option.splits)

lemma next_back_upd_other: "i \<le> k \<Longrightarrow> next_back (m(k := e)) i = next_back m i"
  by (rule next_back_cong) auto

lemma set_entries_below: "set (entries_below n m) = {(k, v). k < n \<and> m k = Some v}"
  by (induction n) (auto split: option.splits simp: less_Suc_eq)

lemma sorted_entries_below: "sorted_wrt (<) (map fst (entries_below n m))"
  by (induction n) (fastforce split: option.splits simp: sorted_wrt_append set_entries_below)+

section \<open>Vectors\<close>

lemma nth_upd: "j < length xs \<Longrightarrow> xs[i := x] ! j = (if i = j then x else xs ! j)"
  by (cases "i = j") auto

lemma count_list_upd:
  "i < length xs \<Longrightarrow> count_list (xs[i := y]) z + (if xs ! i = z then 1 else 0) =
     count_list xs z + (if y = z then 1 else 0)"
proof (induction xs arbitrary: i)
  case (Cons x xs)
  show ?case
  proof (cases i)
    case (Suc k)
    with Cons.IH [of k] Cons.prems show ?thesis by (auto split: if_splits)
  qed simp
qed simp

text \<open>\<^verbatim>\<open>Vec::swap_remove(i)\<close>: the element is replaced by the last one, which is popped.\<close>

definition swap_remove :: "'a list \<Rightarrow> nat \<Rightarrow> 'a list" where
  "swap_remove xs i = butlast (xs[i := last xs])"

lemma length_swap_remove [simp]: "length (swap_remove xs i) = length xs - 1"
  by (simp add: swap_remove_def)

lemma mset_swap_remove:
  assumes "i < length xs"
  shows "mset (swap_remove xs i) = mset xs - {#xs ! i#}"
proof -
  from assms have ne: "xs \<noteq> []" by auto
  let ?ys = "xs[i := last xs]"
  have last: "last ?ys = last xs"
    using ne assms by (auto simp: last_list_update)
  have "mset ?ys = mset (butlast ?ys @ [last ?ys])"
    using ne by (simp add: append_butlast_last_id)
  then have "mset ?ys = add_mset (last xs) (mset (butlast ?ys))"
    by (simp add: last)
  moreover have "mset ?ys = add_mset (last xs) (mset xs - {#xs ! i#})"
    using assms by (simp add: mset_update)
  ultimately show ?thesis
    by (simp add: swap_remove_def)
qed

lemma distinct_swap_remove:
  assumes "distinct xs" and "i < length xs"
  shows "distinct (swap_remove xs i)" and "set (swap_remove xs i) = set xs - {xs ! i}"
proof -
  have eq: "mset (swap_remove xs i) = mset (remove1 (xs ! i) xs)"
    using assms by (simp add: mset_swap_remove)
  show "distinct (swap_remove xs i)"
    using mset_eq_imp_distinct_iff [OF eq] assms(1) by simp
  show "set (swap_remove xs i) = set xs - {xs ! i}"
    using mset_eq_setD [OF eq] assms(1) by simp
qed

section \<open>Transition systems\<close>

text \<open>
  The interface every concurrent component offers: an initial-state predicate, a step relation and
  an invariant that holds initially and is kept by every step. Reachability is defined once and
  the lemma that the invariant holds in every reachable state is proved once.
\<close>

inductive reaches :: "('s \<Rightarrow> bool) \<Rightarrow> ('s \<Rightarrow> 's \<Rightarrow> bool) \<Rightarrow> 's \<Rightarrow> bool" for init step where
  reaches_init: "init s \<Longrightarrow> reaches init step s"
| reaches_step: "reaches init step s \<Longrightarrow> step s t \<Longrightarrow> reaches init step t"

lemma reaches_mono:
  assumes "reaches init step s" "\<And>s. init s \<Longrightarrow> init' s" "\<And>s t. step s t \<Longrightarrow> step' s t"
  shows "reaches init' step' s"
  using assms(1) by (induction rule: reaches.induct) (auto intro: reaches.intros assms(2,3))

locale invariant_system =
  fixes init :: "'s \<Rightarrow> bool"
    and step :: "'s \<Rightarrow> 's \<Rightarrow> bool"
    and inv :: "'s \<Rightarrow> bool"
  assumes inv_init: "init s \<Longrightarrow> inv s"
    and inv_step: "inv s \<Longrightarrow> step s t \<Longrightarrow> inv t"
begin

lemma inv_reaches: "reaches init step s \<Longrightarrow> inv s"
  by (induction rule: reaches.induct) (auto intro: inv_init inv_step)

end

end
