(* ===== verification/Pevm_Types.thy ===== *)
theory Pevm_Types
  imports Pevm_Prelude
begin

unbundle bit_operations_syntax

text \<open>
  The types of \<^verbatim>\<open>crates/pevm/src/lib.rs\<close>: memory locations, values and entries, transaction
  versions and statuses, read and write sets, tasks, the \<^verbatim>\<open>FinishExecFlags\<close> bit set and the two
  hashers. The 64-bit hash of a memory location (\<^verbatim>\<open>hash_deterministic\<close>, computed by the
  third-party Fx hasher) is a parameter of every definition that uses it.
\<close>

section \<open>Identifiers\<close>

type_synonym tx_idx = nat
type_synonym tx_incarnation = nat
type_synonym location_hash = u64

datatype memory_location =
    LocBasic address
  | LocCodeHash address
  | LocStorage address u256

type_synonym location_hasher = "memory_location \<Rightarrow> location_hash"

section \<open>Values and entries of the multi-version memory\<close>

record account_basic =
  ab_balance :: u256
  ab_nonce :: u64

definition account_basic_default :: account_basic where
  "account_basic_default = \<lparr>ab_balance = 0, ab_nonce = 0\<rparr>"

datatype memory_value =
    ValBasic account_basic
  | ValCodeHash b256
  | ValStorage u256
  | LazyRecipient u256
  | LazySender u256
  | SelfDestructed

datatype memory_entry =
    Data tx_incarnation memory_value
  | Estimate

section \<open>Transaction statuses and versions\<close>

datatype incarnation_status =
    ReadyToExecute
  | Executing
  | Executed
  | Validated
  | Aborting

record tx_status =
  incarnation :: tx_incarnation
  status :: incarnation_status

record tx_version =
  tx_idx :: tx_idx
  tx_incarnation :: tx_incarnation

datatype task =
    Execution tx_version
  | Validation tx_version

section \<open>Read and write sets\<close>

datatype read_origin =
    MvMemory tx_version
  | StorageOrigin

text \<open>
  A \<^verbatim>\<open>HashMap\<close> that is iterated over is an association list with distinct keys; the order of the
  list stands for the unspecified iteration order.
\<close>

type_synonym read_origins = "read_origin list"
type_synonym read_set = "(location_hash \<times> read_origins) list"
type_synonym write_set = "(location_hash \<times> memory_value) list"

section \<open>Flags\<close>

type_synonym finish_exec_flags = u8

definition NeedValidation :: finish_exec_flags where "NeedValidation = 1"
definition WroteNewLocation :: finish_exec_flags where "WroteNewLocation = 2"
definition flags_empty :: finish_exec_flags where "flags_empty = 0"

definition flags_contains :: "finish_exec_flags \<Rightarrow> finish_exec_flags \<Rightarrow> bool" where
  "flags_contains f g \<longleftrightarrow> f AND g = g"

definition flags_union :: "finish_exec_flags \<Rightarrow> finish_exec_flags \<Rightarrow> finish_exec_flags" where
  "flags_union f g = f OR g"

abbreviation needs_validation :: "finish_exec_flags \<Rightarrow> bool" where
  "needs_validation f \<equiv> flags_contains f NeedValidation"

abbreviation wrote_new_location :: "finish_exec_flags \<Rightarrow> bool" where
  "wrote_new_location f \<equiv> flags_contains f WroteNewLocation"

lemmas flags_defs = NeedValidation_def WroteNewLocation_def flags_empty_def flags_contains_def
  flags_union_def

text \<open>The two flags are independent bits: setting one never changes the other.\<close>

lemma flags_simps [simp]:
  "\<not> needs_validation flags_empty" "\<not> wrote_new_location flags_empty"
  "needs_validation NeedValidation" "\<not> wrote_new_location NeedValidation"
  "\<not> needs_validation WroteNewLocation" "wrote_new_location WroteNewLocation"
  by (simp_all add: flags_defs)

lemma flags_union_wrote [simp]:
  "wrote_new_location (flags_union f WroteNewLocation)"
  "needs_validation (flags_union f WroteNewLocation) \<longleftrightarrow> needs_validation f"
  by (auto simp: flags_defs bit_eq_iff bit_simps bit_1_iff)

section \<open>Hashers\<close>

fun from_be_bytes :: "u8 list \<Rightarrow> nat" where
  "from_be_bytes bs = foldl (\<lambda>acc b. acc * 256 + unat b) 0 bs"

text \<open>
  \<^verbatim>\<open>SuffixHasher\<close>: \<^verbatim>\<open>write\<close> overwrites the state with the big-endian value of the last eight bytes.
  Fewer than eight bytes make the slice index underflow, which panics (\<open>None\<close>).
\<close>

definition suffix_write :: "u64 \<Rightarrow> u8 list \<Rightarrow> u64 option" where
  "suffix_write st bs =
     (if length bs < 8 then None
      else Some (of_nat (from_be_bytes (drop (length bs - 8) bs))))"

fun suffix_hash :: "u64 \<Rightarrow> u8 list list \<Rightarrow> u64 option" where
  "suffix_hash st [] = Some st"
| "suffix_hash st (bs # rest) =
     (case suffix_write st bs of None \<Rightarrow> None | Some st' \<Rightarrow> suffix_hash st' rest)"

text \<open>\<^verbatim>\<open>IdentityHasher\<close>: integer writes become the hash; writing bytes is \<^verbatim>\<open>unreachable!()\<close>.\<close>

datatype hasher_call = WriteU64 u64 | WriteUsize nat | WriteBytes "u8 list"

fun identity_write :: "u64 \<Rightarrow> hasher_call \<Rightarrow> u64 option" where
  "identity_write st (WriteU64 i) = Some i"
| "identity_write st (WriteUsize i) = Some (of_nat i)"
| "identity_write st (WriteBytes bs) = None"

text \<open>Big-endian bytes of a value, the form in which addresses and hashes are fed to a hasher.\<close>

fun to_be_bytes :: "nat \<Rightarrow> nat \<Rightarrow> u8 list" where
  "to_be_bytes 0 x = []"
| "to_be_bytes (Suc n) x = to_be_bytes n (x div 256) @ [of_nat (x mod 256)]"

lemma length_to_be_bytes [simp]: "length (to_be_bytes n x) = n"
  by (induction n arbitrary: x) auto

lemma from_to_be_bytes: "from_be_bytes (to_be_bytes n x) = x mod 256 ^ n"
proof (induction n arbitrary: x)
  case (Suc n)
  have "unat (of_nat (x mod 256) :: u8) = x mod 256"
    by (simp add: unat_of_nat)
  moreover have "x div 256 mod 256 ^ n * 256 + x mod 256 = x mod (256 * 256 ^ n)"
    by (metis mod_mult2_eq mult.commute)
  ultimately show ?case
    using Suc [of "x div 256"] by simp
qed simp

lemma drop_to_be_bytes: "k \<le> n \<Longrightarrow> drop (n - k) (to_be_bytes n x) = to_be_bytes k x"
proof (induction n arbitrary: x k)
  case (Suc n)
  show ?case
  proof (cases k)
    case (Suc k')
    with Suc.prems Suc.IH [of k' "x div 256"] show ?thesis by simp
  qed simp
qed simp

lemma suffix_write_to_be_bytes:
  assumes "8 \<le> n"
  shows "suffix_write st (to_be_bytes n x) = Some (of_nat x)"
proof -
  have "from_be_bytes (drop (n - 8) (to_be_bytes n x)) = x mod 256 ^ 8"
    by (simp only: drop_to_be_bytes [OF assms] from_to_be_bytes)
  moreover have "(of_nat (x mod 2 ^ 64) :: u64) = of_nat x"
    by (simp add: word_of_nat_eq_iff take_bit_nat_def)
  ultimately show ?thesis
    using assms by (simp add: suffix_write_def)
qed

end
