(* ===== verification/Scheduler.thy ===== *)
theory Scheduler
  imports Pevm_Types
begin

text \<open>
  The collaborative scheduler of \<^verbatim>\<open>crates/pevm/src/scheduler.rs\<close>: its state as a record and each
  method as a function on it, executed without interference. The critical sections that the
  methods run under a status mutex are definitions of their own, because the interleaving model in
  \<open>Scheduler_Steps\<close> runs exactly these sections as atomic steps. Indexing through \<^verbatim>\<open>index_mutex!\<close> is
  unchecked in the source; \<open>Scheduler_Steps\<close> shows that every index used is below the block size.
\<close>

section \<open>State\<close>

record scheduler =
  block_size :: nat
  transactions_status :: "tx_status list"
  transactions_dependents :: "tx_idx list list"
  execution_idx :: nat
  validation_idx :: nat
  min_validation_idx :: nat
  num_validated :: nat
  aborted :: bool

definition new_scheduler :: "nat \<Rightarrow> scheduler" where
  "new_scheduler n =
     \<lparr>block_size = n,
      transactions_status = replicate n \<lparr>incarnation = 0, status = ReadyToExecute\<rparr>,
      transactions_dependents = replicate n [],
      execution_idx = 0,
      validation_idx = n,
      min_validation_idx = n,
      num_validated = 0,
      aborted = False\<rparr>"

abbreviation status_of :: "scheduler \<Rightarrow> tx_idx \<Rightarrow> incarnation_status" where
  "status_of s i \<equiv> status (transactions_status s ! i)"

abbreviation incarnation_of :: "scheduler \<Rightarrow> tx_idx \<Rightarrow> tx_incarnation" where
  "incarnation_of s i \<equiv> incarnation (transactions_status s ! i)"

abbreviation version_of :: "scheduler \<Rightarrow> tx_idx \<Rightarrow> tx_version" where
  "version_of s i \<equiv> \<lparr>tx_idx = i, tx_incarnation = incarnation_of s i\<rparr>"

definition set_status :: "scheduler \<Rightarrow> tx_idx \<Rightarrow> incarnation_status \<Rightarrow> scheduler" where
  "set_status s i st =
     s\<lparr>transactions_status :=
         (transactions_status s)[i := (transactions_status s ! i)\<lparr>status := st\<rparr>]\<rparr>"

definition scheduler_abort :: "scheduler \<Rightarrow> scheduler" where
  "scheduler_abort s = s\<lparr>aborted := True\<rparr>"

section \<open>Picking tasks\<close>

definition try_execute :: "scheduler \<Rightarrow> tx_idx \<Rightarrow> tx_version option \<times> scheduler" where
  "try_execute s i =
     (if i < block_size s \<and> status_of s i = ReadyToExecute
      then (Some (version_of s i), set_status s i Executing)
      else (None, s))"

text \<open>
  The section of \<^verbatim>\<open>next_task\<close> that runs with the status of the fetched validation index locked:
  steal an execution, start a validation, retry the loop, or fall through to execution.
\<close>

datatype validation_pick =
    PickTask task
  | PickAgain
  | PickExecution

definition pick_validation :: "scheduler \<Rightarrow> tx_idx \<Rightarrow> validation_pick \<times> scheduler" where
  "pick_validation s i =
     (case status_of s i of
        ReadyToExecute \<Rightarrow> (PickTask (Execution (version_of s i)), set_status s i Executing)
      | Executed \<Rightarrow> (PickTask (Validation (version_of s i)), s)
      | Validated \<Rightarrow> (PickTask (Validation (version_of s i)), s)
      | Aborting \<Rightarrow> (PickAgain, s)
      | Executing \<Rightarrow> (PickExecution, s))"

definition fetch_add_execution :: "scheduler \<Rightarrow> nat \<times> scheduler" where
  "fetch_add_execution s = (execution_idx s, s\<lparr>execution_idx := execution_idx s + 1\<rparr>)"

definition fetch_add_validation :: "scheduler \<Rightarrow> nat \<times> scheduler" where
  "fetch_add_validation s = (validation_idx s, s\<lparr>validation_idx := validation_idx s + 1\<rparr>)"

definition fetch_min_execution :: "scheduler \<Rightarrow> nat \<Rightarrow> scheduler" where
  "fetch_min_execution s i = s\<lparr>execution_idx := min (execution_idx s) i\<rparr>"

definition fetch_min_validation :: "scheduler \<Rightarrow> nat \<Rightarrow> scheduler" where
  "fetch_min_validation s i = s\<lparr>validation_idx := min (validation_idx s) i\<rparr>"

definition fetch_min_min_validation :: "scheduler \<Rightarrow> nat \<Rightarrow> nat \<times> scheduler" where
  "fetch_min_min_validation s i =
     (min_validation_idx s, s\<lparr>min_validation_idx := min (min_validation_idx s) i\<rparr>)"

definition all_tasks_taken :: "scheduler \<Rightarrow> bool" where
  "all_tasks_taken s \<longleftrightarrow> execution_idx s \<ge> block_size s \<and> validation_idx s \<ge> block_size s"

definition enough_validated :: "scheduler \<Rightarrow> bool" where
  "enough_validated s \<longleftrightarrow> num_validated s \<ge> block_size s - min_validation_idx s"

text \<open>One iteration of the loop of \<^verbatim>\<open>next_task\<close>; \<open>None\<close> means that the loop goes round again.\<close>

definition next_execution :: "scheduler \<Rightarrow> task option option \<times> scheduler" where
  "next_execution s =
     (let (i, s1) = fetch_add_execution s
      in case try_execute s1 i of
           (Some v, s2) \<Rightarrow> (Some (Some (Execution v)), s2)
         | (None, s2) \<Rightarrow> (None, s2))"

definition next_task_iter :: "scheduler \<Rightarrow> task option option \<times> scheduler" where
  "next_task_iter s =
     (if aborted s then (Some None, s)
      else if all_tasks_taken s then (if enough_validated s then (Some None, s) else (None, s))
      else if validation_idx s < execution_idx s then
        (let (i, s1) = fetch_add_validation s
         in if i < block_size s then
              (case pick_validation s1 i of
                 (PickTask t, s2) \<Rightarrow> (Some (Some t), s2)
               | (PickAgain, s2) \<Rightarrow> (None, s2)
               | (PickExecution, s2) \<Rightarrow> next_execution s2)
            else next_execution s1)
      else next_execution s)"

text \<open>
  The loop itself. It may spin while other workers finish their tasks, so it takes fuel; without
  another worker it spins forever exactly in the states of \<open>spinning\<close>.
\<close>

fun next_task :: "nat \<Rightarrow> scheduler \<Rightarrow> (task option \<times> scheduler) option" where
  "next_task 0 s = None"
| "next_task (Suc fuel) s =
     (case next_task_iter s of
        (Some r, s') \<Rightarrow> Some (r, s')
      | (None, s') \<Rightarrow> next_task fuel s')"

definition spinning :: "scheduler \<Rightarrow> bool" where
  "spinning s \<longleftrightarrow> \<not> aborted s \<and> all_tasks_taken s \<and> \<not> enough_validated s"

section \<open>Dependencies and re-execution\<close>

definition is_executed :: "incarnation_status \<Rightarrow> bool" where
  "is_executed st \<longleftrightarrow> st = Executed \<or> st = Validated"

definition push_dependent :: "scheduler \<Rightarrow> tx_idx \<Rightarrow> tx_idx \<Rightarrow> scheduler" where
  "push_dependent s b i =
     s\<lparr>transactions_dependents :=
         (transactions_dependents s)[b := transactions_dependents s ! b @ [i]]\<rparr>"

definition block_on :: "scheduler \<Rightarrow> tx_idx \<Rightarrow> tx_idx \<Rightarrow> scheduler" where
  "block_on s i b = push_dependent (set_status s i Aborting) b i"

definition add_dependency :: "scheduler \<Rightarrow> tx_idx \<Rightarrow> tx_idx \<Rightarrow> bool \<times> scheduler" where
  "add_dependency s i b =
     (if is_executed (status_of s b) then (False, s) else (True, block_on s i b))"

definition set_ready_status :: "scheduler \<Rightarrow> tx_idx \<Rightarrow> scheduler" where
  "set_ready_status s i =
     s\<lparr>transactions_status :=
         (transactions_status s)[i := \<lparr>incarnation = incarnation_of s i + 1,
                                        status = ReadyToExecute\<rparr>]\<rparr>"

definition drain_dependents :: "scheduler \<Rightarrow> tx_idx \<Rightarrow> tx_idx list \<times> scheduler" where
  "drain_dependents s i =
     (transactions_dependents s ! i,
      s\<lparr>transactions_dependents := (transactions_dependents s)[i := []]\<rparr>)"

fun resume_dependents :: "scheduler \<Rightarrow> tx_idx list \<Rightarrow> scheduler" where
  "resume_dependents s [] = s"
| "resume_dependents s (i # is) =
     resume_dependents (fetch_min_execution (set_ready_status s i) i) is"

section \<open>Finishing an execution\<close>

text \<open>Lines 218--226: where validation starts from.\<close>

definition decide_min_validation :: "scheduler \<Rightarrow> tx_idx \<Rightarrow> finish_exec_flags \<Rightarrow> nat \<times> scheduler" where
  "decide_min_validation s i flags =
     (if needs_validation flags then
        (let (old, s1) = fetch_min_min_validation s i in (min old i, s1))
      else (min_validation_idx s, s))"

definition count_validated :: "scheduler \<Rightarrow> scheduler" where
  "count_validated s = s\<lparr>num_validated := num_validated s + 1\<rparr>"

text \<open>Lines 253--258: the final status of the execution.\<close>

definition settle_execution :: "scheduler \<Rightarrow> tx_idx \<Rightarrow> finish_exec_flags \<Rightarrow> scheduler" where
  "settle_execution s i flags =
     (if needs_validation flags then set_status s i Executed
      else count_validated (set_status s i Validated))"

definition finish_execution ::
  "scheduler \<Rightarrow> tx_version \<Rightarrow> finish_exec_flags \<Rightarrow> task option \<times> scheduler" where
  "finish_execution s v flags =
     (let i = tx_idx v;
          (deps, s1) = drain_dependents s i;
          s2 = resume_dependents s1 deps;
          (mv, s3) = decide_min_validation s2 i flags
      in if mv < block_size s then
           if i < mv then
             (let s4 = (if wrote_new_location flags then fetch_min_validation s3 mv else s3)
              in (None, settle_execution s4 i flags))
           else if i < validation_idx s3 then
             (let s4 = (if wrote_new_location flags then fetch_min_validation s3 (i + 1) else s3)
              in if needs_validation flags then (Some (Validation v), set_status s4 i Executed)
                 else (None, settle_execution (count_validated (set_status s4 i Validated)) i flags))
           else (None, settle_execution s3 i flags)
         else (None, settle_execution s3 i flags))"

section \<open>Validation\<close>

definition try_validation_abort :: "scheduler \<Rightarrow> tx_version \<Rightarrow> bool \<times> scheduler" where
  "try_validation_abort s v =
     (let i = tx_idx v;
          s1 = (if status_of s i = Validated then s\<lparr>num_validated := num_validated s - 1\<rparr> else s)
      in if is_executed (status_of s i) then (True, set_status s1 i Aborting) else (False, s1))"

definition confirm_validation :: "scheduler \<Rightarrow> tx_idx \<Rightarrow> scheduler" where
  "confirm_validation s i =
     (if status_of s i = Executed then count_validated (set_status s i Validated) else s)"

definition finish_validation :: "scheduler \<Rightarrow> tx_version \<Rightarrow> bool \<Rightarrow> task option \<times> scheduler" where
  "finish_validation s v ab =
     (let i = tx_idx v
      in if ab then
           (let s2 = fetch_min_validation (set_ready_status s i) (i + 1)
            in if execution_idx s2 > i then
                 (case try_execute s2 i of (r, s3) \<Rightarrow> (map_option Execution r, s3))
               else (None, s2))
         else (None, confirm_validation s i))"

end
