(* ===== verification/Scheduler_Props.thy ===== *)
theory Scheduler_Props
  imports Scheduler
begin

text \<open>
  The methods of the scheduler executed one at a time: when \<^verbatim>\<open>next_task\<close> returns and what it hands out,
  the complete effect of \<^verbatim>\<open>finish_execution\<close>, and that a dependency that was added is resumed.
\<close>

section \<open>Well-formed schedulers\<close>

definition sched_wf :: "scheduler \<Rightarrow> bool" where
  "sched_wf s \<longleftrightarrow> length (transactions_status s) = block_size s \<and>
     length (transactions_dependents s) = block_size s"

definition tasks_left :: "scheduler \<Rightarrow> nat" where
  "tasks_left s = (block_size s - execution_idx s) + (block_size s - validation_idx s)"

lemma set_status_sel [simp]:
  "block_size (set_status s i st) = block_size s"
  "transactions_dependents (set_status s i st) = transactions_dependents s"
  "execution_idx (set_status s i st) = execution_idx s"
  "validation_idx (set_status s i st) = validation_idx s"
  "min_validation_idx (set_status s i st) = min_validation_idx s"
  "num_validated (set_status s i st) = num_validated s"
  "aborted (set_status s i st) = aborted s"
  "length (transactions_status (set_status s i st)) = length (transactions_status s)"
  by (simp_all add: set_status_def)

lemma nth_set_status:
  "j < length (transactions_status s) \<Longrightarrow>
   transactions_status (set_status s i st) ! j =
     (if i = j then (transactions_status s ! j)\<lparr>status := st\<rparr> else transactions_status s ! j)"
  by (auto simp: set_status_def nth_upd)

section \<open>Picking a task\<close>

lemma next_execution_cases:
  assumes "next_execution s = (r, s')"
  obtains
    (found) v where "r = Some (Some (Execution v))" "tx_idx v = execution_idx s" "tx_idx v < block_size s"
      "status_of s (tx_idx v) = ReadyToExecute" "v = version_of s (tx_idx v)"
      "s' = set_status (s\<lparr>execution_idx := execution_idx s + 1\<rparr>) (tx_idx v) Executing"
  | (none) "r = None" "s' = s\<lparr>execution_idx := execution_idx s + 1\<rparr>"
  using assms by (auto simp: next_execution_def fetch_add_execution_def try_execute_def split: if_splits)

text \<open>An iteration that goes round again either spins or makes progress on one of the indices.\<close>

lemma next_task_iter_again:
  assumes "next_task_iter s = (None, s')"
  shows "spinning s \<and> s' = s \<or> tasks_left s' < tasks_left s"
proof (cases "all_tasks_taken s")
  case True
  with assms show ?thesis
    by (auto simp: next_task_iter_def spinning_def split: if_splits)
next
  case False
  note taken = this
  show ?thesis
  proof (cases "validation_idx s < execution_idx s")
    case True
    with taken have "validation_idx s < block_size s" by (auto simp: all_tasks_taken_def)
    with True taken assms show ?thesis
      by (auto simp: next_task_iter_def fetch_add_validation_def pick_validation_def tasks_left_def
          elim!: next_execution_cases split: if_splits incarnation_status.splits)
  next
    case False
    with taken have "execution_idx s < block_size s" by (auto simp: all_tasks_taken_def)
    with False taken assms show ?thesis
      by (auto simp: next_task_iter_def tasks_left_def elim!: next_execution_cases split: if_splits)
  qed
qed

lemma spinning_forever: "spinning s \<Longrightarrow> next_task fuel s = None"
  by (induction fuel) (auto simp: spinning_def next_task_iter_def)

text \<open>
  C28: Without interference, the loop of \<^verbatim>\<open>next_task\<close> takes at most one iteration per index left
  (twice the block size in all): then it has returned, or it is in a state where all tasks are taken
  and not enough are validated, in which it spins until another worker acts.
\<close>

theorem next_task_returns_or_spins:
  "(\<exists>r. \<forall>fuel > tasks_left s. next_task fuel s = Some r) \<or>
   (\<exists>s'. \<exists>k \<le> tasks_left s. spinning s' \<and> (\<forall>fuel. next_task (k + fuel) s = next_task fuel s'))"
proof (induction "tasks_left s" arbitrary: s rule: less_induct)
  case less
  obtain r s1 where it: "next_task_iter s = (r, s1)" by (cases "next_task_iter s")
  show ?case
  proof (cases r)
    case (Some t)
    with it have "next_task fuel s = Some (t, s1)" if "fuel > tasks_left s" for fuel
      using that by (cases fuel) auto
    then show ?thesis by blast
  next
    case None
    with it next_task_iter_again have "spinning s \<and> s1 = s \<or> tasks_left s1 < tasks_left s" by blast
    then show ?thesis
    proof
      assume "spinning s \<and> s1 = s"
      then show ?thesis by (intro disjI2 exI [of _ s] exI [of _ 0]) auto
    next
      assume lt: "tasks_left s1 < tasks_left s"
      have step: "next_task (Suc fuel) s = next_task fuel s1" for fuel
        using it None by simp
      from less [OF lt] show ?thesis
      proof
        assume "\<exists>r. \<forall>fuel > tasks_left s1. next_task fuel s1 = Some r"
        then obtain q where q: "next_task fuel s1 = Some q" if "fuel > tasks_left s1" for fuel by blast
        have "next_task fuel s = Some q" if "fuel > tasks_left s" for fuel
          using that lt q step by (cases fuel) auto
        then show ?thesis by blast
      next
        assume "\<exists>s'. \<exists>k \<le> tasks_left s1. spinning s' \<and> (\<forall>fuel. next_task (k + fuel) s1 = next_task fuel s')"
        then obtain s' k where "k \<le> tasks_left s1" "spinning s'" "\<And>fuel. next_task (k + fuel) s1 = next_task fuel s'"
          by blast
        then show ?thesis
          using lt step by (intro disjI2 exI [of _ s'] exI [of _ "Suc k"]) auto
      qed
    qed
  qed
qed

theorem next_task_returns_or_spins_witness:
  "tasks_left (new_scheduler 1) = 1 \<and> (\<exists>r. \<forall>fuel > 1. next_task fuel (new_scheduler 1) = Some r)"
proof -
  let ?s = "new_scheduler 1"
  have left: "tasks_left ?s = 1" by (simp add: tasks_left_def new_scheduler_def)
  have "(next_task 1 ?s = None) = False" "(next_task 2 ?s = None) = False"
    by code_simp+
  then have "\<nexists>s' k. k \<le> 1 \<and> spinning s' \<and> (\<forall>fuel. next_task (k + fuel) ?s = next_task fuel s')"
    using spinning_forever by (metis One_nat_def add_0 le_0_eq le_SucE one_add_one)
  with next_task_returns_or_spins [of ?s] left show ?thesis by (metis (no_types))
qed

text \<open>What one iteration may hand out, and that statuses change only by claiming a ready transaction.\<close>

definition task_sound :: "scheduler \<Rightarrow> task option \<Rightarrow> scheduler \<Rightarrow> bool" where
  "task_sound s t s' \<longleftrightarrow>
     (case t of
        Some (Execution v) \<Rightarrow>
          tx_idx v < block_size s \<and> v = version_of s (tx_idx v) \<and>
          status_of s (tx_idx v) = ReadyToExecute \<and>
          transactions_status s' = transactions_status (set_status s (tx_idx v) Executing)
      | Some (Validation v) \<Rightarrow>
          tx_idx v < block_size s \<and> v = version_of s (tx_idx v) \<and>
          is_executed (status_of s (tx_idx v)) \<and> transactions_status s' = transactions_status s
      | None \<Rightarrow> transactions_status s' = transactions_status s \<and>
          (aborted s' \<or> all_tasks_taken s' \<and> enough_validated s'))"

lemma next_execution_sound:
  assumes "next_execution s = (r, s')"
  shows "case r of Some t \<Rightarrow> task_sound s t s'
    | None \<Rightarrow> transactions_status s' = transactions_status s \<and> block_size s' = block_size s"
  using assms
proof (cases rule: next_execution_cases)
  case (found v)
  then show ?thesis by (simp add: task_sound_def set_status_def)
next
  case none
  then show ?thesis by simp
qed

lemma next_task_iter_sound:
  assumes "next_task_iter s = (r, s')"
  shows "case r of Some t \<Rightarrow> task_sound s t s'
    | None \<Rightarrow> transactions_status s' = transactions_status s \<and> block_size s' = block_size s"
proof (cases "aborted s \<or> all_tasks_taken s")
  case True
  with assms show ?thesis
    by (auto simp: next_task_iter_def task_sound_def split: if_splits)
next
  case False
  note busy = this
  let ?s1 = "s\<lparr>validation_idx := validation_idx s + 1\<rparr>"
  have ex: "case r of Some t \<Rightarrow> t \<noteq> None \<and> task_sound s t s'
      | None \<Rightarrow> transactions_status s' = transactions_status s \<and> block_size s' = block_size s"
    if "next_execution s0 = (r, s')" "s0 = s \<or> s0 = ?s1" for s0
    using that(1)
  proof (cases rule: next_execution_cases)
    case (found v)
    with that(2) show ?thesis by (auto simp: task_sound_def set_status_def)
  next
    case none
    with that(2) show ?thesis by auto
  qed
  show ?thesis
  proof (cases "validation_idx s < execution_idx s \<and> validation_idx s < block_size s \<and>
      status_of s (validation_idx s) \<noteq> Executing")
    case True
    with busy assms show ?thesis
      by (auto simp: next_task_iter_def fetch_add_validation_def pick_validation_def task_sound_def
          is_executed_def set_status_def split: incarnation_status.splits)
  next
    case False
    with busy assms have "next_execution s = (r, s') \<or> next_execution ?s1 = (r, s')"
      by (auto simp: next_task_iter_def fetch_add_validation_def pick_validation_def
          split: if_splits incarnation_status.splits)
    with ex [of s] ex [of ?s1] show ?thesis by (auto split: option.splits)
  qed
qed


lemma task_sound_cong:
  "transactions_status s1 = transactions_status s \<Longrightarrow> block_size s1 = block_size s \<Longrightarrow>
   task_sound s1 t s' \<longleftrightarrow> task_sound s t s'"
  by (auto simp: task_sound_def set_status_def split: option.splits task.splits)

text \<open>
  C27: Whatever \<^verbatim>\<open>next_task\<close> returns is sound: an execution task is for a transaction that was ready, at
  its current incarnation, which is now executing while every other status is unchanged; a validation
  task is for a transaction that was executed, at its current incarnation, and changes no status; and
  no task is returned only when the scheduler is aborted or all tasks are taken and enough are validated.
\<close>

theorem next_task_sound:
  assumes "next_task fuel s = Some (t, s')"
  shows "task_sound s t s'"
  using assms
proof (induction fuel arbitrary: s)
  case (Suc fuel)
  obtain r s1 where it: "next_task_iter s = (r, s1)" by (cases "next_task_iter s")
  show ?case
  proof (cases r)
    case (Some q)
    with it Suc.prems next_task_iter_sound [OF it] show ?thesis by simp
  next
    case None
    with it Suc.prems have "next_task fuel s1 = Some (t, s')" by simp
    from Suc.IH [OF this] next_task_iter_sound [OF it] None show ?thesis
      using task_sound_cong [of s1 s] by simp
  qed
qed simp

theorem next_task_sound_witness:
  "next_task 1 (new_scheduler 1) =
     Some (Some (Execution \<lparr>tx_idx = 0, tx_incarnation = 0\<rparr>), snd (the (next_task 1 (new_scheduler 1)))) \<and>
   status_of (snd (the (next_task 1 (new_scheduler 1)))) 0 = Executing"
proof -
  let ?v = "\<lparr>tx_idx = 0, tx_incarnation = 0\<rparr>" and ?s' = "snd (the (next_task 1 (new_scheduler 1)))"
  have eq: "next_task 1 (new_scheduler 1) = Some (Some (Execution ?v), ?s')"
    by code_simp
  from next_task_sound [OF this] eq show ?thesis
    by (simp add: task_sound_def set_status_def new_scheduler_def)
qed

section \<open>Finishing an execution\<close>

lemma resume_dependents_sel [simp]:
  "block_size (resume_dependents s ds) = block_size s"
  "transactions_dependents (resume_dependents s ds) = transactions_dependents s"
  "validation_idx (resume_dependents s ds) = validation_idx s"
  "min_validation_idx (resume_dependents s ds) = min_validation_idx s"
  "num_validated (resume_dependents s ds) = num_validated s"
  "aborted (resume_dependents s ds) = aborted s"
  "length (transactions_status (resume_dependents s ds)) = length (transactions_status s)"
  by (induction ds arbitrary: s) (auto simp: fetch_min_execution_def set_ready_status_def)

lemma execution_idx_resume: "execution_idx (resume_dependents s ds) = Min (insert (execution_idx s) (set ds))"
proof (induction ds arbitrary: s)
  case (Cons d ds)
  have "execution_idx (fetch_min_execution (set_ready_status s d) d) = min (execution_idx s) d"
    by (simp add: fetch_min_execution_def set_ready_status_def)
  with Cons.IH show ?case
    by (cases "ds = []") (simp_all add: min.assoc)
qed simp

text \<open>The status a resumed dependent gets: ready, with the next incarnation.\<close>

definition next_incarnation :: "tx_status \<Rightarrow> tx_status" where
  "next_incarnation t = \<lparr>incarnation = incarnation t + 1, status = ReadyToExecute\<rparr>"

lemma nth_resume_dependents:
  assumes "distinct ds" "j < length (transactions_status s)"
  shows "transactions_status (resume_dependents s ds) ! j =
    (if j \<in> set ds then next_incarnation (transactions_status s ! j) else transactions_status s ! j)"
  using assms
proof (induction ds arbitrary: s)
  case (Cons d ds)
  let ?s1 = "fetch_min_execution (set_ready_status s d) d"
  have "transactions_status ?s1 ! j =
      (if j = d then next_incarnation (transactions_status s ! j) else transactions_status s ! j)"
    using Cons.prems by (auto simp: fetch_min_execution_def set_ready_status_def next_incarnation_def nth_upd)
  with Cons show ?case
    by (auto simp: fetch_min_execution_def set_ready_status_def)
qed simp

definition validates_now :: "scheduler \<Rightarrow> tx_idx \<Rightarrow> finish_exec_flags \<Rightarrow> bool" where
  "validates_now s i f \<longleftrightarrow>
     (needs_validation f \<or> min_validation_idx s \<le> i \<and> min_validation_idx s < block_size s) \<and>
     i < validation_idx s"

lemmas finish_defs = finish_execution_def drain_dependents_def decide_min_validation_def
  fetch_min_min_validation_def settle_execution_def count_validated_def fetch_min_validation_def
  validates_now_def

text \<open>
  C33: The number \<^verbatim>\<open>finish_execution\<close> adds to \<^verbatim>\<open>num_validated\<close>: nothing for a transaction that needs
  validation, one for a lazy transaction, but two for a lazy transaction between the minimal and the
  current validation index, whose status is set to \<open>Validated\<close> and counted both in the branch of
  lines 246--247 and again at the end, although it is only one transaction.
\<close>

theorem finish_execution_counts:
  assumes "tx_idx v < block_size s"
  shows "num_validated (snd (finish_execution s v f)) = num_validated s +
    (if needs_validation f then 0 else if validates_now s (tx_idx v) f then 2 else 1)"
  using assms by (auto simp: finish_defs Let_def)

theorem finish_execution_counts_witness:
  "(let s = (new_scheduler 3)\<lparr>execution_idx := 3, min_validation_idx := 1\<rparr>;
        v = \<lparr>tx_idx = 2, tx_incarnation = 0\<rparr>
    in num_validated s = 0 \<and> num_validated (snd (finish_execution s v flags_empty)) = 2)"
  unfolding Let_def
  by (subst finish_execution_counts) (simp_all add: new_scheduler_def validates_now_def)

lemma finish_effect:
  assumes wf: "sched_wf s" and i: "tx_idx v < block_size s" and j: "j < block_size s"
    and ds: "distinct (transactions_dependents s ! tx_idx v)" "tx_idx v \<notin> set (transactions_dependents s ! tx_idx v)"
    and fin: "finish_execution s v f = (t, s')"
  shows "transactions_status s' ! j =
      (if j = tx_idx v then
         (transactions_status s ! j)\<lparr>status := if needs_validation f then Executed else Validated\<rparr>
       else if j \<in> set (transactions_dependents s ! tx_idx v) then next_incarnation (transactions_status s ! j)
       else transactions_status s ! j) \<and>
    transactions_dependents s' = (transactions_dependents s)[tx_idx v := []] \<and>
    execution_idx s' = Min (insert (execution_idx s) (set (transactions_dependents s ! tx_idx v))) \<and>
    t = (if needs_validation f \<and> tx_idx v < validation_idx s then Some (Validation v) else None)"
proof -
  let ?i = "tx_idx v" and ?ds = "transactions_dependents s ! tx_idx v"
  let ?s1 = "s\<lparr>transactions_dependents := (transactions_dependents s)[?i := []]\<rparr>"
  let ?st = "if needs_validation f then Executed else Validated"
  let ?s2 = "resume_dependents ?s1 ?ds"
  have st: "transactions_status s' = transactions_status (set_status ?s2 ?i ?st)"
    and "transactions_dependents s' = transactions_dependents ?s2"
    and "execution_idx s' = execution_idx ?s2"
    and "t = (if needs_validation f \<and> ?i < validation_idx s then Some (Validation v) else None)"
    using fin i wf by (auto simp: finish_defs Let_def set_status_def sched_wf_def split: if_splits)
  moreover have "length (transactions_status ?s2) = block_size s"
    using wf by (simp add: sched_wf_def)
  ultimately show ?thesis
    using j ds wf nth_resume_dependents [OF ds(1), of j ?s1]
    by (auto simp: execution_idx_resume nth_set_status sched_wf_def)
qed

text \<open>
  C32: The complete effect of \<^verbatim>\<open>finish_execution\<close> on a transaction whose dependents are distinct and do
  not contain it: it becomes \<open>Executed\<close> or, when it needs no validation, \<open>Validated\<close>; each dependent
  becomes ready with its next incarnation and the execution index drops to the lowest of them; no
  other status changes; its dependents list is empty; and a validation task for the same version
  is returned exactly when the transaction needs validation and the validation index has passed it.
\<close>

theorem finish_execution_effect:
  assumes wf: "sched_wf s" and i: "tx_idx v < block_size s" and j: "j < block_size s"
    and ds: "distinct (transactions_dependents s ! tx_idx v)" "tx_idx v \<notin> set (transactions_dependents s ! tx_idx v)"
    and fin: "finish_execution s v f = (t, s')"
  shows "transactions_status s' ! j =
      (if j = tx_idx v then
         (transactions_status s ! j)\<lparr>status := if needs_validation f then Executed else Validated\<rparr>
       else if j \<in> set (transactions_dependents s ! tx_idx v) then next_incarnation (transactions_status s ! j)
       else transactions_status s ! j) \<and>
    transactions_dependents s' = (transactions_dependents s)[tx_idx v := []] \<and>
    execution_idx s' = Min (insert (execution_idx s) (set (transactions_dependents s ! tx_idx v))) \<and>
    t = (if needs_validation f \<and> tx_idx v < validation_idx s then Some (Validation v) else None)"
  using finish_effect [OF assms] .

theorem finish_execution_effect_witness:
  "(let s = snd (add_dependency (set_status (set_status (new_scheduler 3) 0 Executing) 2 Executing) 2 0);
        r = finish_execution s \<lparr>tx_idx = 0, tx_incarnation = 0\<rparr> WroteNewLocation
    in transactions_dependents s ! 0 = [2] \<and>
       transactions_status (snd r) ! 2 = \<lparr>incarnation = 1, status = ReadyToExecute\<rparr>)"
proof -
  let ?s = "snd (add_dependency (set_status (set_status (new_scheduler 3) 0 Executing) 2 Executing) 2 0)"
  let ?v = "\<lparr>tx_idx = 0, tx_incarnation = 0\<rparr>"
  have "sched_wf ?s" and deps: "transactions_dependents ?s ! 0 = [2]"
    and st: "transactions_status ?s ! 2 = \<lparr>incarnation = 0, status = Aborting\<rparr>"
    and "block_size ?s = 3"
    unfolding sched_wf_def by code_simp+
  then have "transactions_status (snd (finish_execution ?s ?v WroteNewLocation)) ! 2 =
      next_incarnation (transactions_status ?s ! 2)"
    using finish_execution_effect [of ?s ?v 2 WroteNewLocation "fst (finish_execution ?s ?v WroteNewLocation)"
        "snd (finish_execution ?s ?v WroteNewLocation)"]
    by simp
  then show ?thesis
    unfolding Let_def st using deps by (simp add: next_incarnation_def)
qed

text \<open>
  No wake-up is lost: a transaction that was made to wait for a lower one is ready again, with the
  next incarnation and not behind the execution index, once the lower one finishes its execution.
\<close>

theorem dependency_is_resumed:
  assumes wf: "sched_wf s" and i: "i < block_size s" and b: "tx_idx v < i"
    and ds: "distinct (transactions_dependents s ! tx_idx v)" "tx_idx v \<notin> set (transactions_dependents s ! tx_idx v)"
      "i \<notin> set (transactions_dependents s ! tx_idx v)"
    and add: "add_dependency s i (tx_idx v) = (True, s1)" and fin: "finish_execution s1 v f = (t, s2)"
  shows "transactions_status s2 ! i = next_incarnation (transactions_status s ! i) \<and> execution_idx s2 \<le> i"
proof -
  from add have s1: "s1 = block_on s i (tx_idx v)"
    by (auto simp: add_dependency_def split: if_splits)
  have deps: "transactions_dependents s1 ! tx_idx v = transactions_dependents s ! tx_idx v @ [i]"
    using wf b i by (simp add: s1 block_on_def push_dependent_def sched_wf_def)
  have st: "incarnation (transactions_status s1 ! i) = incarnation (transactions_status s ! i)"
    and wf1: "sched_wf s1" "block_size s1 = block_size s"
    using wf i by (auto simp: s1 block_on_def push_dependent_def sched_wf_def nth_set_status)
  have "tx_idx v < block_size s1" "i < block_size s1"
    "distinct (transactions_dependents s1 ! tx_idx v)" "tx_idx v \<notin> set (transactions_dependents s1 ! tx_idx v)"
    using b i ds deps wf1 by auto
  note eff = finish_effect [OF wf1(1) this(1,2,3,4) fin]
  have "Min (insert (execution_idx s1) (set (transactions_dependents s1 ! tx_idx v))) \<le> i"
    by (rule Min_le) (auto simp: deps)
  with eff show ?thesis
    using b deps st by (auto simp: next_incarnation_def)
qed

theorem dependency_is_resumed_witness:
  "(let s = set_status (set_status (new_scheduler 3) 0 Executing) 2 Executing;
        s2 = snd (finish_execution (snd (add_dependency s 2 0)) \<lparr>tx_idx = 0, tx_incarnation = 0\<rparr> flags_empty)
    in fst (add_dependency s 2 0) \<and> transactions_status s2 ! 2 = \<lparr>incarnation = 1, status = ReadyToExecute\<rparr>)"
proof -
  let ?s = "set_status (set_status (new_scheduler 3) 0 Executing) 2 Executing"
  let ?v = "\<lparr>tx_idx = 0, tx_incarnation = 0\<rparr>"
  let ?s1 = "snd (add_dependency ?s 2 0)"
  have "sched_wf ?s" "block_size ?s = 3" "transactions_dependents ?s ! 0 = []" and add: "fst (add_dependency ?s 2 0)"
    and st: "transactions_status ?s ! 2 = \<lparr>incarnation = 0, status = Executing\<rparr>"
    unfolding sched_wf_def by code_simp+
  moreover from add have "add_dependency ?s 2 0 = (True, ?s1)"
    by (cases "add_dependency ?s 2 0") simp
  ultimately have "transactions_status (snd (finish_execution ?s1 ?v flags_empty)) ! 2 =
      next_incarnation (transactions_status ?s ! 2)"
    using dependency_is_resumed [of ?s 2 ?v ?s1 flags_empty "fst (finish_execution ?s1 ?v flags_empty)"
        "snd (finish_execution ?s1 ?v flags_empty)"]
    by simp
  then show ?thesis
    unfolding Let_def st using add by (simp add: next_incarnation_def)
qed

end
