(* ===== verification/Mv_Memory.thy ===== *)
theory Mv_Memory
  imports Pevm_Types
begin

text \<open>
  The multi-version memory of \<^verbatim>\<open>crates/pevm/src/mv_memory.rs\<close>. A \<^verbatim>\<open>DashMap\<close> is a partial map; that a
  location is present with an empty tree is kept apart from its being absent, because
  \<^verbatim>\<open>validate_read_locations\<close> tells the two apart. The bytecode type belongs to a third-party package
  and is a type parameter. Each function below is one call executed without interference.
\<close>

section \<open>State\<close>

record last_locs =
  ll_read :: read_set
  ll_write :: "location_hash list"

type_synonym mv_tree = "memory_entry btree"
type_synonym mv_table = "location_hash \<rightharpoonup> mv_tree"

record 'bc mv_memory =
  mv_data :: mv_table
  last_locations :: "last_locs list"
  lazy_addresses :: "address list"
  new_bytecodes :: "b256 \<rightharpoonup> 'bc"

definition estimate_tree :: "tx_idx list \<Rightarrow> mv_tree" where
  "estimate_tree is = (\<lambda>i. if i \<in> set is then Some Estimate else None)"

definition mv_new :: "nat \<Rightarrow> (location_hash \<times> tx_idx list) list \<Rightarrow> address list \<Rightarrow> 'bc mv_memory" where
  "mv_new n estimated lazy =
     \<lparr>mv_data = fold (\<lambda>(h, is) d. d(h \<mapsto> estimate_tree is)) estimated Map.empty,
      last_locations = replicate n \<lparr>ll_read = [], ll_write = []\<rparr>,
      lazy_addresses = remdups lazy,
      new_bytecodes = Map.empty\<rparr>"

definition add_lazy_addresses :: "'bc mv_memory \<Rightarrow> address list \<Rightarrow> 'bc mv_memory" where
  "add_lazy_addresses mv new =
     mv\<lparr>lazy_addresses := fold List.insert new (lazy_addresses mv)\<rparr>"

definition consume_lazy_addresses :: "'bc mv_memory \<Rightarrow> address list \<times> 'bc mv_memory" where
  "consume_lazy_addresses mv = (lazy_addresses mv, mv\<lparr>lazy_addresses := []\<rparr>)"

section \<open>Recording the result of an execution\<close>

definition tree_remove :: "mv_table \<Rightarrow> location_hash \<Rightarrow> tx_idx \<Rightarrow> mv_table" where
  "tree_remove d h i = (case d h of Some t \<Rightarrow> d(h \<mapsto> t(i := None)) | None \<Rightarrow> d)"

definition tree_insert :: "mv_table \<Rightarrow> location_hash \<Rightarrow> tx_idx \<Rightarrow> memory_entry \<Rightarrow> mv_table" where
  "tree_insert d h i e =
     d(h \<mapsto> (case d h of Some t \<Rightarrow> t(i \<mapsto> e) | None \<Rightarrow> Map.empty(i \<mapsto> e)))"

text \<open>Lines 98--109: drop the locations of the previous incarnation that are not written any more.\<close>

function remove_stale ::
  "tx_idx \<Rightarrow> write_set \<Rightarrow> nat \<Rightarrow> location_hash list \<Rightarrow> mv_table \<Rightarrow> location_hash list \<times> mv_table" where
  "remove_stale i ws k prev d =
     (if k < length prev then
        (if list_all (\<lambda>(l, _). l \<noteq> prev ! k) ws
         then remove_stale i ws k (swap_remove prev k) (tree_remove d (prev ! k) i)
         else remove_stale i ws (k + 1) prev d)
      else (prev, d))"
  by pat_completeness auto
termination by (relation "measure (\<lambda>(_, _, k, prev, _). length prev - k)") auto

declare remove_stale.simps [simp del]

text \<open>Lines 112--123: register the new writes.\<close>

fun register_writes ::
  "tx_version \<Rightarrow> write_set \<Rightarrow> location_hash list \<Rightarrow> mv_table \<Rightarrow> bool \<Rightarrow> location_hash list \<times> mv_table \<times> bool" where
  "register_writes v [] prev d new = (prev, d, new)"
| "register_writes v ((l, x) # ws) prev d new =
     (let d' = tree_insert d l (tx_idx v) (Data (tx_incarnation v) x)
      in if l \<in> set prev then register_writes v ws prev d' new
         else register_writes v ws (prev @ [l]) d' True)"

definition mv_record ::
  "'bc mv_memory \<Rightarrow> tx_version \<Rightarrow> read_set \<Rightarrow> write_set \<Rightarrow> bool \<times> 'bc mv_memory" where
  "mv_record mv v rs ws =
     (let i = tx_idx v;
          (prev, d1) = remove_stale i ws 0 (ll_write (last_locations mv ! i)) (mv_data mv);
          (writes, d2, new) = register_writes v ws prev d1 False
      in (new, mv\<lparr>mv_data := d2,
                  last_locations := (last_locations mv)[i := \<lparr>ll_read = rs, ll_write = writes\<rparr>]\<rparr>))"

section \<open>Validation and aborts\<close>

text \<open>Lines 143--167: the recorded origins against the tree, from the closest lower transaction down.\<close>

fun origins_match :: "mv_tree \<Rightarrow> nat \<Rightarrow> read_origins \<Rightarrow> bool" where
  "origins_match t i [] = True"
| "origins_match t i (MvMemory v # os) =
     (case next_back t i of
        Some (k, Data inc _) \<Rightarrow> k = tx_idx v \<and> tx_incarnation v = inc \<and> origins_match t k os
      | _ \<Rightarrow> False)"
| "origins_match t i (StorageOrigin # os) =
     (case next_back t i of Some _ \<Rightarrow> False | None \<Rightarrow> origins_match t i os)"

definition location_valid :: "mv_table \<Rightarrow> tx_idx \<Rightarrow> location_hash \<times> read_origins \<Rightarrow> bool" where
  "location_valid d i = (\<lambda>(h, os).
     case d h of
       Some t \<Rightarrow> origins_match t i os
     | None \<Rightarrow> length os = 1 \<and> last os = StorageOrigin)"

definition validate_read_locations :: "'bc mv_memory \<Rightarrow> tx_idx \<Rightarrow> bool" where
  "validate_read_locations mv i = list_all (location_valid (mv_data mv) i) (ll_read (last_locations mv ! i))"

definition mark_estimate :: "tx_idx \<Rightarrow> location_hash \<Rightarrow> mv_table \<Rightarrow> mv_table" where
  "mark_estimate i h d = (case d h of Some t \<Rightarrow> d(h \<mapsto> t(i \<mapsto> Estimate)) | None \<Rightarrow> d)"

definition convert_writes_to_estimates :: "'bc mv_memory \<Rightarrow> tx_idx \<Rightarrow> 'bc mv_memory" where
  "convert_writes_to_estimates mv i =
     mv\<lparr>mv_data := fold (mark_estimate i) (ll_write (last_locations mv ! i)) (mv_data mv)\<rparr>"

section \<open>Entries\<close>

text \<open>What transaction \<open>i\<close> has in the memory for a location.\<close>

definition table_entry :: "mv_table \<Rightarrow> location_hash \<Rightarrow> tx_idx \<Rightarrow> memory_entry option" where
  "table_entry d h i = (case d h of Some t \<Rightarrow> t i | None \<Rightarrow> None)"

abbreviation entry_at :: "'bc mv_memory \<Rightarrow> location_hash \<Rightarrow> tx_idx \<Rightarrow> memory_entry option" where
  "entry_at mv \<equiv> table_entry (mv_data mv)"

lemma table_entry_remove [simp]:
  "table_entry (tree_remove d h i) h' j = (if h' = h \<and> j = i then None else table_entry d h' j)"
  by (auto simp: table_entry_def tree_remove_def split: option.splits)

lemma table_entry_insert [simp]:
  "table_entry (tree_insert d h i e) h' j = (if h' = h \<and> j = i then Some e else table_entry d h' j)"
  by (auto simp: table_entry_def tree_insert_def split: option.splits)

lemma table_entry_mark:
  "table_entry (mark_estimate i h d) h' j =
     (if h' = h \<and> j = i \<and> d h \<noteq> None then Some Estimate else table_entry d h' j)"
  by (auto simp: table_entry_def mark_estimate_def split: option.splits)

lemma mark_estimate_None [simp]: "mark_estimate i h d h' = None \<longleftrightarrow> d h' = None"
  by (auto simp: mark_estimate_def split: option.splits)

lemma table_entry_marks:
  "table_entry (fold (mark_estimate i) hs d) h' j =
     (if h' \<in> set hs \<and> j = i \<and> d h' \<noteq> None then Some Estimate else table_entry d h' j)"
  by (induction hs arbitrary: d) (auto simp: table_entry_mark simp del: not_None_eq)

text \<open>The loop that drops stale locations keeps those that are written and forgets the others.\<close>

lemma remove_stale_spec:
  assumes "distinct prev" "set (take k prev) \<subseteq> fst ` set ws" "k \<le> length prev"
    and "remove_stale i ws k prev d = (prev', d')"
  shows "distinct prev' \<and> set prev' = set prev \<inter> fst ` set ws \<and>
    (\<forall>h j. table_entry d' h j = (if j = i \<and> h \<in> set prev - fst ` set ws then None else table_entry d h j))"
  using assms
proof (induction i ws k prev d arbitrary: prev' d' rule: remove_stale.induct)
  case (1 i ws k prev d)
  have stale: "list_all (\<lambda>(l, _). l \<noteq> prev ! k) ws \<longleftrightarrow> prev ! k \<notin> fst ` set ws"
    by (force simp: list_all_iff)
  consider (over) "\<not> k < length prev" | (drop) "k < length prev" "prev ! k \<notin> fst ` set ws"
    | (keep) "k < length prev" "prev ! k \<in> fst ` set ws" by blast
  then show ?case
  proof cases
    case over
    with "1.prems" show ?thesis
      by (subst (asm) remove_stale.simps) auto
  next
    case drop
    have eq: "remove_stale i ws k (swap_remove prev k) (tree_remove d (prev ! k) i) = (prev', d')"
      using "1.prems"(4) drop stale by (subst (asm) remove_stale.simps) simp
    have tk: "take k (swap_remove prev k) = take k prev"
      using drop(1) by (simp add: swap_remove_def take_butlast)
    note sw = distinct_swap_remove [OF "1.prems"(1) drop(1)]
    from "1.IH"(1) [OF drop(1) _ sw(1) _ _ eq] stale drop tk "1.prems"(2)
    have IH: "distinct prev'" "set prev' = set (swap_remove prev k) \<inter> fst ` set ws"
      and ent: "\<And>h j. table_entry d' h j = (if j = i \<and> h \<in> set (swap_remove prev k) - fst ` set ws then None
        else table_entry (tree_remove d (prev ! k) i) h j)"
      by simp_all
    have "set prev' = set prev \<inter> fst ` set ws"
      unfolding IH(2) sw(2) using drop(2) by (auto simp: image_iff)
    moreover have "table_entry d' h j = (if j = i \<and> h \<in> set prev - fst ` set ws then None else table_entry d h j)"
      for h j
      unfolding ent sw(2) using drop by simp
    ultimately show ?thesis using IH(1) by simp
  next
    case keep
    have eq: "remove_stale i ws (k + 1) prev d = (prev', d')"
      using "1.prems"(4) keep stale by (subst (asm) remove_stale.simps) simp
    have "set (take (k + 1) prev) \<subseteq> fst ` set ws"
      using keep "1.prems"(2) by (auto simp: take_Suc_conv_app_nth)
    with "1.IH"(2) [OF keep(1) _ "1.prems"(1) _ _ eq] stale keep show ?thesis by simp
  qed
qed

lemma register_writes_spec:
  assumes "distinct prev" "register_writes v ws prev d new = (prev', d', new')"
  shows "distinct prev' \<and> set prev' = set prev \<union> fst ` set ws \<and>
    (new' \<longleftrightarrow> new \<or> \<not> fst ` set ws \<subseteq> set prev) \<and>
    (\<forall>h j. table_entry d' h j =
       (if j = tx_idx v \<and> h \<in> fst ` set ws
        then Some (Data (tx_incarnation v) (the (map_of (rev ws) h))) else table_entry d h j))"
  using assms
proof (induction ws arbitrary: prev d new)
  case (Cons w ws)
  obtain l x where w: "w = (l, x)" by (cases w)
  let ?d = "tree_insert d l (tx_idx v) (Data (tx_incarnation v) x)"
  let ?prev = "if l \<in> set prev then prev else prev @ [l]"
  have "register_writes v ws ?prev ?d (new \<or> l \<notin> set prev) = (prev', d', new')"
    using Cons.prems(2) w by (auto simp: Let_def split: if_splits)
  moreover have "distinct ?prev" "set ?prev = insert l (set prev)"
    using Cons.prems(1) by auto
  ultimately have IH: "distinct prev'" "set prev' = insert l (set prev) \<union> fst ` set ws"
    "new' \<longleftrightarrow> new \<or> l \<notin> set prev \<or> \<not> fst ` set ws \<subseteq> insert l (set prev)"
    and ent: "table_entry d' h j = (if j = tx_idx v \<and> h \<in> fst ` set ws
       then Some (Data (tx_incarnation v) (the (map_of (rev ws) h))) else table_entry ?d h j)" for h j
    using Cons.IH [of ?prev ?d "new \<or> l \<notin> set prev"] by auto
  have val: "map_of (rev (w # ws)) h = (if h \<in> fst ` set ws then map_of (rev ws) h else if h = l then Some x else None)" for h
  proof -
    have "map_of (rev ws) h = None \<longleftrightarrow> h \<notin> fst ` set ws" by (simp add: map_of_eq_None_iff)
    then show ?thesis by (auto simp: w map_add_def split: option.splits)
  qed
  have "table_entry d' h j = (if j = tx_idx v \<and> h \<in> fst ` set (w # ws)
       then Some (Data (tx_incarnation v) (the (map_of (rev (w # ws)) h))) else table_entry d h j)" for h j
    unfolding ent val by (auto simp: w)
  moreover have "new' \<longleftrightarrow> new \<or> \<not> fst ` set (w # ws) \<subseteq> set prev"
    using IH(3) by (auto simp: w)
  ultimately show ?case
    using IH(1,2) by (simp add: w)
qed auto

section \<open>The effect of the operations\<close>

abbreviation last_writes :: "'bc mv_memory \<Rightarrow> tx_idx \<Rightarrow> location_hash list" where
  "last_writes mv i \<equiv> ll_write (last_locations mv ! i)"

lemma record_spec:
  assumes "mv_record mv v rs ws = (new, mv')" "distinct (last_writes mv (tx_idx v))"
  shows "new \<longleftrightarrow> \<not> fst ` set ws \<subseteq> set (last_writes mv (tx_idx v))"
    and "entry_at mv' h j =
      (if j \<noteq> tx_idx v then entry_at mv h j
       else if h \<in> fst ` set ws then Some (Data (tx_incarnation v) (the (map_of (rev ws) h)))
       else if h \<in> set (last_writes mv (tx_idx v)) then None
       else entry_at mv h j)"
    and "\<exists>ws'. last_locations mv' = (last_locations mv)[tx_idx v := \<lparr>ll_read = rs, ll_write = ws'\<rparr>] \<and>
      distinct ws' \<and> set ws' = fst ` set ws"
proof -
  let ?i = "tx_idx v"
  obtain prev d1 where st: "remove_stale ?i ws 0 (last_writes mv ?i) (mv_data mv) = (prev, d1)"
    by (cases "remove_stale ?i ws 0 (last_writes mv ?i) (mv_data mv)")
  obtain wr d2 n where rg: "register_writes v ws prev d1 False = (wr, d2, n)"
    by (cases "register_writes v ws prev d1 False")
  from assms(1) st rg have mv': "new = n" "mv_data mv' = d2"
    "last_locations mv' = (last_locations mv)[?i := \<lparr>ll_read = rs, ll_write = wr\<rparr>]"
    by (auto simp: mv_record_def Let_def)
  from remove_stale_spec [OF assms(2) _ _ st]
  have s: "distinct prev" "set prev = set (last_writes mv ?i) \<inter> fst ` set ws"
    and se: "table_entry d1 h j = (if j = ?i \<and> h \<in> set (last_writes mv ?i) - fst ` set ws then None
      else entry_at mv h j)" for h j
    by simp_all
  from register_writes_spec [OF s(1) rg]
  have r: "distinct wr" "set wr = set prev \<union> fst ` set ws" "n \<longleftrightarrow> \<not> fst ` set ws \<subseteq> set prev"
    and re: "table_entry d2 h j = (if j = ?i \<and> h \<in> fst ` set ws
      then Some (Data (tx_incarnation v) (the (map_of (rev ws) h))) else table_entry d1 h j)" for h j
    by simp_all
  show "new \<longleftrightarrow> \<not> fst ` set ws \<subseteq> set (last_writes mv ?i)"
    using mv'(1) r(3) s(2) by blast
  show "entry_at mv' h j =
      (if j \<noteq> ?i then entry_at mv h j
       else if h \<in> fst ` set ws then Some (Data (tx_incarnation v) (the (map_of (rev ws) h)))
       else if h \<in> set (last_writes mv ?i) then None else entry_at mv h j)"
    unfolding mv' re se by (simp add: mv'(2))
  have "set wr = fst ` set ws" using r(2) s(2) by blast
  with mv'(3) r(1) show "\<exists>ws'. last_locations mv' = (last_locations mv)[?i := \<lparr>ll_read = rs, ll_write = ws'\<rparr>] \<and>
      distinct ws' \<and> set ws' = fst ` set ws" by blast
qed

lemma convert_sel [simp]:
  "last_locations (convert_writes_to_estimates mv i) = last_locations mv"
  "lazy_addresses (convert_writes_to_estimates mv i) = lazy_addresses mv"
  "new_bytecodes (convert_writes_to_estimates mv i) = new_bytecodes mv"
  by (simp_all add: convert_writes_to_estimates_def)

lemma entry_at_estimates:
  "entry_at (convert_writes_to_estimates mv i) h j =
     (if j = i \<and> h \<in> set (last_writes mv i) \<and> mv_data mv h \<noteq> None then Some Estimate else entry_at mv h j)"
  by (auto simp: convert_writes_to_estimates_def table_entry_marks simp del: not_None_eq)

text \<open>
  The invariant of the memory: every transaction's last writes are distinct and present, and every
  value in the memory belongs to the last writes of its transaction.
\<close>

definition mv_wf :: "nat \<Rightarrow> 'bc mv_memory \<Rightarrow> bool" where
  "mv_wf n mv \<longleftrightarrow>
     length (last_locations mv) = n \<and>
     (\<forall>i < n. distinct (last_writes mv i) \<and> (\<forall>h \<in> set (last_writes mv i). entry_at mv h i \<noteq> None)) \<and>
     (\<forall>h i e. entry_at mv h i = Some e \<longrightarrow> i < n \<and> (e \<noteq> Estimate \<longrightarrow> h \<in> set (last_writes mv i))) \<and>
     distinct (lazy_addresses mv)"

lemma mv_wfD:
  assumes "mv_wf n mv"
  shows "length (last_locations mv) = n" "i < n \<Longrightarrow> distinct (last_writes mv i)"
    and "i < n \<Longrightarrow> h \<in> set (last_writes mv i) \<Longrightarrow> entry_at mv h i \<noteq> None"
    and "entry_at mv h i = Some e \<Longrightarrow> i < n"
    and "entry_at mv h i = Some e \<Longrightarrow> e \<noteq> Estimate \<Longrightarrow> h \<in> set (last_writes mv i)"
    and "distinct (lazy_addresses mv)"
  using assms by (auto simp: mv_wf_def)

lemma mv_wfI:
  assumes "length (last_locations mv) = n" "\<And>i. i < n \<Longrightarrow> distinct (last_writes mv i)"
    and "\<And>i h. i < n \<Longrightarrow> h \<in> set (last_writes mv i) \<Longrightarrow> entry_at mv h i \<noteq> None"
    and "\<And>i h e. entry_at mv h i = Some e \<Longrightarrow> i < n \<and> (e \<noteq> Estimate \<longrightarrow> h \<in> set (last_writes mv i))"
    and "distinct (lazy_addresses mv)"
  shows "mv_wf n mv"
  using assms by (auto simp: mv_wf_def)

lemma table_entry_new:
  assumes "table_entry (fold (\<lambda>(h, is) d. d(h \<mapsto> estimate_tree is)) est d) h i = Some e"
    and "\<And>e. table_entry d h i = Some e \<Longrightarrow> e = Estimate \<and> i < n"
    and "\<forall>(h, is) \<in> set est. \<forall>i \<in> set is. i < n"
  shows "e = Estimate \<and> i < n"
  using assms
proof (induction est arbitrary: d)
  case (Cons x est)
  obtain h1 is1 where x: "x = (h1, is1)" by (cases x)
  have "e = Estimate \<and> i < n" if "table_entry (d(h1 \<mapsto> estimate_tree is1)) h i = Some e" for e
    using that Cons.prems(2) [of e] Cons.prems(3)
    by (auto simp: table_entry_def estimate_tree_def x split: if_splits)
  then show ?case
    using Cons.prems(1,3) by (intro Cons.IH [of "d(h1 \<mapsto> estimate_tree is1)"]) (auto simp: x)
qed auto

lemma mv_wf_new:
  "\<forall>(h, is) \<in> set est. \<forall>i \<in> set is. i < n \<Longrightarrow> mv_wf n (mv_new n est lazy)"
  using table_entry_new [of est Map.empty, where n = n]
  by (intro mv_wfI) (auto simp: mv_new_def table_entry_def)

lemma mv_wf_record:
  assumes wf: "mv_wf n mv" and i: "tx_idx v < n" and r: "mv_record mv v rs ws = (new, mv')"
  shows "mv_wf n mv'"
proof -
  note spec = record_spec [OF r mv_wfD(2) [OF wf i]]
  from spec(3) obtain ws' where
    ll: "last_locations mv' = (last_locations mv)[tx_idx v := \<lparr>ll_read = rs, ll_write = ws'\<rparr>]"
    and ws': "distinct ws'" "set ws' = fst ` set ws" by blast
  have lw: "last_writes mv' j = (if j = tx_idx v then ws' else last_writes mv j)" if "j < n" for j
    using that mv_wfD(1) [OF wf] by (auto simp: ll nth_upd)
  have lz: "lazy_addresses mv' = lazy_addresses mv"
    using r by (auto simp: mv_record_def Let_def split: prod.splits)
  show ?thesis
  proof (rule mv_wfI)
    show "length (last_locations mv') = n" using mv_wfD(1) [OF wf] by (simp add: ll)
    show "distinct (last_writes mv' j)" if "j < n" for j
      using that lw ws' mv_wfD(2) [OF wf] by simp
    show "entry_at mv' h j \<noteq> None" if "j < n" "h \<in> set (last_writes mv' j)" for j h
      using that lw [of j] ws' mv_wfD(3) [OF wf, of j h] by (auto simp: spec(2) split: if_splits)
    show "j < n \<and> (e \<noteq> Estimate \<longrightarrow> h \<in> set (last_writes mv' j))" if "entry_at mv' h j = Some e" for j h e
    proof (cases "j = tx_idx v")
      case True
      with that i lw [of j] ws' mv_wfD(5) [OF wf, of h j e] show ?thesis
        by (auto simp: spec(2) split: if_splits)
    next
      case False
      with that have "entry_at mv h j = Some e" by (simp add: spec(2))
      with False lw [of j] mv_wfD(4,5) [OF wf] show ?thesis by auto
    qed
  qed (use lz mv_wfD(6) [OF wf] in simp)
qed

lemma entry_at_data: "entry_at mv h i \<noteq> None \<Longrightarrow> mv_data mv h \<noteq> None"
  by (auto simp: table_entry_def split: option.splits)

lemma mv_wf_estimates:
  assumes wf: "mv_wf n mv" and i: "i < n"
  shows "mv_wf n (convert_writes_to_estimates mv i)"
proof (rule mv_wfI)
  show "j < n \<and> (e \<noteq> Estimate \<longrightarrow> h \<in> set (last_writes (convert_writes_to_estimates mv i) j))"
    if "entry_at (convert_writes_to_estimates mv i) h j = Some e" for j h e
    using that i mv_wfD(4,5) [OF wf, of h j e] by (auto simp: entry_at_estimates split: if_splits)
qed (use mv_wfD [OF wf] in \<open>auto simp: entry_at_estimates\<close>)

section \<open>What validation depends on\<close>

text \<open>
  The shape of every recorded list of origins: lazy updates of lower transactions, closed by a
  version that wrote an absolute value or by the storage.
\<close>

fun wf_origins :: "read_origins \<Rightarrow> bool" where
  "wf_origins [] = False"
| "wf_origins [os] = True"
| "wf_origins (MvMemory v # os) = wf_origins os"
| "wf_origins (StorageOrigin # os) = False"

abbreviation wf_reads :: "read_set \<Rightarrow> bool" where
  "wf_reads rs \<equiv> (\<forall>(h, os) \<in> set rs. wf_origins os)"

lemma next_back_empty [simp]: "next_back (\<lambda>_. None) i = None"
  by (induction i) auto

lemma wf_origins_storage: "wf_origins (StorageOrigin # os) \<longleftrightarrow> os = []"
  by (cases os) auto

lemma origins_match_empty:
  "origins_match (\<lambda>_. None) i os \<longleftrightarrow> (\<forall>ro \<in> set os. ro = StorageOrigin)"
proof (induction os)
  case (Cons ro os)
  then show ?case by (cases ro) auto
qed simp

lemma location_valid_iff:
  assumes "wf_origins os"
  shows "location_valid d i (h, os) \<longleftrightarrow> origins_match (table_entry d h) i os"
proof (cases "d h")
  case None
  then have "table_entry d h = (\<lambda>_. None)"
    by (simp add: table_entry_def fun_eq_iff)
  with None assms show ?thesis
    by (cases os rule: wf_origins.cases) (auto simp: location_valid_def origins_match_empty)
next
  case (Some t)
  then have "table_entry d h = t"
    by (simp add: table_entry_def fun_eq_iff)
  with Some show ?thesis by (simp add: location_valid_def)
qed

lemma origins_match_cong:
  "(\<And>j. j < i \<Longrightarrow> t j = t' j) \<Longrightarrow> origins_match t i os = origins_match t' i os"
proof (induction t i os rule: origins_match.induct)
  case (2 t i v os)
  from 2 have eq: "next_back t i = next_back t' i" by (intro next_back_cong) auto
  show ?case
  proof (cases "next_back t i")
    case (Some p)
    obtain k e where p: "p = (k, e)" by (cases p)
    with Some next_back_less have "k < i" by fastforce
    with Some p eq 2 show ?thesis by (cases e) auto
  qed (use eq in simp)
next
  case (3 t i os)
  from 3 have "next_back t i = next_back t' i" by (intro next_back_cong) auto
  with 3 show ?case by (auto split: option.splits)
qed simp

lemma validate_cong:
  assumes "\<And>h j. j < i \<Longrightarrow> entry_at mv h j = entry_at mv' h j"
    and "ll_read (last_locations mv ! i) = ll_read (last_locations mv' ! i)"
    and "wf_reads (ll_read (last_locations mv ! i))"
  shows "validate_read_locations mv i = validate_read_locations mv' i"
proof -
  have "location_valid (mv_data mv) i p = location_valid (mv_data mv') i p"
    if "p \<in> set (ll_read (last_locations mv ! i))" for p
    using that assms(1,3) origins_match_cong [of i "table_entry (mv_data mv) (fst p)" "table_entry (mv_data mv') (fst p)"]
    by (cases p) (auto simp: location_valid_iff)
  then show ?thesis
    using assms(2) by (simp add: validate_read_locations_def list_all_iff)
qed

lemma origins_match_version:
  "origins_match t i os \<Longrightarrow> MvMemory v \<in> set os \<Longrightarrow>
   tx_idx v < i \<and> (\<exists>x. t (tx_idx v) = Some (Data (tx_incarnation v) x))"
proof (induction t i os rule: origins_match.induct)
  case (2 t i u os)
  then obtain x where nb: "next_back t i = Some (tx_idx u, Data (tx_incarnation u) x)"
    and m: "origins_match t (tx_idx u) os"
    by (auto split: option.splits memory_entry.splits)
  from nb have u: "tx_idx u < i" "t (tx_idx u) = Some (Data (tx_incarnation u) x)"
    by (auto simp: next_back_Some_iff)
  show ?case
  proof (cases "MvMemory v \<in> set os")
    case True
    from 2(1) [OF nb refl refl m True] u show ?thesis by auto
  next
    case False
    with 2 u show ?thesis by auto
  qed
qed (auto split: option.splits)

lemma validate_version:
  assumes "validate_read_locations mv i" "(h, os) \<in> set (ll_read (last_locations mv ! i))"
    and "wf_origins os" "MvMemory v \<in> set os"
  shows "tx_idx v < i \<and> (\<exists>x. entry_at mv h (tx_idx v) = Some (Data (tx_incarnation v) x))"
  using assms origins_match_version [of "table_entry (mv_data mv) h" i os v]
  by (auto simp: validate_read_locations_def list_all_iff location_valid_iff)

section \<open>The contract of the memory\<close>

text \<open>
  The calls the workers make on the memory. The interface they rely on is stated as a locale; what
  follows from it for sequences of calls is proved once there.
\<close>

datatype mv_call =
    RecordCall tx_version read_set write_set
  | EstimateCall tx_idx

fun call_idx :: "mv_call \<Rightarrow> tx_idx" where
  "call_idx (RecordCall v rs ws) = tx_idx v"
| "call_idx (EstimateCall i) = i"

locale versioned_store =
  fixes wf :: "nat \<Rightarrow> 'm \<Rightarrow> bool"
    and entry :: "'m \<Rightarrow> location_hash \<Rightarrow> tx_idx \<Rightarrow> memory_entry option"
    and reads :: "'m \<Rightarrow> tx_idx \<Rightarrow> read_set"
    and writes :: "'m \<Rightarrow> tx_idx \<Rightarrow> location_hash set"
    and put :: "'m \<Rightarrow> tx_version \<Rightarrow> read_set \<Rightarrow> write_set \<Rightarrow> bool \<times> 'm"
    and estimate :: "'m \<Rightarrow> tx_idx \<Rightarrow> 'm"
    and valid :: "'m \<Rightarrow> tx_idx \<Rightarrow> bool"
  assumes put_wf: "wf n m \<Longrightarrow> tx_idx v < n \<Longrightarrow> wf n (snd (put m v rs ws))"
    and estimate_wf: "wf n m \<Longrightarrow> i < n \<Longrightarrow> wf n (estimate m i)"
    and put_other: "wf n m \<Longrightarrow> tx_idx v < n \<Longrightarrow> j \<noteq> tx_idx v \<Longrightarrow>
          entry (snd (put m v rs ws)) h j = entry m h j \<and> reads (snd (put m v rs ws)) j = reads m j"
    and estimate_other: "wf n m \<Longrightarrow> i < n \<Longrightarrow> j \<noteq> i \<Longrightarrow> entry (estimate m i) h j = entry m h j"
    and estimate_own: "wf n m \<Longrightarrow> i < n \<Longrightarrow> h \<in> writes m i \<Longrightarrow> entry (estimate m i) h i = Some Estimate"
    and estimate_reads: "reads (estimate m i) j = reads m j"
    and estimate_writes: "writes (estimate m i) j = writes m j"
    and writes_entry: "wf n m \<Longrightarrow> entry m h i = Some (Data inc x) \<Longrightarrow> h \<in> writes m i"
    and valid_local: "(\<And>h j. j < i \<Longrightarrow> entry m h j = entry m' h j) \<Longrightarrow> reads m i = reads m' i \<Longrightarrow>
          wf_reads (reads m i) \<Longrightarrow> valid m i = valid m' i"
    and valid_version: "valid m i \<Longrightarrow> (h, os) \<in> set (reads m i) \<Longrightarrow> wf_origins os \<Longrightarrow> MvMemory v \<in> set os \<Longrightarrow>
          \<exists>x. entry m h (tx_idx v) = Some (Data (tx_incarnation v) x)"
begin

fun run_call :: "'m \<Rightarrow> mv_call \<Rightarrow> 'm" where
  "run_call m (RecordCall v rs ws) = snd (put m v rs ws)"
| "run_call m (EstimateCall i) = estimate m i"

lemma run_call_frame:
  assumes "wf n m" "call_idx c < n" "j \<noteq> call_idx c"
  shows "wf n (run_call m c) \<and> entry (run_call m c) h j = entry m h j \<and> reads (run_call m c) j = reads m j"
  using assms put_wf estimate_wf put_other estimate_other estimate_reads by (cases c) auto

text \<open>Nothing a higher transaction does changes the verdict on a lower one.\<close>

lemma higher_calls_keep_validity:
  assumes "wf n m" "wf_reads (reads m i)" "\<And>c. c \<in> set cs \<Longrightarrow> i < call_idx c \<and> call_idx c < n"
  shows "valid (foldl run_call m cs) i = valid m i"
  using assms
proof (induction cs arbitrary: m)
  case (Cons c cs)
  from Cons.prems(3) [of c] have c: "i < call_idx c" "call_idx c < n" by auto
  note frame = run_call_frame [OF Cons.prems(1) c(2)]
  have "valid (run_call m c) i = valid m i"
    using frame c Cons.prems(2) by (intro valid_local) auto
  moreover have "valid (foldl run_call (run_call m c) cs) i = valid (run_call m c) i"
    using Cons.IH [of "run_call m c"] Cons.prems(2,3) frame [of i] c by auto
  ultimately show ?case by simp
qed simp

text \<open>Aborting a transaction invalidates every transaction that read one of its values.\<close>

lemma estimate_invalidates:
  assumes "wf n m" "tx_idx v < n" "(h, os) \<in> set (reads m i)" "wf_origins os" "MvMemory v \<in> set os"
  shows "\<not> valid (estimate m (tx_idx v)) i"
proof
  assume v: "valid (estimate m (tx_idx v)) i"
  have wf': "wf n (estimate m (tx_idx v))" using assms estimate_wf by blast
  from valid_version [OF v, of h os v] assms obtain x
    where x: "entry (estimate m (tx_idx v)) h (tx_idx v) = Some (Data (tx_incarnation v) x)"
    by (auto simp: estimate_reads)
  show False
  proof (cases "h \<in> writes m (tx_idx v)")
    case True
    with estimate_own assms x show False by auto
  next
    case False
    with writes_entry [OF wf' x] estimate_writes show False by simp
  qed
qed

end

lemma mv_record_frame:
  assumes "mv_wf n mv" "tx_idx v < n"
  shows "mv_wf n (snd (mv_record mv v rs ws))"
    and "j \<noteq> tx_idx v \<Longrightarrow> entry_at (snd (mv_record mv v rs ws)) h j = entry_at mv h j \<and>
      ll_read (last_locations (snd (mv_record mv v rs ws)) ! j) = ll_read (last_locations mv ! j)"
proof -
  obtain new mv' where r: "mv_record mv v rs ws = (new, mv')" by (cases "mv_record mv v rs ws")
  from mv_wf_record [OF assms r] r show "mv_wf n (snd (mv_record mv v rs ws))" by simp
  note spec = record_spec [OF r mv_wfD(2) [OF assms]]
  show "entry_at (snd (mv_record mv v rs ws)) h j = entry_at mv h j \<and>
      ll_read (last_locations (snd (mv_record mv v rs ws)) ! j) = ll_read (last_locations mv ! j)"
    if "j \<noteq> tx_idx v"
    using that spec(2) [of h j] spec(3) r by auto
qed

lemma estimate_of_write:
  "mv_wf n mv \<Longrightarrow> i < n \<Longrightarrow> h \<in> set (last_writes mv i) \<Longrightarrow>
   entry_at (convert_writes_to_estimates mv i) h i = Some Estimate"
  using mv_wfD(3) [of n mv i h] entry_at_data [of mv h i] by (simp add: entry_at_estimates)

lemma estimate_elsewhere: "j \<noteq> i \<Longrightarrow> entry_at (convert_writes_to_estimates mv i) h j = entry_at mv h j"
  by (simp add: entry_at_estimates)

interpretation mvm: versioned_store "mv_wf :: nat \<Rightarrow> 'bc mv_memory \<Rightarrow> bool" entry_at
  "\<lambda>mv i. ll_read (last_locations mv ! i)" "\<lambda>mv i. set (last_writes mv i)"
  mv_record convert_writes_to_estimates validate_read_locations
proof unfold_locales
  show "validate_read_locations m i = validate_read_locations m' i"
    if "\<And>h j. j < i \<Longrightarrow> entry_at m h j = entry_at m' h j"
      "ll_read (last_locations m ! i) = ll_read (last_locations m' ! i)" "wf_reads (ll_read (last_locations m ! i))"
    for m m' :: "'bc mv_memory" and i
    using validate_cong [OF that] .
qed (auto simp: mv_record_frame mv_wf_estimates estimate_of_write estimate_elsewhere
    dest: mv_wfD(5) validate_version)

section \<open>Properties\<close>

fun mv_apply :: "'bc mv_memory \<Rightarrow> mv_call \<Rightarrow> 'bc mv_memory" where
  "mv_apply mv (RecordCall v rs ws) = snd (mv_record mv v rs ws)"
| "mv_apply mv (EstimateCall i) = convert_writes_to_estimates mv i"

lemma mv_apply_run_call: "mvm.run_call = mv_apply"
proof (intro ext)
  fix mv :: "'a mv_memory" and c
  show "mvm.run_call mv c = mv_apply mv c" by (cases c) simp_all
qed

text \<open>
  C16: The whole effect of \<^verbatim>\<open>MvMemory::record\<close>: each written location holds the last value written to it,
  under the version's incarnation; locations the previous incarnation wrote and this one does not are
  cleared; nothing of any other transaction changes; the read set and the set of written locations
  are remembered; and the result says whether a location was written that the previous incarnation
  had not written. A location the transaction never wrote keeps its entry, so a pre-estimated
  location that is not written stays an estimate.
\<close>

theorem record_effect:
  assumes "mv_wf n mv" "tx_idx v < n" "mv_record mv v rs ws = (new, mv')"
  shows "(new \<longleftrightarrow> \<not> fst ` set ws \<subseteq> set (last_writes mv (tx_idx v))) \<and>
    (\<forall>h j. entry_at mv' h j =
      (if j \<noteq> tx_idx v then entry_at mv h j
       else if h \<in> fst ` set ws then Some (Data (tx_incarnation v) (the (map_of (rev ws) h)))
       else if h \<in> set (last_writes mv (tx_idx v)) then None
       else entry_at mv h j)) \<and>
    ll_read (last_locations mv' ! tx_idx v) = rs \<and>
    set (last_writes mv' (tx_idx v)) = fst ` set ws"
proof -
  note spec = record_spec [OF assms(3) mv_wfD(2) [OF assms(1,2)]]
  from spec(3) obtain ws' where "last_locations mv' = (last_locations mv)[tx_idx v := \<lparr>ll_read = rs, ll_write = ws'\<rparr>]"
    and "set ws' = fst ` set ws" by blast
  then have "ll_read (last_locations mv' ! tx_idx v) = rs" "set (last_writes mv' (tx_idx v)) = fst ` set ws"
    using assms(2) mv_wfD(1) [OF assms(1)] by simp_all
  with spec(1,2) show ?thesis by blast
qed

text \<open>A memory for two transactions in which the first has executed once.\<close>

definition sample_memory :: "unit mv_memory" where
  "sample_memory = snd (mv_record (mv_new 2 [(9, [0, 1])] []) \<lparr>tx_idx = 0, tx_incarnation = 0\<rparr>
     [(5, [StorageOrigin])] [(5, ValStorage 1), (6, ValStorage 2)])"

lemma sample_memory_wf: "mv_wf 2 sample_memory"
  unfolding sample_memory_def by (rule mv_record_frame(1) [OF mv_wf_new]) auto

theorem record_effect_witness:
  "(let v = \<lparr>tx_idx = 0, tx_incarnation = 1\<rparr>; ws = [(6, ValStorage 3), (7, ValStorage 4)];
        r = mv_record sample_memory v [] ws
    in fst r \<and> entry_at (snd r) 5 0 = None \<and> entry_at (snd r) 6 0 = Some (Data 1 (ValStorage 3)) \<and>
       entry_at (snd r) 9 0 = Some Estimate)"
proof -
  let ?v = "\<lparr>tx_idx = 0, tx_incarnation = 1\<rparr>" and ?ws = "[(6, ValStorage 3), (7, ValStorage 4)]"
  let ?r = "mv_record sample_memory ?v [] ?ws"
  have lw: "last_writes sample_memory 0 = [5, 6]" "entry_at sample_memory 9 0 = Some Estimate"
    unfolding sample_memory_def by code_simp+
  have "?r = (fst ?r, snd ?r)" by simp
  from record_effect [OF sample_memory_wf _ this] lw show ?thesis
    unfolding Let_def by simp
qed

lemma distinct_fold_insert: "distinct xs \<Longrightarrow> distinct (fold List.insert new xs)"
  by (induction new arbitrary: xs) auto

lemma mv_wf_lazy: "mv_wf n mv \<Longrightarrow> mv_wf n (add_lazy_addresses mv new)"
  by (simp add: mv_wf_def add_lazy_addresses_def distinct_fold_insert)

lemma mv_wf_consume: "mv_wf n mv \<Longrightarrow> mv_wf n (snd (consume_lazy_addresses mv))"
  by (simp add: mv_wf_def consume_lazy_addresses_def)

text \<open>
  C17: The invariant of the multi-version memory (distinct and present last writes, every value owned by
  the last writes of its transaction, indices below the block size) holds of a new memory and is kept
  by every operation.
\<close>

theorem memory_invariant:
  "((\<forall>(h, is) \<in> set est. \<forall>i \<in> set is. i < n) \<longrightarrow> mv_wf n (mv_new n est lazy)) \<and>
   (mv_wf n mv \<and> tx_idx v < n \<longrightarrow> mv_wf n (snd (mv_record mv v rs ws))) \<and>
   (mv_wf n mv \<and> i < n \<longrightarrow> mv_wf n (convert_writes_to_estimates mv i)) \<and>
   (mv_wf n mv \<longrightarrow> mv_wf n (add_lazy_addresses mv new) \<and> mv_wf n (snd (consume_lazy_addresses mv)))"
  using mv_wf_new mv_record_frame(1) mv_wf_estimates mv_wf_lazy mv_wf_consume by blast

theorem memory_invariant_witness:
  "mv_wf 2 (convert_writes_to_estimates sample_memory 0) \<and>
   mv_wf 2 (snd (mv_record sample_memory \<lparr>tx_idx = 1, tx_incarnation = 0\<rparr> [] [(5, ValStorage 8)]))"
  using memory_invariant [of "[]" 2 "[]" sample_memory "\<lparr>tx_idx = 1, tx_incarnation = 0\<rparr>" "[]" "[(5, ValStorage 8)]" 0 "[]"]
    sample_memory_wf by auto

text \<open>
  The verdict of \<^verbatim>\<open>validate_read_locations\<close> on a transaction is not changed by any sequence of
  recordings and aborts of higher transactions.
\<close>

theorem validation_ignores_higher_transactions:
  assumes "mv_wf n mv" "wf_reads (ll_read (last_locations mv ! i))"
    and "\<forall>c \<in> set cs. i < call_idx c \<and> call_idx c < n"
  shows "validate_read_locations (foldl mv_apply mv cs) i = validate_read_locations mv i"
  using mvm.higher_calls_keep_validity [OF assms(1,2), of cs] assms(3) by (simp add: mv_apply_run_call)

theorem validation_ignores_higher_transactions_witness:
  "validate_read_locations (foldl mv_apply sample_memory
     [RecordCall \<lparr>tx_idx = 1, tx_incarnation = 0\<rparr> [] [(5, ValStorage 8)], EstimateCall 1]) 0"
proof -
  have "validate_read_locations sample_memory 0" "ll_read (last_locations sample_memory ! 0) = [(5, [StorageOrigin])]"
    unfolding sample_memory_def by code_simp+
  with validation_ignores_higher_transactions [OF sample_memory_wf, of 0
      "[RecordCall \<lparr>tx_idx = 1, tx_incarnation = 0\<rparr> [] [(5, ValStorage 8)], EstimateCall 1]"]
  show ?thesis by simp
qed

text \<open>
  C18: When a transaction is aborted and its writes become estimates, every transaction whose read set
  names one of its versions fails validation.
\<close>

theorem abort_invalidates_readers:
  assumes "mv_wf n mv" "tx_idx v < n" "(h, os) \<in> set (ll_read (last_locations mv ! i))" "wf_origins os"
    and "MvMemory v \<in> set os"
  shows "\<not> validate_read_locations (convert_writes_to_estimates mv (tx_idx v)) i"
  using mvm.estimate_invalidates [OF assms] .

theorem abort_invalidates_readers_witness:
  "(let v = \<lparr>tx_idx = 0, tx_incarnation = 0\<rparr>;
        mv = snd (mv_record sample_memory \<lparr>tx_idx = 1, tx_incarnation = 0\<rparr> [(6, [MvMemory v])] [])
    in validate_read_locations mv 1 \<and> \<not> validate_read_locations (convert_writes_to_estimates mv 0) 1)"
proof -
  let ?v = "\<lparr>tx_idx = 0, tx_incarnation = 0\<rparr>"
  let ?mv = "snd (mv_record sample_memory \<lparr>tx_idx = 1, tx_incarnation = 0\<rparr> [(6, [MvMemory ?v])] [])"
  have "validate_read_locations ?mv 1" and rd: "ll_read (last_locations ?mv ! 1) = [(6, [MvMemory ?v])]"
    unfolding sample_memory_def by code_simp+
  moreover have "mv_wf 2 ?mv"
    using mv_record_frame(1) [OF sample_memory_wf] by simp
  from abort_invalidates_readers [OF this, of ?v 6 "[MvMemory ?v]" 1] rd
  have "\<not> validate_read_locations (convert_writes_to_estimates ?mv 0) 1" by simp
  ultimately show ?thesis unfolding Let_def by blast
qed

end
