(* ===== verification/Storage.thy ===== *)
theory Storage
  imports Pevm_Types
begin

text \<open>
  Accounts, code and the storage interface of \<^verbatim>\<open>crates/pevm/src/storage.rs\<close>, and the in-memory storage of
  \<^verbatim>\<open>storage/in_memory.rs\<close>. What the crate uses of the EVM package (its bytecode type with constructors
  and observers, account predicates, the Keccak hash) and the location hash are fields of
  \<open>revm_api\<close>, a parameter of every definition that calls them. A storage error only ever reaches the
  rest of the crate through its printed form, so a fallible query returns \<open>string + 'a\<close>.
\<close>

section \<open>The interface to the EVM package\<close>

datatype bytecode_kind = LegacyAnalyzed | Eip7702Kind

record 'bc account_info =
  ai_balance :: u256
  ai_nonce :: u64
  ai_code_hash :: b256
  ai_code :: "'bc option"

record evm_slot =
  original_value :: u256
  present_value :: u256

record 'bc revm_account =
  ra_info :: "'bc account_info"
  ra_storage :: "(u256 \<times> evm_slot) list"
  ra_touched :: bool
  ra_selfdestructed :: bool

record ('bc, 'jt) revm_api =
  hash_deterministic :: location_hasher
  keccak_empty :: b256
  keccak256 :: "string \<Rightarrow> b256"
  bc_kind :: "'bc \<Rightarrow> bytecode_kind"
  bc_bytes :: "'bc \<Rightarrow> u8 list"
  bc_len :: "'bc \<Rightarrow> nat"
  bc_jump_table :: "'bc \<Rightarrow> 'jt option"
  bc_eip7702_address :: "'bc \<Rightarrow> address option"
  bc_new_analyzed :: "u8 list \<Rightarrow> nat \<Rightarrow> 'jt \<Rightarrow> 'bc"
  bc_new_eip7702 :: "address \<Rightarrow> 'bc"
  bc_new_raw :: "u8 list \<Rightarrow> 'bc"
  bc_is_empty :: "'bc \<Rightarrow> bool"
  bc_hash_slow :: "'bc \<Rightarrow> b256"
  bc_default :: 'bc
  account_is_empty :: "'bc revm_account \<Rightarrow> bool"
  changed_storage_slots :: "'bc revm_account \<Rightarrow> (u256 \<times> evm_slot) list"

datatype tx_kind = TxCall address | TxCreate

text \<open>The transaction environment; the type of a signed authorization is a parameter.\<close>

record 'au tx_env =
  te_tx_type :: u8
  te_caller :: address
  te_gas_limit :: u64
  te_gas_price :: u128
  te_gas_priority_fee :: "u128 option"
  te_kind :: tx_kind
  te_value :: u256
  te_data :: "u8 list"
  te_nonce :: u64
  te_chain_id :: "u64 option"
  te_access_list :: "(address \<times> b256 list) list"
  te_blob_hashes :: "b256 list"
  te_max_fee_per_blob_gas :: u128
  te_authorization_list :: "'au list"

abbreviation is_empty_code_hash :: "('bc, 'jt) revm_api \<Rightarrow> 'bc account_info \<Rightarrow> bool" where
  "is_empty_code_hash P info \<equiv> ai_code_hash info = keccak_empty P"

section \<open>Accounts and code\<close>

record 'jt legacy_code =
  lc_bytecode :: "u8 list"
  lc_original_len :: nat
  lc_jump_table :: 'jt

datatype 'jt evm_code =
    Legacy "'jt legacy_code"
  | Eip7702 address

record 'jt evm_account =
  acc_balance :: u256
  acc_nonce :: u64
  acc_code_hash :: "b256 option"
  acc_code :: "'jt evm_code option"
  acc_storage :: "(u256 \<times> u256) list"

fun bytecode_from :: "('bc, 'jt) revm_api \<Rightarrow> 'jt evm_code \<Rightarrow> 'bc" where
  "bytecode_from P (Legacy code) =
     bc_new_analyzed P (lc_bytecode code) (lc_original_len code) (lc_jump_table code)"
| "bytecode_from P (Eip7702 delegated) = bc_new_eip7702 P delegated"

text \<open>The two \<^verbatim>\<open>unwrap\<close>s panic (\<open>None\<close>) when the observer has no answer.\<close>

definition evm_code_from :: "('bc, 'jt) revm_api \<Rightarrow> 'bc \<Rightarrow> 'jt evm_code option" where
  "evm_code_from P code =
     (case bc_kind P code of
        LegacyAnalyzed \<Rightarrow>
          map_option (\<lambda>jt. Legacy \<lparr>lc_bytecode = bc_bytes P code, lc_original_len = bc_len P code,
                                   lc_jump_table = jt\<rparr>) (bc_jump_table P code)
      | Eip7702Kind \<Rightarrow> map_option Eip7702 (bc_eip7702_address P code))"

definition evm_account_from :: "('bc, 'jt) revm_api \<Rightarrow> 'bc revm_account \<Rightarrow> 'jt evm_account option" where
  "evm_account_from P account =
     (let info = ra_info account;
          has_code = \<not> is_empty_code_hash P info;
          code = (if has_code
                  then (case ai_code info of
                          None \<Rightarrow> None
                        | Some c \<Rightarrow> map_option Some (evm_code_from P c))
                  else Some None)
      in case code of
           None \<Rightarrow> None
         | Some c \<Rightarrow>
             Some \<lparr>acc_balance = ai_balance info, acc_nonce = ai_nonce info,
                   acc_code_hash = (if has_code then Some (ai_code_hash info) else None),
                   acc_code = c,
                   acc_storage = map (\<lambda>(k, v). (k, present_value v)) (ra_storage account)\<rparr>)"

section \<open>The storage trait\<close>

record 'jt storage_api =
  st_basic :: "address \<Rightarrow> string + account_basic option"
  st_code_hash :: "address \<Rightarrow> string + b256 option"
  st_code_by_hash :: "b256 \<Rightarrow> string + 'jt evm_code option"
  st_has_storage :: "address \<Rightarrow> string + bool"
  st_storage :: "address \<Rightarrow> u256 \<Rightarrow> string + u256"
  st_block_hash :: "u64 \<Rightarrow> string + b256"

text \<open>\<^verbatim>\<open>StorageWrapper\<close>: the storage as the database of the sequential executor.\<close>

definition basic_ref ::
  "('bc, 'jt) revm_api \<Rightarrow> 'jt storage_api \<Rightarrow> address \<Rightarrow> string + 'bc account_info option" where
  "basic_ref P S a =
     (case st_basic S a of
        Inl e \<Rightarrow> Inl e
      | Inr None \<Rightarrow> Inr None
      | Inr (Some basic) \<Rightarrow>
          (case st_code_hash S a of
             Inl e \<Rightarrow> Inl e
           | Inr code_hash \<Rightarrow>
               (case (case code_hash of
                        Some h \<Rightarrow> (case st_code_by_hash S h of
                                     Inl e \<Rightarrow> Inl e
                                   | Inr c \<Rightarrow> Inr (map_option (bytecode_from P) c))
                      | None \<Rightarrow> Inr None) of
                  Inl e \<Rightarrow> Inl e
                | Inr code \<Rightarrow>
                    Inr (Some \<lparr>ai_balance = ab_balance basic, ai_nonce = ab_nonce basic,
                               ai_code_hash = (case code_hash of Some h \<Rightarrow> h | None \<Rightarrow> keccak_empty P),
                               ai_code = code\<rparr>))))"

definition code_by_hash_ref :: "('bc, 'jt) revm_api \<Rightarrow> 'jt storage_api \<Rightarrow> b256 \<Rightarrow> string + 'bc" where
  "code_by_hash_ref P S h =
     (case st_code_by_hash S h of
        Inl e \<Rightarrow> Inl e
      | Inr c \<Rightarrow> Inr (case c of Some code \<Rightarrow> bytecode_from P code | None \<Rightarrow> bc_default P))"

definition storage_ref :: "'jt storage_api \<Rightarrow> address \<Rightarrow> u256 \<Rightarrow> string + u256" where
  "storage_ref S a i = st_storage S a i"

definition block_hash_ref :: "'jt storage_api \<Rightarrow> u64 \<Rightarrow> string + b256" where
  "block_hash_ref S n = st_block_hash S n"

section \<open>In-memory storage\<close>

record 'jt in_memory_storage =
  im_accounts :: "address \<rightharpoonup> 'jt evm_account"
  im_bytecodes :: "b256 \<rightharpoonup> 'jt evm_code"
  im_block_hashes :: "u64 \<rightharpoonup> b256"

definition in_memory_new ::
  "(address \<rightharpoonup> 'jt evm_account) \<Rightarrow> (b256 \<rightharpoonup> 'jt evm_code) \<Rightarrow> (u64 \<rightharpoonup> b256) \<Rightarrow> 'jt in_memory_storage" where
  "in_memory_new accounts bytecodes block_hashes =
     \<lparr>im_accounts = accounts, im_bytecodes = bytecodes, im_block_hashes = block_hashes\<rparr>"

fun decimal :: "nat \<Rightarrow> string" where
  "decimal n = (if n < 10 then [char_of (48 + n)] else decimal (n div 10) @ [char_of (48 + n mod 10)])"

declare decimal.simps [simp del]

definition im_basic :: "'jt in_memory_storage \<Rightarrow> address \<Rightarrow> string + account_basic option" where
  "im_basic s a =
     Inr (map_option (\<lambda>acc. \<lparr>ab_balance = acc_balance acc, ab_nonce = acc_nonce acc\<rparr>) (im_accounts s a))"

definition im_code_hash :: "'jt in_memory_storage \<Rightarrow> address \<Rightarrow> string + b256 option" where
  "im_code_hash s a = Inr (Option.bind (im_accounts s a) acc_code_hash)"

definition im_code_by_hash :: "'jt in_memory_storage \<Rightarrow> b256 \<Rightarrow> string + 'jt evm_code option" where
  "im_code_by_hash s h = Inr (im_bytecodes s h)"

definition im_has_storage :: "'jt in_memory_storage \<Rightarrow> address \<Rightarrow> string + bool" where
  "im_has_storage s a = Inr (case im_accounts s a of Some acc \<Rightarrow> acc_storage acc \<noteq> [] | None \<Rightarrow> False)"

definition im_storage :: "'jt in_memory_storage \<Rightarrow> address \<Rightarrow> u256 \<Rightarrow> string + u256" where
  "im_storage s a i =
     Inr (case Option.bind (im_accounts s a) (\<lambda>acc. map_of (acc_storage acc) i) of Some v \<Rightarrow> v | None \<Rightarrow> 0)"

definition im_block_hash :: "('bc, 'jt) revm_api \<Rightarrow> 'jt in_memory_storage \<Rightarrow> u64 \<Rightarrow> string + b256" where
  "im_block_hash P s n =
     Inr (case im_block_hashes s n of Some h \<Rightarrow> h | None \<Rightarrow> keccak256 P (decimal (unat n)))"

definition in_memory_api :: "('bc, 'jt) revm_api \<Rightarrow> 'jt in_memory_storage \<Rightarrow> 'jt storage_api" where
  "in_memory_api P s =
     \<lparr>st_basic = im_basic s, st_code_hash = im_code_hash s, st_code_by_hash = im_code_by_hash s,
      st_has_storage = im_has_storage s, st_storage = im_storage s, st_block_hash = im_block_hash P s\<rparr>"

section \<open>The contract of a storage\<close>

text \<open>
  What the executors rely on: an account that is absent has no code and no storage, and an account
  without storage answers zero for every slot.
\<close>

locale chain_storage =
  fixes S :: "'jt storage_api"
  assumes absent_code: "st_basic S a = Inr None \<Longrightarrow> st_code_hash S a = Inr None"
    and absent_storage: "st_basic S a = Inr None \<Longrightarrow> st_storage S a i = Inr 0 \<and> st_has_storage S a = Inr False"
    and no_storage: "st_has_storage S a = Inr False \<Longrightarrow> st_storage S a i = Inr v \<Longrightarrow> v = 0"
begin

text \<open>An account the wrapper does not find has neither code nor storage.\<close>

lemma basic_ref_absent:
  "basic_ref P S a = Inr None \<Longrightarrow>
   st_code_hash S a = Inr None \<and> storage_ref S a i = Inr 0 \<and> st_has_storage S a = Inr False"
  using absent_code absent_storage
  by (auto simp: basic_ref_def storage_ref_def split: sum.splits option.splits)

lemma nonzero_storage_is_visible:
  "storage_ref S a i = Inr v \<Longrightarrow> v \<noteq> 0 \<Longrightarrow>
   st_has_storage S a \<noteq> Inr False \<and> basic_ref P S a \<noteq> Inr None"
  using no_storage basic_ref_absent by (fastforce simp: storage_ref_def)

end

interpretation in_memory: chain_storage "in_memory_api P s" for P s
  by unfold_locales
    (auto simp: in_memory_api_def im_basic_def im_code_hash_def im_storage_def im_has_storage_def
      split: option.splits)

section \<open>Properties\<close>

text \<open>
  What the EVM package documents of its bytecodes: an analyzed legacy bytecode has a jump table and is
  rebuilt by \<^verbatim>\<open>new_analyzed\<close> with the same observations, a delegation has an address and is rebuilt
  by \<^verbatim>\<open>new_eip7702\<close>, and bytecodes with equal observations are equal.
\<close>

definition bytecode_view ::
  "('bc, 'jt) revm_api \<Rightarrow> 'bc \<Rightarrow> bytecode_kind \<times> u8 list \<times> nat \<times> 'jt option \<times> address option" where
  "bytecode_view P c = (bc_kind P c, bc_bytes P c, bc_len P c, bc_jump_table P c, bc_eip7702_address P c)"

definition bytecode_laws :: "('bc, 'jt) revm_api \<Rightarrow> bool" where
  "bytecode_laws P \<longleftrightarrow>
     (\<forall>c. bc_kind P c = LegacyAnalyzed \<longrightarrow>
        (\<exists>jt. bc_jump_table P c = Some jt \<and>
           bytecode_view P (bc_new_analyzed P (bc_bytes P c) (bc_len P c) jt) = bytecode_view P c)) \<and>
     (\<forall>c. bc_kind P c = Eip7702Kind \<longrightarrow>
        (\<exists>a. bc_eip7702_address P c = Some a \<and> bytecode_view P (bc_new_eip7702 P a) = bytecode_view P c)) \<and>
     (\<forall>c d. bytecode_view P c = bytecode_view P d \<longrightarrow> c = d)"

text \<open>
  Converting a bytecode of the EVM package to \<^verbatim>\<open>EvmCode\<close> never panics, and converting it back gives
  the same bytecode.
\<close>

theorem evm_code_roundtrip:
  assumes "bytecode_laws P"
  shows "\<exists>e. evm_code_from P c = Some e \<and> bytecode_from P e = c"
proof (cases "bc_kind P c")
  case LegacyAnalyzed
  with assms obtain jt where jt: "bc_jump_table P c = Some jt"
    "bytecode_view P (bc_new_analyzed P (bc_bytes P c) (bc_len P c) jt) = bytecode_view P c"
    unfolding bytecode_laws_def by blast
  with assms have "bc_new_analyzed P (bc_bytes P c) (bc_len P c) jt = c"
    unfolding bytecode_laws_def by blast
  with LegacyAnalyzed jt show ?thesis by (simp add: evm_code_from_def)
next
  case Eip7702Kind
  with assms obtain a where a: "bc_eip7702_address P c = Some a"
    "bytecode_view P (bc_new_eip7702 P a) = bytecode_view P c"
    unfolding bytecode_laws_def by blast
  with assms have "bc_new_eip7702 P a = c"
    unfolding bytecode_laws_def by blast
  with Eip7702Kind a show ?thesis by (simp add: evm_code_from_def)
qed

text \<open>A concrete bytecode type: analyzed code with a jump table of bits, or a delegation.\<close>

type_synonym sample_code = "(u8 list \<times> nat \<times> bool list) + address"

definition sample_api :: "(sample_code, bool list) revm_api" where
  "sample_api =
     \<lparr>hash_deterministic = (\<lambda>l. case l of
          LocBasic a \<Rightarrow> 4 * ucast a
        | LocCodeHash a \<Rightarrow> 4 * ucast a + 1
        | LocStorage a i \<Rightarrow> 4 * (ucast a * 65536 + ucast i) + 2),
      keccak_empty = 77, keccak256 = (\<lambda>s. of_nat (length s)),
      bc_kind = (\<lambda>c. case c of Inl _ \<Rightarrow> LegacyAnalyzed | Inr _ \<Rightarrow> Eip7702Kind),
      bc_bytes = (\<lambda>c. case c of Inl (b, _, _) \<Rightarrow> b | Inr _ \<Rightarrow> []),
      bc_len = (\<lambda>c. case c of Inl (_, n, _) \<Rightarrow> n | Inr _ \<Rightarrow> 23),
      bc_jump_table = (\<lambda>c. case c of Inl (_, _, j) \<Rightarrow> Some j | Inr _ \<Rightarrow> None),
      bc_eip7702_address = (\<lambda>c. case c of Inl _ \<Rightarrow> None | Inr a \<Rightarrow> Some a),
      bc_new_analyzed = (\<lambda>b n j. Inl (b, n, j)), bc_new_eip7702 = Inr,
      bc_new_raw = (\<lambda>b. Inl (b, length b, [])), bc_is_empty = (\<lambda>c. c = Inl ([], 0, [])),
      bc_hash_slow = (\<lambda>c. case c of Inl (b, _, _) \<Rightarrow> of_nat (length b) | Inr a \<Rightarrow> ucast a),
      bc_default = Inl ([], 0, []),
      account_is_empty = (\<lambda>a. ai_balance (ra_info a) = 0 \<and> ai_nonce (ra_info a) = 0 \<and> ai_code_hash (ra_info a) = 77),
      changed_storage_slots = (\<lambda>a. filter (\<lambda>(_, v). original_value v \<noteq> present_value v) (ra_storage a))\<rparr>"

lemma sample_api_laws: "bytecode_laws sample_api"
proof -
  have "c = d" if "bytecode_view sample_api c = bytecode_view sample_api d" for c d
    using that by (cases c; cases d) (auto simp: bytecode_view_def sample_api_def)
  moreover have "\<exists>jt. bc_jump_table sample_api c = Some jt \<and>
      bytecode_view sample_api (bc_new_analyzed sample_api (bc_bytes sample_api c) (bc_len sample_api c) jt) =
      bytecode_view sample_api c" if "bc_kind sample_api c = LegacyAnalyzed" for c
    using that by (cases c) (auto simp: bytecode_view_def sample_api_def)
  moreover have "\<exists>a. bc_eip7702_address sample_api c = Some a \<and>
      bytecode_view sample_api (bc_new_eip7702 sample_api a) = bytecode_view sample_api c"
    if "bc_kind sample_api c = Eip7702Kind" for c
    using that by (cases c) (auto simp: bytecode_view_def sample_api_def)
  ultimately show ?thesis
    unfolding bytecode_laws_def by blast
qed

theorem evm_code_roundtrip_witness:
  "\<exists>e. evm_code_from sample_api (Inl ([96, 0], 2, [False, False])) = Some e \<and>
       bytecode_from sample_api e = Inl ([96, 0], 2, [False, False])"
  by (rule evm_code_roundtrip [OF sample_api_laws])

text \<open>
  The database the sequential executor sees over the in-memory storage: an account exactly when the
  storage has one, with its balance and nonce, its code hash or the hash of empty code, and the code
  stored under that hash; never an error.
\<close>

lemma in_memory_database:
  "basic_ref P (in_memory_api P s) a =
     Inr (map_option
       (\<lambda>acc. \<lparr>ai_balance = acc_balance acc, ai_nonce = acc_nonce acc,
              ai_code_hash = (case acc_code_hash acc of Some h \<Rightarrow> h | None \<Rightarrow> keccak_empty P),
              ai_code = map_option (bytecode_from P) (Option.bind (acc_code_hash acc) (im_bytecodes s))\<rparr>)
       (im_accounts s a)) \<and>
   (\<exists>v. storage_ref (in_memory_api P s) a i = Inr v \<and>
      (v = 0 \<or> st_has_storage (in_memory_api P s) a = Inr True))"
proof -
  obtain v where v: "storage_ref (in_memory_api P s) a i = Inr v"
    by (simp add: storage_ref_def in_memory_api_def im_storage_def)
  obtain b where "st_has_storage (in_memory_api P s) a = Inr b"
    by (simp add: in_memory_api_def im_has_storage_def)
  with in_memory.nonzero_storage_is_visible [OF v] v
  have "\<exists>v. storage_ref (in_memory_api P s) a i = Inr v \<and> (v = 0 \<or> st_has_storage (in_memory_api P s) a = Inr True)"
    by (cases b) auto
  moreover have "basic_ref P (in_memory_api P s) a =
     Inr (map_option
       (\<lambda>acc. \<lparr>ai_balance = acc_balance acc, ai_nonce = acc_nonce acc,
              ai_code_hash = (case acc_code_hash acc of Some h \<Rightarrow> h | None \<Rightarrow> keccak_empty P),
              ai_code = map_option (bytecode_from P) (Option.bind (acc_code_hash acc) (im_bytecodes s))\<rparr>)
       (im_accounts s a))"
    by (auto simp: basic_ref_def in_memory_api_def im_basic_def im_code_hash_def im_code_by_hash_def
        split: option.splits)
  ultimately show ?thesis by blast
qed

end
