(* ===== verification/Vm_Db.thy ===== *)
theory Vm_Db
  imports Mv_Memory Storage
begin

text \<open>
  \<^verbatim>\<open>VmDb\<close> of \<^verbatim>\<open>crates/pevm/src/vm.rs\<close>: the database one transaction execution reads through. It answers
  from the multi-version memory or the storage and records where each location was read from. Every
  access to the shared memory takes the memory it sees as an argument: the account read and the code
  reads of \<^verbatim>\<open>basic\<close> are separate accesses, between which other workers may change the memory.
\<close>

section \<open>Errors\<close>

datatype read_error =
    StorageError string
  | Blocking tx_idx
  | InconsistentRead
  | InvalidNonce tx_idx
  | SelfDestructedAccount
  | InvalidMemoryValueType

section \<open>State\<close>

type_synonym read_accounts = "(location_hash \<times> (account_basic \<times> b256 option)) list"

record 'au vmdb =
  db_tx_idx :: tx_idx
  db_tx :: "'au tx_env"
  db_from_hash :: location_hash
  db_to_hash :: "location_hash option"
  db_to_code_hash :: "b256 option"
  db_is_lazy :: bool
  db_has_nonce :: bool
  db_read_set :: read_set
  db_read_accounts :: read_accounts

definition read_origins_of :: "read_set \<Rightarrow> location_hash \<Rightarrow> read_origins" where
  "read_origins_of rs h = (case map_of rs h of Some os \<Rightarrow> os | None \<Rightarrow> [])"

definition hash_basic :: "('bc, 'jt) revm_api \<Rightarrow> 'au vmdb \<Rightarrow> address \<Rightarrow> location_hash" where
  "hash_basic P db a =
     (if a = te_caller (db_tx db) then db_from_hash db
      else if te_kind (db_tx db) = TxCall a then the (db_to_hash db)
      else hash_deterministic P (LocBasic a))"

fun push_origin :: "read_origins \<Rightarrow> read_origin \<Rightarrow> read_error + read_origins" where
  "push_origin [] ro = Inr [ro]"
| "push_origin os ro = (if last os \<noteq> ro then Inl InconsistentRead else Inr os)"

text \<open>The closest lower entry of a location, \<^verbatim>\<open>data.get(h)\<close> and \<^verbatim>\<open>range(..tx_idx).next_back()\<close>.\<close>

definition closest :: "'bc mv_memory \<Rightarrow> location_hash \<Rightarrow> tx_idx \<Rightarrow> (tx_idx \<times> memory_entry) option" where
  "closest mv h i = (case mv_data mv h of Some t \<Rightarrow> next_back t i | None \<Rightarrow> None)"

text \<open>Push one origin for a location and, when it is consistent, answer.\<close>

definition read_from ::
  "'au vmdb \<Rightarrow> location_hash \<Rightarrow> read_origin \<Rightarrow> (read_error + 'a) \<Rightarrow> (read_error + 'a) \<times> 'au vmdb" where
  "read_from db h ro ans =
     (case push_origin (read_origins_of (db_read_set db) h) ro of
        Inl e \<Rightarrow> (Inl e, db)
      | Inr os \<Rightarrow> (ans, db\<lparr>db_read_set := AList.update h os (db_read_set db)\<rparr>))"

text \<open>\<^verbatim>\<open>read_set.entry(h).or_default()\<close>: the entry exists from here on, even if the read fails.\<close>

definition touch :: "'au vmdb \<Rightarrow> location_hash \<Rightarrow> 'au vmdb" where
  "touch db h = db\<lparr>db_read_set := AList.update h (read_origins_of (db_read_set db) h) (db_read_set db)\<rparr>"

definition storage_result :: "string + 'a \<Rightarrow> read_error + 'a" where
  "storage_result r = (case r of Inl e \<Rightarrow> Inl (StorageError e) | Inr x \<Rightarrow> Inr x)"

definition get_code_hash ::
  "('bc, 'jt) revm_api \<Rightarrow> 'jt storage_api \<Rightarrow> 'bc mv_memory \<Rightarrow> 'au vmdb \<Rightarrow> address \<Rightarrow>
   (read_error + b256 option) \<times> 'au vmdb" where
  "get_code_hash P S mv db a =
     (let h = hash_deterministic P (LocCodeHash a);
          db1 = touch db h
      in case closest mv h (db_tx_idx db) of
           Some (k, Data inc SelfDestructed) \<Rightarrow> (Inl SelfDestructedAccount, db1)
         | Some (k, Data inc (ValCodeHash c)) \<Rightarrow>
             read_from db1 h (MvMemory \<lparr>tx_idx = k, tx_incarnation = inc\<rparr>) (Inr (Some c))
         | _ \<Rightarrow> read_from db1 h StorageOrigin (storage_result (st_code_hash S a)))"

definition set_tx ::
  "('bc, 'jt) revm_api \<Rightarrow> 'jt storage_api \<Rightarrow> 'bc mv_memory \<Rightarrow> 'au vmdb \<Rightarrow> tx_idx \<Rightarrow> 'au tx_env \<Rightarrow>
   location_hash \<Rightarrow> location_hash option \<Rightarrow> bool \<Rightarrow> (read_error + unit) \<times> 'au vmdb" where
  "set_tx P S mv db i tx from_hash to_hash has_nonce =
     (let db1 = db\<lparr>db_tx_idx := i, db_tx := tx, db_from_hash := from_hash, db_to_hash := to_hash,
                   db_to_code_hash := None, db_is_lazy := False, db_has_nonce := has_nonce,
                   db_read_set := [], db_read_accounts := []\<rparr>
      in case te_kind tx of
           TxCreate \<Rightarrow> (Inr (), db1)
         | TxCall a \<Rightarrow>
             (case get_code_hash P S mv db1 a of
                (Inl e, db2) \<Rightarrow> (Inl e, db2)
              | (Inr code_hash, db2) \<Rightarrow>
                  (Inr (), db2\<lparr>db_to_code_hash := code_hash,
                               db_is_lazy := code_hash = None \<and>
                                 (mv_data mv from_hash \<noteq> None \<or> mv_data mv (the to_hash) \<noteq> None)\<rparr>)))"

section \<open>Reading an account\<close>

text \<open>
  The accumulator of the backward evaluation of lazy updates: the origins met so far, the sum of
  the additions and subtractions with its sign, and the number of lazy sends.
\<close>

record lazy_acc =
  la_origins :: read_origins
  la_addition :: u256
  la_positive :: bool
  la_nonce :: u64

definition lazy_acc_init :: lazy_acc where
  "lazy_acc_init = \<lparr>la_origins = [], la_addition = 0, la_positive = True, la_nonce = 0\<rparr>"

definition lazy_add :: "u256 \<Rightarrow> lazy_acc \<Rightarrow> lazy_acc" where
  "lazy_add x acc =
     (if la_positive acc then acc\<lparr>la_addition := saturating_add (la_addition acc) x\<rparr>
      else acc\<lparr>la_positive := la_addition acc \<le> x, la_addition := abs_diff (la_addition acc) x\<rparr>)"

definition lazy_sub :: "u256 \<Rightarrow> lazy_acc \<Rightarrow> lazy_acc" where
  "lazy_sub x acc =
     (let acc1 = (if la_positive acc
                  then acc\<lparr>la_positive := x \<le> la_addition acc, la_addition := abs_diff (la_addition acc) x\<rparr>
                  else acc\<lparr>la_addition := saturating_add (la_addition acc) x\<rparr>)
      in acc1\<lparr>la_nonce := la_nonce acc1 + 1\<rparr>)"

text \<open>Lines 280--336, from the closest lower entry down to an absolute value or the end.\<close>

function read_back ::
  "mv_tree \<Rightarrow> nat \<Rightarrow> read_origins \<Rightarrow> lazy_acc \<Rightarrow> read_error + account_basic option \<times> lazy_acc" where
  "read_back t i prev acc =
     (case next_back t i of
        None \<Rightarrow> Inr (None, acc)
      | Some (k, Estimate) \<Rightarrow> Inl (Blocking k)
      | Some (k, Data inc v) \<Rightarrow>
          (let ro = MvMemory \<lparr>tx_idx = k, tx_incarnation = inc\<rparr>;
               acc1 = acc\<lparr>la_origins := la_origins acc @ [ro]\<rparr>
           in if prev \<noteq> [] \<and> length prev = length (la_origins acc) then Inl InconsistentRead
              else if prev \<noteq> [] \<and> prev ! length (la_origins acc) \<noteq> ro then Inl InconsistentRead
              else (case v of
                      ValBasic b \<Rightarrow> Inr (Some b, acc1)
                    | LazyRecipient x \<Rightarrow> read_back t k prev (lazy_add x acc1)
                    | LazySender x \<Rightarrow> read_back t k prev (lazy_sub x acc1)
                    | _ \<Rightarrow> Inl InvalidMemoryValueType)))"
  by pat_completeness auto
termination by (relation "measure (\<lambda>(_, i, _, _). i)") (auto dest: next_back_less)

declare read_back.simps [simp del]

text \<open>Lines 273--337: the multi-version part of the read.\<close>

definition read_versions ::
  "'bc mv_memory \<Rightarrow> location_hash \<Rightarrow> tx_idx \<Rightarrow> read_origins \<Rightarrow> read_error + account_basic option \<times> lazy_acc" where
  "read_versions mv h i prev =
     (case mv_data mv h of
        Some t \<Rightarrow> if i > 0 then read_back t i prev lazy_acc_init else Inr (None, lazy_acc_init)
      | None \<Rightarrow> Inr (None, lazy_acc_init))"

text \<open>Lines 339--357: fall back to the storage when no absolute value was found.\<close>

definition read_fallback ::
  "'jt storage_api \<Rightarrow> address \<Rightarrow> read_origins \<Rightarrow> account_basic option \<times> lazy_acc \<Rightarrow>
   read_error + account_basic option \<times> read_origins" where
  "read_fallback S a prev = (\<lambda>(found, acc).
     case found of
       Some b \<Rightarrow> Inr (Some b, la_origins acc)
     | None \<Rightarrow>
         if prev \<noteq> [] \<and> (length prev \<noteq> length (la_origins acc) + 1 \<or> last prev \<noteq> StorageOrigin)
         then Inl InconsistentRead
         else (case st_basic S a of
                 Inl e \<Rightarrow> Inl (StorageError e)
               | Inr (Some b) \<Rightarrow> Inr (Some b, la_origins acc @ [StorageOrigin])
               | Inr None \<Rightarrow>
                   Inr (if la_addition acc > 0 then Some account_basic_default else None,
                        la_origins acc @ [StorageOrigin])))"

definition evaluate_balance :: "lazy_acc \<Rightarrow> u256 \<Rightarrow> u256" where
  "evaluate_balance acc b =
     (if la_positive acc then saturating_add b (la_addition acc) else saturating_sub b (la_addition acc))"

text \<open>Lines 386--402: the code hash and the code of the account.\<close>

definition read_code ::
  "('bc, 'jt) revm_api \<Rightarrow> 'jt storage_api \<Rightarrow> 'bc mv_memory \<Rightarrow> b256 option \<Rightarrow> read_error + 'bc option" where
  "read_code P S mv code_hash =
     (case code_hash of
        None \<Rightarrow> Inr None
      | Some h \<Rightarrow>
          (case new_bytecodes mv h of
             Some code \<Rightarrow> Inr (Some code)
           | None \<Rightarrow>
               (case st_code_by_hash S h of
                  Inl e \<Rightarrow> Inl (StorageError e)
                | Inr code \<Rightarrow> Inr (map_option (bytecode_from P) code))))"

definition finish_basic ::
  "('bc, 'jt) revm_api \<Rightarrow> 'jt storage_api \<Rightarrow> 'bc mv_memory \<Rightarrow> 'au vmdb \<Rightarrow> address \<Rightarrow> location_hash \<Rightarrow>
   account_basic \<Rightarrow> (read_error + 'bc account_info option) \<times> 'au vmdb" where
  "finish_basic P S mv db a h account =
     (case (if Some h = db_to_hash db then (Inr (db_to_code_hash db), db) else get_code_hash P S mv db a) of
        (Inl e, db1) \<Rightarrow> (Inl e, db1)
      | (Inr code_hash, db1) \<Rightarrow>
          (case read_code P S mv code_hash of
             Inl e \<Rightarrow> (Inl e, db1)
           | Inr code \<Rightarrow>
               (Inr (Some \<lparr>ai_balance = ab_balance account, ai_nonce = ab_nonce account,
                           ai_code_hash = (case code_hash of Some c \<Rightarrow> c | None \<Rightarrow> keccak_empty P),
                           ai_code = code\<rparr>),
                db1\<lparr>db_read_accounts := AList.update h (account, code_hash) (db_read_accounts db1)\<rparr>)))"

text \<open>Lines 365--415: check the sender's nonce and evaluate the account.\<close>

definition settle_basic ::
  "('bc, 'jt) revm_api \<Rightarrow> 'jt storage_api \<Rightarrow> 'bc mv_memory \<Rightarrow> 'au vmdb \<Rightarrow> address \<Rightarrow> location_hash \<Rightarrow>
   lazy_acc \<Rightarrow> account_basic option \<Rightarrow> (read_error + 'bc account_info option) \<times> 'au vmdb" where
  "settle_basic P S mv db a h acc final =
     (case final of
        None \<Rightarrow> (Inr None, db)
      | Some b \<Rightarrow>
          (let nonce = ab_nonce b + la_nonce acc
           in if db_has_nonce db \<and> h = db_from_hash db \<and> te_nonce (db_tx db) \<noteq> nonce then
                (Inl (if db_tx_idx db > 0 then Blocking (db_tx_idx db - 1) else InvalidNonce (db_tx_idx db)), db)
              else finish_basic P S mv db a h
                     \<lparr>ab_balance = evaluate_balance acc (ab_balance b), ab_nonce = nonce\<rparr>))"

text \<open>Lines 260--415, the read of an account that is not mocked.\<close>

definition db_basic_read ::
  "('bc, 'jt) revm_api \<Rightarrow> 'jt storage_api \<Rightarrow> 'bc mv_memory \<Rightarrow> 'bc mv_memory \<Rightarrow> 'au vmdb \<Rightarrow> address \<Rightarrow>
   location_hash \<Rightarrow> (read_error + 'bc account_info option) \<times> 'au vmdb" where
  "db_basic_read P S mv mv_code db a h =
     (let db1 = touch db h;
          prev = read_origins_of (db_read_set db) h
      in case read_versions mv h (db_tx_idx db) prev of
           Inl e \<Rightarrow> (Inl e, db1)
         | Inr (found, acc) \<Rightarrow>
             (case read_fallback S a prev (found, acc) of
                Inl e \<Rightarrow> (Inl e, db1)
              | Inr (final, origins) \<Rightarrow>
                  settle_basic P S mv_code
                    (if prev = [] then db1\<lparr>db_read_set := AList.update h origins (db_read_set db1)\<rparr> else db1)
                    a h acc final))"

text \<open>
  \<^verbatim>\<open>Database::basic\<close>. The first memory is the one the account is read from, the second the one its
  code is read from. The sender and the recipient of a lazy transaction are mocked.
\<close>

definition db_basic ::
  "('bc, 'jt) revm_api \<Rightarrow> 'jt storage_api \<Rightarrow> 'bc mv_memory \<Rightarrow> 'bc mv_memory \<Rightarrow> 'au vmdb \<Rightarrow> address \<Rightarrow>
   (read_error + 'bc account_info option) \<times> 'au vmdb" where
  "db_basic P S mv mv_code db a =
     (let h = hash_basic P db a
      in if db_is_lazy db \<and> h = db_from_hash db then
           (Inr (Some \<lparr>ai_balance = - 1, ai_nonce = te_nonce (db_tx db),
                       ai_code_hash = keccak_empty P, ai_code = None\<rparr>), db)
         else if db_is_lazy db \<and> Some h = db_to_hash db then (Inr None, db)
         else db_basic_read P S mv mv_code db a h)"

section \<open>The other queries\<close>

definition db_code_by_hash ::
  "('bc, 'jt) revm_api \<Rightarrow> 'jt storage_api \<Rightarrow> 'au vmdb \<Rightarrow> b256 \<Rightarrow> (read_error + 'bc) \<times> 'au vmdb" where
  "db_code_by_hash P S db h =
     (case st_code_by_hash S h of
        Inl e \<Rightarrow> (Inl (StorageError e), db)
      | Inr (Some code) \<Rightarrow> (Inr (bytecode_from P code), db)
      | Inr None \<Rightarrow> (Inr (bc_default P), db))"

definition db_storage ::
  "('bc, 'jt) revm_api \<Rightarrow> 'jt storage_api \<Rightarrow> 'bc mv_memory \<Rightarrow> 'au vmdb \<Rightarrow> address \<Rightarrow> u256 \<Rightarrow>
   (read_error + u256) \<times> 'au vmdb" where
  "db_storage P S mv db a i =
     (let h = hash_deterministic P (LocStorage a i);
          db1 = touch db h
      in case (if db_tx_idx db > 0 then closest mv h (db_tx_idx db) else None) of
           Some (k, Data inc (ValStorage v)) \<Rightarrow>
             read_from db1 h (MvMemory \<lparr>tx_idx = k, tx_incarnation = inc\<rparr>) (Inr v)
         | Some (k, Estimate) \<Rightarrow> (Inl (Blocking k), db1)
         | Some (k, Data inc _) \<Rightarrow> (Inl InvalidMemoryValueType, db1)
         | None \<Rightarrow> read_from db1 h StorageOrigin (storage_result (st_storage S a i)))"

definition db_block_hash :: "'jt storage_api \<Rightarrow> 'au vmdb \<Rightarrow> u64 \<Rightarrow> (read_error + b256) \<times> 'au vmdb" where
  "db_block_hash S db n = (storage_result (st_block_hash S n), db)"

section \<open>Lazy updates evaluated backwards\<close>

text \<open>
  The reference: the updates applied in the order of the transactions, as the final evaluation in
  \<^verbatim>\<open>pevm.rs\<close> does (lines 318--354).
\<close>

fun apply_update :: "memory_entry \<Rightarrow> account_basic \<Rightarrow> account_basic" where
  "apply_update (Data inc (ValBasic b)) acc = b"
| "apply_update (Data inc (LazyRecipient x)) acc =
     \<lparr>ab_balance = saturating_add (ab_balance acc) x, ab_nonce = ab_nonce acc\<rparr>"
| "apply_update (Data inc (LazySender x)) acc =
     \<lparr>ab_balance = saturating_sub (ab_balance acc) x, ab_nonce = ab_nonce acc + 1\<rparr>"
| "apply_update e acc = acc"

definition forward :: "mv_tree \<Rightarrow> nat \<Rightarrow> account_basic \<Rightarrow> account_basic" where
  "forward t i b = foldl (\<lambda>acc (k, e). apply_update e acc) b (entries_below i t)"

text \<open>An update is exact when it neither over- nor underflows, and is an account update.\<close>

fun update_exact :: "memory_entry \<Rightarrow> account_basic \<Rightarrow> bool" where
  "update_exact (Data inc (ValBasic b)) acc = True"
| "update_exact (Data inc (LazyRecipient x)) acc = (uint (ab_balance acc) + uint x < 2 ^ 256)"
| "update_exact (Data inc (LazySender x)) acc = (x \<le> ab_balance acc)"
| "update_exact e acc = False"

fun updates_exact :: "account_basic \<Rightarrow> (nat \<times> memory_entry) list \<Rightarrow> bool" where
  "updates_exact b [] = True"
| "updates_exact b ((k, e) # xs) = (update_exact e b \<and> updates_exact (apply_update e b) xs)"

lemma updates_exact_append:
  "updates_exact b (xs @ [(k, e)]) \<longleftrightarrow>
     updates_exact b xs \<and> update_exact e (foldl (\<lambda>acc (k, e). apply_update e acc) b xs)"
proof (induction xs arbitrary: b)
  case (Cons x xs)
  then show ?case by (cases x) simp
qed simp

lemma entries_below_step:
  assumes "next_back t i = Some (k, e)"
  shows "entries_below i t = entries_below k t @ [(k, e)]"
  using assms
proof (induction i)
  case (Suc i)
  show ?case
  proof (cases "t i")
    case None
    with Suc show ?thesis by simp
  next
    case (Some v)
    with Suc.prems show ?thesis by simp
  qed
qed simp

lemma entries_below_none: "next_back t i = None \<Longrightarrow> entries_below i t = []"
  by (induction i) (auto split: option.splits)

lemma forward_step:
  "next_back t i = Some (k, e) \<Longrightarrow> forward t i b = apply_update e (forward t k b)"
  by (simp add: forward_def entries_below_step)

lemma forward_none: "next_back t i = None \<Longrightarrow> forward t i b = b"
  by (simp add: forward_def entries_below_none)

lemma exact_step:
  "next_back t i = Some (k, e) \<Longrightarrow> updates_exact b (entries_below i t) \<Longrightarrow>
   updates_exact b (entries_below k t) \<and> update_exact e (forward t k b)"
  by (simp add: entries_below_step updates_exact_append forward_def)

text \<open>The signed sum an accumulator stands for.\<close>

definition lazy_value :: "lazy_acc \<Rightarrow> int" where
  "lazy_value acc = (if la_positive acc then uint (la_addition acc) else - uint (la_addition acc))"

lemma uint_sat_add:
  fixes a b :: "'a::len word"
  assumes "uint a + uint b < 2 ^ LENGTH('a)"
  shows "uint (saturating_add a b) = uint a + uint b"
proof -
  have "int (unat a + unat b) < int (2 ^ LENGTH('a))" using assms by simp
  then have "unat a + unat b < 2 ^ LENGTH('a)" by (simp only: of_nat_less_iff)
  with assms show ?thesis
    by (simp add: saturating_add_def uint_word_ariths)
qed

lemma uint_sat_sub: "b \<le> a \<Longrightarrow> uint (saturating_sub a (b :: 'a::len word)) = uint a - uint b"
  using uint_sub_lem [of b a] by (auto simp: saturating_sub_def word_le_def word_less_def)

lemma uint_abs_diff: "uint (abs_diff a (b :: 'a::len word)) = \<bar>uint a - uint b\<bar>"
  using uint_sub_lem [of a b] uint_sub_lem [of b a] by (auto simp: abs_diff_def word_less_def)

lemma lazy_value_add:
  assumes "lazy_value acc + uint x < 2 ^ 256"
  shows "lazy_value (lazy_add x acc) = lazy_value acc + uint x"
  using assms by (auto simp: lazy_value_def lazy_add_def uint_sat_add uint_abs_diff word_le_def)

lemma lazy_value_sub:
  assumes "- (2 ^ 256) < lazy_value acc - uint x"
  shows "lazy_value (lazy_sub x acc) = lazy_value acc - uint x"
  using assms by (auto simp: lazy_value_def lazy_sub_def Let_def uint_sat_add uint_abs_diff word_le_def)

lemma lazy_sel [simp]:
  "la_origins (lazy_add x acc) = la_origins acc" "la_origins (lazy_sub x acc) = la_origins acc"
  "la_nonce (lazy_add x acc) = la_nonce acc" "la_nonce (lazy_sub x acc) = la_nonce acc + 1"
  by (simp_all add: lazy_add_def lazy_sub_def Let_def)

lemma lazy_value_origins [simp]: "lazy_value (acc\<lparr>la_origins := os\<rparr>) = lazy_value acc"
  by (simp add: lazy_value_def)

lemma evaluate_balance_exact:
  assumes "lazy_value acc = f - uint b" "0 \<le> f" "f < 2 ^ 256"
  shows "uint (evaluate_balance acc b) = f"
proof (cases "la_positive acc")
  case True
  with assms show ?thesis
    by (simp add: evaluate_balance_def lazy_value_def uint_sat_add)
next
  case False
  with assms have "la_addition acc \<le> b" by (simp add: lazy_value_def word_le_def)
  with False assms show ?thesis
    by (simp add: evaluate_balance_def lazy_value_def uint_sat_sub)
qed

lemma read_back_forward:
  assumes "read_back t i [] acc = Inr (found, acc')"
    and "updates_exact b (entries_below i t)"
    and "lazy_value acc = f - uint (ab_balance (forward t i b))" "0 \<le> f" "f < 2 ^ 256"
  shows "uint (evaluate_balance acc' (ab_balance (case found of Some x \<Rightarrow> x | None \<Rightarrow> b))) = f \<and>
    ab_nonce (case found of Some x \<Rightarrow> x | None \<Rightarrow> b) + la_nonce acc' = ab_nonce (forward t i b) + la_nonce acc"
  using assms
proof (induction t i "[] :: read_origins" acc arbitrary: found acc' rule: read_back.induct)
  case (1 t i acc)
  show ?case
  proof (cases "next_back t i")
    case None
    with 1(3) have "found = None" "acc' = acc" by (simp_all add: read_back.simps)
    with 1(5-) forward_none [OF None] show ?thesis by (simp add: evaluate_balance_exact)
  next
    case (Some p)
    obtain k e where p: "p = (k, e)" by (cases p)
    note nb = Some [unfolded p]
    note ex = exact_step [OF nb 1(4)] and fw = forward_step [OF nb, of b]
    let ?ro = "\<lambda>inc. MvMemory \<lparr>tx_idx = k, tx_incarnation = inc\<rparr>"
    let ?acc = "\<lambda>inc. acc\<lparr>la_origins := la_origins acc @ [?ro inc]\<rparr>"
    show ?thesis
    proof (cases e)
      case Estimate
      with ex show ?thesis by simp
    next
      case (Data inc v)
      show ?thesis
      proof (cases v)
        case (ValBasic x)
        with 1(3) nb Data have "found = Some x" "acc' = ?acc inc"
          by (simp_all add: read_back.simps)
        with 1(5-) fw Data ValBasic show ?thesis
          using evaluate_balance_exact [of "?acc inc" f "ab_balance x"] by simp
      next
        case (LazyRecipient x)
        with 1(3) nb Data have rb: "read_back t k [] (lazy_add x (?acc inc)) = Inr (found, acc')"
          by (subst (asm) read_back.simps) simp
        have bal: "uint (ab_balance (forward t i b)) = uint (ab_balance (forward t k b)) + uint x"
          using ex fw Data LazyRecipient by (simp add: uint_sat_add)
        have "lazy_value (lazy_add x (?acc inc)) = f - uint (ab_balance (forward t k b))"
          using bal 1(5,7) lazy_value_add [of "?acc inc" x] uint_nonnegative [of "ab_balance (forward t k b)"] by simp
        with 1(1) [OF nb refl Data refl refl _ _ LazyRecipient rb] ex 1(6,7) fw Data LazyRecipient
        show ?thesis by simp
      next
        case (LazySender x)
        with 1(3) nb Data have rb: "read_back t k [] (lazy_sub x (?acc inc)) = Inr (found, acc')"
          by (subst (asm) read_back.simps) simp
        have bal: "uint (ab_balance (forward t i b)) = uint (ab_balance (forward t k b)) - uint x"
          using ex fw Data LazySender by (simp add: uint_sat_sub)
        have "lazy_value (lazy_sub x (?acc inc)) = f - uint (ab_balance (forward t k b))"
          using bal 1(5,6) lazy_value_sub [of "?acc inc" x] uint_bounded [of "ab_balance (forward t k b)"] by simp
        with 1(2) [OF nb refl Data refl refl _ _ LazySender rb] ex 1(6,7) fw Data LazySender
        show ?thesis by (simp add: ac_simps)
      qed (use ex Data in simp_all)
    qed
  qed
qed

text \<open>One step of the loop, by the closest lower entry.\<close>

lemma read_back_none: "next_back t i = None \<Longrightarrow> read_back t i prev acc = Inr (None, acc)"
  by (simp add: read_back.simps)

lemma read_back_estimate: "next_back t i = Some (k, Estimate) \<Longrightarrow> read_back t i prev acc = Inl (Blocking k)"
  by (simp add: read_back.simps)

definition pushed :: "lazy_acc \<Rightarrow> tx_idx \<Rightarrow> tx_incarnation \<Rightarrow> lazy_acc" where
  "pushed acc k inc = acc\<lparr>la_origins := la_origins acc @ [MvMemory \<lparr>tx_idx = k, tx_incarnation = inc\<rparr>]\<rparr>"

lemma la_origins_pushed [simp]:
  "la_origins (pushed acc k inc) = la_origins acc @ [MvMemory \<lparr>tx_idx = k, tx_incarnation = inc\<rparr>]"
  by (simp add: pushed_def)

lemma read_back_data:
  "next_back t i = Some (k, Data inc v) \<Longrightarrow>
   read_back t i prev acc =
     (if prev \<noteq> [] \<and> (length prev = length (la_origins acc) \<or>
          prev ! length (la_origins acc) \<noteq> MvMemory \<lparr>tx_idx = k, tx_incarnation = inc\<rparr>)
      then Inl InconsistentRead
      else case v of
             ValBasic b \<Rightarrow> Inr (Some b, pushed acc k inc)
           | LazyRecipient x \<Rightarrow> read_back t k prev (lazy_add x (pushed acc k inc))
           | LazySender x \<Rightarrow> read_back t k prev (lazy_sub x (pushed acc k inc))
           | _ \<Rightarrow> Inl InvalidMemoryValueType)"
  unfolding pushed_def by (simp add: read_back.simps [of t i prev acc] Let_def)

lemmas read_back_steps = read_back_none read_back_estimate read_back_data

lemma next_back_cases:
  obtains (none) "next_back t i = None"
  | (estimate) k where "next_back t i = Some (k, Estimate)" "k < i"
  | (data) k inc v where "next_back t i = Some (k, Data inc v)" "k < i"
proof (cases "next_back t i")
  case (Some p)
  obtain k e where p: "p = (k, e)" by (cases p)
  have "k < i" using next_back_less Some [unfolded p] .
  with Some p that(2,3) show ?thesis by (cases e) simp_all
qed (rule that(1))

lemma read_back_total:
  "updates_exact b (entries_below i t) \<Longrightarrow> \<exists>r. read_back t i [] acc = Inr r"
proof (induction i arbitrary: acc rule: less_induct)
  case (less i)
  show ?case
  proof (cases t i rule: next_back_cases)
    case none
    then show ?thesis by (simp add: read_back_steps)
  next
    case (estimate k)
    with exact_step [OF estimate(1) less.prems] show ?thesis by simp
  next
    case (data k inc v)
    with exact_step [OF data(1) less.prems] less.IH [OF data(2)] show ?thesis
      by (cases v) (simp_all add: read_back_steps)
  qed
qed

section \<open>What a read records\<close>

text \<open>The previous origins only add checks: when they pass, the read is the one without them.\<close>

lemma read_back_prev:
  assumes "read_back t i prev acc = Inr (found, acc')" "prev \<noteq> []"
    and "la_origins acc = take (length (la_origins acc)) prev"
  shows "read_back t i [] acc = Inr (found, acc') \<and> la_origins acc' = take (length (la_origins acc')) prev"
  using assms
proof (induction i arbitrary: acc rule: less_induct)
  case (less i)
  show ?case
  proof (cases t i rule: next_back_cases)
    case none
    with less.prems show ?thesis by (simp add: read_back_steps)
  next
    case (estimate k)
    with less.prems show ?thesis by (simp add: read_back_steps)
  next
    case (data k inc v)
    let ?n = "length (la_origins acc)"
    from less.prems(1,2) data have ok: "length prev \<noteq> ?n" "prev ! ?n = MvMemory \<lparr>tx_idx = k, tx_incarnation = inc\<rparr>"
      by (auto simp: read_back_steps split: if_splits)
    have "?n \<le> length prev" using arg_cong [OF less.prems(3), of length] by simp
    with ok less.prems(3) have tk: "la_origins (pushed acc k inc) = take (length (la_origins (pushed acc k inc))) prev"
      by (simp add: take_Suc_conv_app_nth)
    show ?thesis
    proof (cases v)
      case (LazyRecipient x)
      with less.IH [OF data(2), of "lazy_add x (pushed acc k inc)"] less.prems(1,2) ok data(1) tk show ?thesis
        by (simp add: read_back_steps)
    next
      case (LazySender x)
      with less.IH [OF data(2), of "lazy_sub x (pushed acc k inc)"] less.prems(1,2) ok data(1) tk show ?thesis
        by (simp add: read_back_steps)
    qed (use less.prems(1,2) ok data(1) tk in \<open>auto simp: read_back_steps\<close>)
  qed
qed

lemma read_back_extends:
  "read_back t i prev acc = Inr (found, acc') \<Longrightarrow> \<exists>os. la_origins acc' = la_origins acc @ os"
proof (induction i arbitrary: acc rule: less_induct)
  case (less i)
  show ?case
  proof (cases t i rule: next_back_cases)
    case (data k inc v)
    with less.prems less.IH [OF data(2)] show ?thesis
      by (cases v) (fastforce simp: read_back_steps split: if_splits)+
  qed (use less.prems in \<open>simp_all add: read_back_steps\<close>)
qed

text \<open>
  The origins a first read pushes, closed by the storage when no absolute value was found. They match
  the tree they were read from.
\<close>

abbreviation closing :: "account_basic option \<Rightarrow> read_origins" where
  "closing found \<equiv> (if found = None then [StorageOrigin] else [])"

lemma read_back_origins:
  assumes "read_back t i [] acc = Inr (found, acc')"
  obtains os where "la_origins acc' = la_origins acc @ os" "origins_match t i (os @ closing found)"
    "wf_origins (os @ closing found)"
proof -
  have "\<exists>os. la_origins acc' = la_origins acc @ os \<and> origins_match t i (os @ closing found) \<and>
      wf_origins (os @ closing found)"
    using assms
  proof (induction i arbitrary: acc rule: less_induct)
    case (less i)
    show ?case
    proof (cases t i rule: next_back_cases)
      case none
      with less.prems show ?thesis by (auto simp: read_back_steps)
    next
      case (estimate k)
      with less.prems show ?thesis by (simp add: read_back_steps)
    next
      case (data k inc v)
      let ?ro = "MvMemory \<lparr>tx_idx = k, tx_incarnation = inc\<rparr>"
      have lift: ?thesis if "\<exists>os. la_origins acc' = (la_origins acc @ [?ro]) @ os \<and>
          origins_match t k (os @ closing found) \<and> wf_origins (os @ closing found)"
      proof -
        from that obtain os where "la_origins acc' = la_origins acc @ [?ro] @ os"
          "origins_match t k (os @ closing found)" "wf_origins (os @ closing found)" by auto
        then show ?thesis
          using data(1) by (intro exI [of _ "?ro # os"]) (cases "os @ closing found", auto)
      qed
      show ?thesis
      proof (cases v)
        case (ValBasic b)
        with less.prems data(1) show ?thesis by (auto simp: read_back_steps)
      next
        case (LazyRecipient x)
        with less.prems data less.IH [of k "lazy_add x (pushed acc k inc)"] show ?thesis
          by (intro lift) (simp add: read_back_steps)
      next
        case (LazySender x)
        with less.prems data less.IH [of k "lazy_sub x (pushed acc k inc)"] show ?thesis
          by (intro lift) (simp add: read_back_steps)
      qed (use less.prems data(1) in \<open>simp_all add: read_back_steps\<close>)
    qed
  qed
  with that show ?thesis by blast
qed

text \<open>A version determines the value it wrote.\<close>

definition versions_agree :: "nat \<Rightarrow> mv_tree \<Rightarrow> mv_tree \<Rightarrow> bool" where
  "versions_agree i t t' \<longleftrightarrow>
     (\<forall>k < i. \<forall>inc v v'. t k = Some (Data inc v) \<longrightarrow> t' k = Some (Data inc v') \<longrightarrow> v = v')"

lemma versions_agree_le: "versions_agree i t t' \<Longrightarrow> k \<le> i \<Longrightarrow> versions_agree k t t'"
  unfolding versions_agree_def by (meson less_le_trans)

text \<open>If the recorded origins match another tree, reading that tree gives the same answer.\<close>

lemma read_back_transfer:
  assumes "read_back t i [] acc = Inr (found, acc')" "la_origins acc' = la_origins acc @ os"
    and "origins_match t' i (os @ closing found)" "versions_agree i t t'"
  shows "read_back t' i [] acc = Inr (found, acc')"
  using assms
proof (induction i arbitrary: acc os rule: less_induct)
  case (less i)
  show ?case
  proof (cases t i rule: next_back_cases)
    case none
    with less.prems have "found = None" "acc' = acc" "os = []" by (auto simp: read_back_steps)
    with less.prems(3) have "next_back t' i = None" by (auto split: option.splits)
    with \<open>found = None\<close> \<open>acc' = acc\<close> show ?thesis by (simp add: read_back_steps)
  next
    case (estimate k)
    with less.prems show ?thesis by (simp add: read_back_steps)
  next
    case (data k inc v)
    let ?ro = "MvMemory \<lparr>tx_idx = k, tx_incarnation = inc\<rparr>"
    have "\<exists>os'. la_origins acc' = la_origins (pushed acc k inc) @ os'"
      using less.prems(1) data(1) read_back_extends [of t k "[]" _ found acc']
      by (cases v) (fastforce simp: read_back_steps)+
    with less.prems(2) obtain os' where os: "os = ?ro # os'" by auto
    with less.prems(3) obtain v' where nb: "next_back t' i = Some (k, Data inc v')"
      and m: "origins_match t' k (os' @ closing found)"
      by (auto split: option.splits memory_entry.splits)
    have "v' = v"
      using data(1) nb less.prems(4) by (auto simp: versions_agree_def next_back_Some_iff)
    note nb = nb [unfolded this]
    have va: "versions_agree k t t'" using less.prems(4) data(2) by (simp add: versions_agree_le)
    show ?thesis
    proof (cases v)
      case (ValBasic b)
      with less.prems(1) data(1) nb show ?thesis by (simp add: read_back_steps)
    next
      case (LazyRecipient x)
      with less.prems data nb os m va less.IH [of k "lazy_add x (pushed acc k inc)" os'] show ?thesis
        by (simp add: read_back_steps)
    next
      case (LazySender x)
      with less.prems data nb os m va less.IH [of k "lazy_sub x (pushed acc k inc)" os'] show ?thesis
        by (simp add: read_back_steps)
    qed (use less.prems(1) data(1) in \<open>simp_all add: read_back_steps\<close>)
  qed
qed

end
