(* ===== verification/Vm_Reads.thy ===== *)
theory Vm_Reads
  imports Vm_Db
begin

text \<open>
  Soundness of read-set validation for single queries: if the origins a query recorded still match
  another state of the multi-version memory, the query gives the same answer and records the same
  origins there.
\<close>

section \<open>Queries as functions of the closest entries\<close>

lemma table_entry_tree: "mv_data mv h = Some t \<Longrightarrow> table_entry (mv_data mv) h = t"
  by (simp add: table_entry_def fun_eq_iff)

lemma table_entry_absent: "mv_data mv h = None \<Longrightarrow> table_entry (mv_data mv) h = (\<lambda>_. None)"
  by (simp add: table_entry_def fun_eq_iff)

lemma closest_eq: "closest mv h i = next_back (table_entry (mv_data mv) h) i"
  by (cases "mv_data mv h") (simp_all add: closest_def table_entry_tree table_entry_absent)

lemma closest_pos_eq: "(if 0 < i then closest mv h i else None) = next_back (table_entry (mv_data mv) h) i"
  by (cases i) (simp_all add: closest_eq)

lemma read_versions_eq:
  "read_versions mv h i prev = read_back (table_entry (mv_data mv) h) i prev lazy_acc_init"
proof (cases "mv_data mv h")
  case None
  then show ?thesis by (simp add: read_versions_def table_entry_absent read_back_none)
next
  case (Some t)
  then show ?thesis by (cases i) (simp_all add: read_versions_def table_entry_tree read_back_none)
qed

section \<open>Well-formed databases\<close>

definition single_location :: "memory_location \<Rightarrow> bool" where
  "single_location l \<longleftrightarrow> (case l of LocBasic _ \<Rightarrow> False | _ \<Rightarrow> True)"

definition db_wf :: "('bc, 'jt) revm_api \<Rightarrow> memory_location set \<Rightarrow> 'au vmdb \<Rightarrow> bool" where
  "db_wf P L db \<longleftrightarrow>
     db_from_hash db = hash_deterministic P (LocBasic (te_caller (db_tx db))) \<and>
     db_to_hash db = (case te_kind (db_tx db) of
        TxCall a \<Rightarrow> Some (hash_deterministic P (LocBasic a)) | TxCreate \<Rightarrow> None) \<and>
     distinct (map fst (db_read_set db)) \<and>
     wf_reads (db_read_set db) \<and>
     (\<forall>l \<in> L. single_location l \<longrightarrow> length (read_origins_of (db_read_set db) (hash_deterministic P l)) \<le> 1)"

lemma hash_basic_wf: "db_wf P L db \<Longrightarrow> hash_basic P db a = hash_deterministic P (LocBasic a)"
  by (auto simp: hash_basic_def db_wf_def)

text \<open>
  The set \<open>L\<close> holds the locations under consideration: those that one execution accesses. Code hashes
  and slots among them have at most one origin.
\<close>

text \<open>A database state that extends another: the same transaction, and no recorded origin forgotten.\<close>

definition db_extends :: "'au vmdb \<Rightarrow> 'au vmdb \<Rightarrow> bool" where
  "db_extends db db' \<longleftrightarrow>
     db_tx_idx db' = db_tx_idx db \<and> db_tx db' = db_tx db \<and> db_from_hash db' = db_from_hash db \<and>
     db_to_hash db' = db_to_hash db \<and> db_to_code_hash db' = db_to_code_hash db \<and>
     db_is_lazy db' = db_is_lazy db \<and> db_has_nonce db' = db_has_nonce db \<and>
     (\<forall>h os. map_of (db_read_set db) h = Some os \<longrightarrow> os \<noteq> [] \<longrightarrow> map_of (db_read_set db') h = Some os)"

lemma db_extends_refl [simp]: "db_extends db db"
  by (simp add: db_extends_def)

lemma db_extends_trans: "db_extends db db1 \<Longrightarrow> db_extends db1 db2 \<Longrightarrow> db_extends db db2"
  by (auto simp: db_extends_def)

text \<open>Every recorded origin matches the memory.\<close>

definition reads_match :: "'bc mv_memory \<Rightarrow> 'au vmdb \<Rightarrow> bool" where
  "reads_match mv db \<longleftrightarrow>
     (\<forall>h os. map_of (db_read_set db) h = Some os \<longrightarrow> os \<noteq> [] \<longrightarrow>
        origins_match (table_entry (mv_data mv) h) (db_tx_idx db) os)"

lemma reads_match_extends: "db_extends db db' \<Longrightarrow> reads_match mv db' \<Longrightarrow> reads_match mv db"
  by (auto simp: db_extends_def reads_match_def)

lemma reads_match_validate:
  assumes "db_wf P L db"
  shows "list_all (location_valid (mv_data mv) (db_tx_idx db)) (db_read_set db) \<longleftrightarrow> reads_match mv db"
proof -
  have wf: "wf_origins os" if "(h, os) \<in> set (db_read_set db)" for h os
    using that assms by (auto simp: db_wf_def)
  have mem: "map_of (db_read_set db) h = Some os \<longleftrightarrow> (h, os) \<in> set (db_read_set db)" for h os
    using assms by (simp add: db_wf_def)
  have "os \<noteq> []" if "(h, os) \<in> set (db_read_set db)" for h os
    using wf [OF that] by auto
  then show ?thesis
    using wf by (auto simp: list_all_iff reads_match_def mem location_valid_iff)
qed

section \<open>Single origins\<close>

lemma read_origins_update [simp]:
  "read_origins_of (AList.update h os rs) h' = (if h' = h then os else read_origins_of rs h')"
  by (simp add: read_origins_of_def update_conv)

lemma touch_extends: "db_extends db (touch db h)"
  by (auto simp: db_extends_def touch_def update_conv read_origins_of_def)

lemma push_origin_ok:
  assumes "push_origin prev ro = Inr os"
  shows "os \<noteq> []" "last os = ro" "prev = [] \<and> os = [ro] \<or> prev \<noteq> [] \<and> os = prev"
  using assms by (cases prev; auto split: if_splits)+

lemma set_update_sub: "p \<in> set (AList.update k v al) \<Longrightarrow> p = (k, v) \<or> p \<in> set al"
  by (induction al) (auto split: if_splits)

lemma read_from_ok:
  assumes "read_from (touch db h) h ro ans = (Inr x, db')" "length (read_origins_of (db_read_set db) h) \<le> 1"
  shows "ans = Inr x" "db' = db\<lparr>db_read_set := AList.update h [ro] (db_read_set db)\<rparr>"
    and "read_origins_of (db_read_set db) h \<in> {[], [ro]}" "db_extends db db'"
proof -
  let ?prev = "read_origins_of (db_read_set db) h"
  obtain os where os: "push_origin ?prev ro = Inr os" and ans: "ans = Inr x"
    and db': "db' = (touch db h)\<lparr>db_read_set := AList.update h os (db_read_set (touch db h))\<rparr>"
    using assms(1) by (auto simp: read_from_def touch_def split: sum.splits)
  have "?prev \<in> {[], [ro]} \<and> os = [ro]"
    using push_origin_ok [OF os] assms(2) by (cases ?prev) auto
  then have p: "?prev \<in> {[], [ro]}" and o1: "os = [ro]" by auto
  show "ans = Inr x" by (rule ans)
  show "db' = db\<lparr>db_read_set := AList.update h [ro] (db_read_set db)\<rparr>"
    unfolding db' o1 by (simp add: touch_def)
  show "?prev \<in> {[], [ro]}" by (rule p)
  show "db_extends db db'"
    using p unfolding db' o1
    by (auto simp: db_extends_def touch_def update_conv read_origins_of_def split: option.splits)
qed

lemma read_from_single:
  assumes "read_origins_of (db_read_set db) h \<in> {[], [ro]}"
  shows "read_from (touch db h) h ro ans =
    (ans, db\<lparr>db_read_set := AList.update h [ro] (db_read_set db)\<rparr>)"
  using assms by (auto simp: read_from_def touch_def)

lemma db_wf_update:
  assumes wf: "db_wf P L db" and os: "wf_origins os"
    and single: "\<And>l. l \<in> L \<Longrightarrow> single_location l \<Longrightarrow> hash_deterministic P l = h \<Longrightarrow> length os \<le> 1"
  shows "db_wf P L (db\<lparr>db_read_set := AList.update h os (db_read_set db)\<rparr>)"
proof -
  have "wf_reads (AList.update h os (db_read_set db))"
    using wf os set_update_sub by (fastforce simp: db_wf_def)
  with wf single show ?thesis
    by (simp add: db_wf_def distinct_update)
qed

lemma db_wf_accounts [simp]: "db_wf P L (db\<lparr>db_read_accounts := x\<rparr>) = db_wf P L db"
  by (simp add: db_wf_def)

lemma db_extends_accounts: "db_extends db db' \<Longrightarrow> db_extends db (db'\<lparr>db_read_accounts := x\<rparr>)"
  by (simp add: db_extends_def)

lemma db_wf_singleD:
  "db_wf P L db \<Longrightarrow> l \<in> L \<Longrightarrow> single_location l \<Longrightarrow> length (read_origins_of (db_read_set db) (hash_deterministic P l)) \<le> 1"
  by (simp add: db_wf_def)

text \<open>The code hashes a transaction can come across: those lower transactions wrote and those of stored accounts.\<close>

definition known_codes :: "'jt storage_api \<Rightarrow> tx_idx \<Rightarrow> 'bc mv_memory \<Rightarrow> b256 set" where
  "known_codes S i mv =
     {c. (\<exists>h k inc. k < i \<and> entry_at mv h k = Some (Data inc (ValCodeHash c))) \<or> (\<exists>a. st_code_hash S a = Inr (Some c))}"

text \<open>
  Two states of the memory in which every version has one value, and the code hashes known in both, and those of
  \<open>K\<close>, have one meaning.
\<close>

definition memories_agree ::
  "('bc, 'jt) revm_api \<Rightarrow> 'jt storage_api \<Rightarrow> tx_idx \<Rightarrow> b256 set \<Rightarrow> 'bc mv_memory \<Rightarrow> 'bc mv_memory \<Rightarrow> bool" where
  "memories_agree P S i K mv mv' \<longleftrightarrow>
     (\<forall>h. versions_agree i (table_entry (mv_data mv) h) (table_entry (mv_data mv') h)) \<and>
     (\<forall>c \<in> K \<union> (known_codes S i mv \<inter> known_codes S i mv'). read_code P S mv (Some c) = read_code P S mv' (Some c))"

lemma single_origin_match:
  assumes "origins_match t' i [MvMemory \<lparr>tx_idx = k, tx_incarnation = inc\<rparr>]"
    and "next_back t i = Some (k, Data inc v)" "versions_agree i t t'"
  shows "next_back t' i = Some (k, Data inc v)"
proof -
  from assms(1) obtain v' where nb: "next_back t' i = Some (k, Data inc v')"
    by (auto split: option.splits memory_entry.splits)
  with assms(2,3) have "v' = v"
    by (auto simp: versions_agree_def next_back_Some_iff)
  with nb show ?thesis by simp
qed

lemma reads_match_single:
  assumes "reads_match mv' (db\<lparr>db_read_set := AList.update h [ro] (db_read_set db)\<rparr>)"
  shows "origins_match (table_entry (mv_data mv') h) (db_tx_idx db) [ro]"
  using assms by (auto simp: reads_match_def update_conv)

section \<open>The code hash\<close>

lemma get_code_hash_ok:
  assumes ok: "get_code_hash P S mv db a = (Inr x, db')" and wf: "db_wf P L db" and l: "LocCodeHash a \<in> L"
  shows "db_extends db db'" "db_wf P L db'"
    and "reads_match mv' db' \<Longrightarrow> memories_agree P S (db_tx_idx db) K mv mv' \<Longrightarrow>
      get_code_hash P S mv' db a = (Inr x, db')"
    and "x = Some c \<Longrightarrow> c \<in> known_codes S (db_tx_idx db) mv"
proof -
  let ?h = "hash_deterministic P (LocCodeHash a)" and ?i = "db_tx_idx db"
  let ?t = "table_entry (mv_data mv) ?h" and ?t' = "table_entry (mv_data mv') ?h"
  have sl: "length (read_origins_of (db_read_set db) ?h) \<le> 1"
    using wf l by (rule db_wf_singleD) (simp add: single_location_def)
  obtain ro ans where rf: "read_from (touch db ?h) ?h ro ans = (Inr x, db')"
    and src: "(\<exists>k inc c. next_back ?t ?i = Some (k, Data inc (ValCodeHash c)) \<and>
        ro = MvMemory \<lparr>tx_idx = k, tx_incarnation = inc\<rparr> \<and> ans = Inr (Some c)) \<or>
      (ro = StorageOrigin \<and> ans = storage_result (st_code_hash S a))"
    using ok by (auto simp: get_code_hash_def Let_def closest_eq
        split: option.splits memory_entry.splits memory_value.splits)
  note rd = read_from_ok [OF rf sl]
  show "db_extends db db'" by (rule rd(4))
  show "db_wf P L db'"
    unfolding rd(2) by (rule db_wf_update [OF wf]) auto
  show "c \<in> known_codes S ?i mv" if "x = Some c"
    using src rd(1) that by (auto simp: known_codes_def next_back_Some_iff storage_result_def split: sum.splits)
  assume m: "reads_match mv' db'" and ag: "memories_agree P S ?i K mv mv'"
  have om: "origins_match ?t' ?i [ro]"
    using m unfolding rd(2) by (rule reads_match_single)
  have va: "versions_agree ?i ?t ?t'" using ag by (simp add: memories_agree_def)
  from src have "get_code_hash P S mv' db a = read_from (touch db ?h) ?h ro ans"
  proof
    assume "ro = StorageOrigin \<and> ans = storage_result (st_code_hash S a)"
    with om show ?thesis
      by (auto simp: get_code_hash_def Let_def closest_eq split: option.splits)
  next
    assume "\<exists>k inc c. next_back ?t ?i = Some (k, Data inc (ValCodeHash c)) \<and>
        ro = MvMemory \<lparr>tx_idx = k, tx_incarnation = inc\<rparr> \<and> ans = Inr (Some c)"
    then obtain k inc c where nb: "next_back ?t ?i = Some (k, Data inc (ValCodeHash c))"
      and ro: "ro = MvMemory \<lparr>tx_idx = k, tx_incarnation = inc\<rparr>" "ans = Inr (Some c)" by blast
    from single_origin_match [OF _ nb va] om ro show ?thesis
      by (simp add: get_code_hash_def Let_def closest_eq)
  qed
  with rf show "get_code_hash P S mv' db a = (Inr x, db')" by simp
qed

section \<open>Storage slots\<close>

lemma db_storage_ok:
  assumes ok: "db_storage P S mv db a j = (Inr x, db')" and wf: "db_wf P L db" and l: "LocStorage a j \<in> L"
  shows "db_extends db db'" "db_wf P L db'"
    and "reads_match mv' db' \<Longrightarrow> memories_agree P S (db_tx_idx db) K mv mv' \<Longrightarrow>
      db_storage P S mv' db a j = (Inr x, db')"
proof -
  let ?h = "hash_deterministic P (LocStorage a j)" and ?i = "db_tx_idx db"
  let ?t = "table_entry (mv_data mv) ?h" and ?t' = "table_entry (mv_data mv') ?h"
  have sl: "length (read_origins_of (db_read_set db) ?h) \<le> 1"
    using wf l by (rule db_wf_singleD) (simp add: single_location_def)
  obtain ro ans where rf: "read_from (touch db ?h) ?h ro ans = (Inr x, db')"
    and src: "(\<exists>k inc v. next_back ?t ?i = Some (k, Data inc (ValStorage v)) \<and>
        ro = MvMemory \<lparr>tx_idx = k, tx_incarnation = inc\<rparr> \<and> ans = Inr v) \<or>
      (ro = StorageOrigin \<and> ans = storage_result (st_storage S a j))"
    using ok unfolding db_storage_def Let_def closest_pos_eq
    by (auto split: option.splits memory_entry.splits memory_value.splits)
  note rd = read_from_ok [OF rf sl]
  show "db_extends db db'" by (rule rd(4))
  show "db_wf P L db'"
    unfolding rd(2) by (rule db_wf_update [OF wf]) auto
  assume m: "reads_match mv' db'" and ag: "memories_agree P S ?i K mv mv'"
  have om: "origins_match ?t' ?i [ro]"
    using m unfolding rd(2) by (rule reads_match_single)
  have va: "versions_agree ?i ?t ?t'" using ag by (simp add: memories_agree_def)
  from src have "db_storage P S mv' db a j = read_from (touch db ?h) ?h ro ans"
  proof
    assume "ro = StorageOrigin \<and> ans = storage_result (st_storage S a j)"
    with om show ?thesis
      unfolding db_storage_def Let_def closest_pos_eq by (auto split: option.splits)
  next
    assume "\<exists>k inc v. next_back ?t ?i = Some (k, Data inc (ValStorage v)) \<and>
        ro = MvMemory \<lparr>tx_idx = k, tx_incarnation = inc\<rparr> \<and> ans = Inr v"
    then obtain k inc v where nb: "next_back ?t ?i = Some (k, Data inc (ValStorage v))"
      and ro: "ro = MvMemory \<lparr>tx_idx = k, tx_incarnation = inc\<rparr>" "ans = Inr v" by blast
    from single_origin_match [OF _ nb va] om ro show ?thesis
      unfolding db_storage_def Let_def closest_pos_eq by simp
  qed
  with rf show "db_storage P S mv' db a j = (Inr x, db')" by simp
qed

section \<open>Accounts\<close>

lemma origins_match_prefix: "origins_match t i (xs @ ys) \<Longrightarrow> origins_match t i xs"
proof (induction t i xs rule: origins_match.induct)
  case (2 t i v os)
  then show ?case by (auto split: option.splits memory_entry.splits)
next
  case (3 t i os)
  then show ?case by (auto split: option.splits)
qed simp

lemma read_back_prev_conv:
  assumes "read_back t i [] acc = Inr (found, acc')" "la_origins acc' = take (length (la_origins acc')) prev"
  shows "read_back t i prev acc = Inr (found, acc')"
  using assms
proof (induction i arbitrary: acc rule: less_induct)
  case (less i)
  show ?case
  proof (cases t i rule: next_back_cases)
    case (data k inc v)
    let ?ro = "MvMemory \<lparr>tx_idx = k, tx_incarnation = inc\<rparr>" and ?n = "length (la_origins acc)"
    have "\<exists>os. la_origins acc' = la_origins (pushed acc k inc) @ os"
      using less.prems(1) data(1) read_back_extends [of t k "[]" _ found acc']
      by (cases v) (fastforce simp: read_back_steps)+
    then obtain os where os: "la_origins acc' = la_origins acc @ ?ro # os" by auto
    have tk: "take (length (la_origins acc')) prev = la_origins acc @ ?ro # os"
      by (rule trans [OF less.prems(2) [symmetric] os])
    have "length (la_origins acc') \<le> length prev"
      using arg_cong [OF less.prems(2), of length] by simp
    then have "?n < length prev" using os by simp
    moreover have "prev ! ?n = ?ro"
      using arg_cong [OF tk, of "\<lambda>xs. xs ! ?n"] os by simp
    ultimately show ?thesis
      using less.IH [OF data(2)] less.prems data(1)
      by (cases v) (simp_all add: read_back_steps)
  qed (use less.prems in \<open>simp_all add: read_back_steps\<close>)
qed

text \<open>The multi-version part of an account read, first or repeated.\<close>

lemma read_versions_transfer:
  assumes rv: "read_versions mv h i prev = Inr (found, acc)"
    and fb: "read_fallback S a prev (found, acc) = Inr (final, origins)"
    and om: "origins_match (table_entry (mv_data mv') h) i (if prev = [] then origins else prev)"
    and va: "versions_agree i (table_entry (mv_data mv) h) (table_entry (mv_data mv') h)"
  shows "read_versions mv' h i prev = Inr (found, acc)"
proof -
  let ?t = "table_entry (mv_data mv) h" and ?t' = "table_entry (mv_data mv') h"
  have origins: "origins = la_origins acc @ closing found"
    using fb by (auto simp: read_fallback_def split: option.splits if_splits sum.splits)
  show ?thesis
  proof (cases "prev = []")
    case True
    with rv om origins read_back_transfer [of ?t i lazy_acc_init found acc "la_origins acc" ?t'] va
    show ?thesis by (simp add: read_versions_eq lazy_acc_init_def)
  next
    case False
    from rv read_back_prev [of ?t i prev lazy_acc_init found acc] False
    have rb: "read_back ?t i [] lazy_acc_init = Inr (found, acc)"
      and tk: "la_origins acc = take (length (la_origins acc)) prev"
      by (simp_all add: read_versions_eq lazy_acc_init_def)
    obtain rest where rest: "prev = (la_origins acc @ closing found) @ rest"
    proof (cases found)
      case None
      with fb False have len: "length prev = length (la_origins acc) + 1" and lst: "last prev = StorageOrigin"
        by (auto simp: read_fallback_def split: if_splits)
      then have "butlast prev = la_origins acc"
        using tk by (simp add: butlast_conv_take)
      with lst False None have "prev = (la_origins acc @ closing found) @ []"
        by (metis append_Nil2 append_butlast_last_id)
      then show ?thesis by (rule that)
    next
      case (Some b)
      have "prev = take (length (la_origins acc)) prev @ drop (length (la_origins acc)) prev" by simp
      also have "\<dots> = la_origins acc @ drop (length (la_origins acc)) prev" using tk by simp
      finally have "prev = (la_origins acc @ closing found) @ drop (length (la_origins acc)) prev"
        using Some by simp
      then show ?thesis by (rule that)
    qed
    have "origins_match ?t' i ((la_origins acc @ closing found) @ rest)"
      using om False unfolding rest [symmetric] by simp
    then have "origins_match ?t' i (la_origins acc @ closing found)"
      by (rule origins_match_prefix)
    with read_back_transfer [OF rb, of "la_origins acc" ?t'] va
    have "read_back ?t' i [] lazy_acc_init = Inr (found, acc)" by (simp add: lazy_acc_init_def)
    from read_back_prev_conv [OF this tk] show ?thesis by (simp add: read_versions_eq)
  qed
qed

lemma finish_basic_ok:
  assumes ok: "finish_basic P S mv db a h account = (Inr x, db')" and wf: "db_wf P L db" and l: "LocCodeHash a \<in> L"
  shows "db_extends db db'" "db_wf P L db'"
    and "reads_match mv' db' \<Longrightarrow> memories_agree P S (db_tx_idx db) K mv mv' \<Longrightarrow> set_option (db_to_code_hash db) \<subseteq> K \<Longrightarrow>
      finish_basic P S mv' db a h account = (Inr x, db')"
proof -
  define code where "code = (\<lambda>m. if Some h = db_to_hash db then (Inr (db_to_code_hash db), db) else get_code_hash P S m db a)"
  obtain ch db1 where c: "code mv = (Inr ch, db1)"
    using ok by (auto simp: finish_basic_def code_def split: prod.splits sum.splits if_splits)
  obtain acc where db': "db' = db1\<lparr>db_read_accounts := acc\<rparr>"
    using ok c by (auto simp: finish_basic_def code_def split: sum.splits)
  have ext: "db_extends db db1" and wf1: "db_wf P L db1"
    using c wf l get_code_hash_ok(1,2) [of P S mv db a ch db1 L] by (auto simp: code_def split: if_splits)
  show "db_extends db db'" unfolding db' by (rule db_extends_accounts [OF ext])
  show "db_wf P L db'" unfolding db' using wf1 by simp
  assume m: "reads_match mv' db'" and ag: "memories_agree P S (db_tx_idx db) K mv mv'" and K: "set_option (db_to_code_hash db) \<subseteq> K"
  have m1: "reads_match mv' db1" using m unfolding db' by (simp add: reads_match_def)
  have c': "code mv' = (Inr ch, db1)"
    using c get_code_hash_ok(3) [OF _ wf l m1 ag, of ch] by (auto simp: code_def split: if_splits)
  moreover have "read_code P S mv' ch = read_code P S mv ch"
  proof (cases ch)
    case (Some x)
    with c c' K get_code_hash_ok(4) [of P S _ db a ch db1, OF _ wf l, of _ x]
    have "x \<in> K \<union> (known_codes S (db_tx_idx db) mv \<inter> known_codes S (db_tx_idx db) mv')"
      by (auto simp: code_def split: if_splits)
    with ag Some show ?thesis by (simp add: memories_agree_def)
  qed (simp add: read_code_def)
  ultimately show "finish_basic P S mv' db a h account = (Inr x, db')"
    using ok c by (simp add: finish_basic_def code_def)
qed

lemma read_origins_touch [simp]: "read_origins_of (db_read_set (touch db h)) h = read_origins_of (db_read_set db) h"
  by (simp add: touch_def)

lemma touch_triv: "read_origins_of (db_read_set db) h \<noteq> [] \<Longrightarrow> touch db h = db"
  by (auto simp: touch_def read_origins_of_def update_triv split: option.splits)

lemma settle_basic_ok:
  assumes ok: "settle_basic P S mv db a h acc final = (Inr x, db')" and wf: "db_wf P L db" and l: "LocCodeHash a \<in> L"
  shows "db_extends db db'" "db_wf P L db'"
    and "reads_match mv' db' \<Longrightarrow> memories_agree P S (db_tx_idx db) K mv mv' \<Longrightarrow> set_option (db_to_code_hash db) \<subseteq> K \<Longrightarrow>
      settle_basic P S mv' db a h acc final = (Inr x, db')"
  using ok wf l finish_basic_ok [of P S mv db a h _ x db' L]
  by (auto simp: settle_basic_def Let_def split: option.splits if_splits)

lemma wf_origins_recorded:
  "db_wf P L db \<Longrightarrow> read_origins_of (db_read_set db) h \<noteq> [] \<Longrightarrow> wf_origins (read_origins_of (db_read_set db) h)"
  by (auto simp: db_wf_def read_origins_of_def dest!: map_of_SomeD split: option.splits)

lemma db_basic_read_ok:
  assumes ok: "db_basic_read P S mv mvc db a h = (Inr x, db')" and wf: "db_wf P L db" and l: "LocCodeHash a \<in> L"
    and single: "\<And>l. l \<in> L \<Longrightarrow> single_location l \<Longrightarrow> hash_deterministic P l \<noteq> h"
  shows "db_extends db db'" "db_wf P L db'"
    and "reads_match mv' db' \<Longrightarrow> memories_agree P S (db_tx_idx db) K mv mv' \<Longrightarrow>
      memories_agree P S (db_tx_idx db) K mvc mv' \<Longrightarrow> set_option (db_to_code_hash db) \<subseteq> K \<Longrightarrow>
      db_basic_read P S mv' mv' db a h = (Inr x, db')"
proof -
  let ?i = "db_tx_idx db" and ?prev = "read_origins_of (db_read_set db) h"
  obtain found acc where rv: "read_versions mv h ?i ?prev = Inr (found, acc)"
    using ok by (auto simp: db_basic_read_def Let_def split: sum.splits)
  obtain final origins where fb: "read_fallback S a ?prev (found, acc) = Inr (final, origins)"
    using ok rv by (auto simp: db_basic_read_def Let_def split: sum.splits)
  define os where "os = (if ?prev = [] then origins else ?prev)"
  define db2 where "db2 = db\<lparr>db_read_set := AList.update h os (db_read_set db)\<rparr>"
  have db2: "(if ?prev = [] then (touch db h)\<lparr>db_read_set := AList.update h origins (db_read_set (touch db h))\<rparr>
      else touch db h) = db2"
    by (simp add: db2_def os_def touch_def)
  have run: "db_basic_read P S m m' db a h = settle_basic P S m' db2 a h acc final"
    if "read_versions m h ?i ?prev = Inr (found, acc)" for m m'
    using that fb db2 by (simp add: db_basic_read_def Let_def)
  have origins: "origins = la_origins acc @ closing found"
    using fb by (auto simp: read_fallback_def split: option.splits if_splits sum.splits)
  have wfo: "wf_origins os"
  proof (cases "?prev = []")
    case True
    with rv have "read_back (table_entry (mv_data mv) h) ?i [] lazy_acc_init = Inr (found, acc)"
      by (simp add: read_versions_eq)
    then obtain os' where "la_origins acc = la_origins lazy_acc_init @ os'" "wf_origins (os' @ closing found)"
      by (rule read_back_origins)
    with True origins show ?thesis by (simp add: os_def lazy_acc_init_def)
  qed (use wf_origins_recorded [OF wf] in \<open>simp add: os_def\<close>)
  have wf2: "db_wf P L db2" unfolding db2_def by (rule db_wf_update [OF wf wfo]) (use single in auto)
  have ext2: "db_extends db db2"
    by (auto simp: db_extends_def db2_def os_def update_conv read_origins_of_def)
  have st: "settle_basic P S mvc db2 a h acc final = (Inr x, db')"
    using ok run [OF rv] by simp
  note sb = settle_basic_ok [OF st wf2 l]
  show "db_extends db db'" using ext2 sb(1) by (rule db_extends_trans)
  show "db_wf P L db'" by (rule sb(2))
  assume m: "reads_match mv' db'" and ag: "memories_agree P S ?i K mv mv'" "memories_agree P S ?i K mvc mv'"
    and K: "set_option (db_to_code_hash db) \<subseteq> K"
  have "reads_match mv' db2" using sb(1) m by (rule reads_match_extends)
  then have "origins_match (table_entry (mv_data mv') h) ?i os"
    using wfo by (cases os) (auto simp: reads_match_def db2_def update_conv)
  moreover have "versions_agree ?i (table_entry (mv_data mv) h) (table_entry (mv_data mv') h)"
    using ag(1) by (simp add: memories_agree_def)
  ultimately have "read_versions mv' h ?i ?prev = Inr (found, acc)"
    unfolding os_def by (rule read_versions_transfer [OF rv fb])
  moreover have "settle_basic P S mv' db2 a h acc final = (Inr x, db')"
    using sb(3) [of mv' K] m ag(2) K by (simp add: db2_def)
  ultimately show "db_basic_read P S mv' mv' db a h = (Inr x, db')"
    using run by simp
qed

lemma db_basic_ok:
  assumes ok: "db_basic P S mv mvc db a = (Inr x, db')" and wf: "db_wf P L db"
    and l: "LocBasic a \<in> L" "LocCodeHash a \<in> L" and inj: "inj_on (hash_deterministic P) L"
  shows "db_extends db db'" "db_wf P L db'"
    and "reads_match mv' db' \<Longrightarrow> memories_agree P S (db_tx_idx db) K mv mv' \<Longrightarrow>
      memories_agree P S (db_tx_idx db) K mvc mv' \<Longrightarrow> set_option (db_to_code_hash db) \<subseteq> K \<Longrightarrow>
      db_basic P S mv' mv' db a = (Inr x, db')"
proof -
  have "hash_deterministic P k \<noteq> hash_basic P db a" if "k \<in> L" "single_location k" for k
  proof
    assume "hash_deterministic P k = hash_basic P db a"
    then have "k = LocBasic a"
      using inj_onD [OF inj _ that(1) l(1)] unfolding hash_basic_wf [OF wf] by blast
    with that(2) show False by (simp add: single_location_def)
  qed
  note rd = db_basic_read_ok [of P S mv mvc db a "hash_basic P db a" x db', OF _ wf l(2) this]
  have alt: "db_basic_read P S mv mvc db a (hash_basic P db a) = (Inr x, db') \<or> db' = db"
    using ok unfolding db_basic_def Let_def by (simp split: if_splits)
  then show "db_extends db db'"
    using rd(1) by (elim disjE) simp_all
  show "db_wf P L db'"
    using alt rd(2) wf by (elim disjE) simp_all
  assume "reads_match mv' db'" "memories_agree P S (db_tx_idx db) K mv mv'" "memories_agree P S (db_tx_idx db) K mvc mv'"
    "set_option (db_to_code_hash db) \<subseteq> K"
  then show "db_basic P S mv' mv' db a = (Inr x, db')"
    using ok rd(3) unfolding db_basic_def Let_def by (auto split: if_splits)
qed

end
