(* ===== verification/Vm.thy ===== *)
theory Vm
  imports Vm_Reads
begin

text \<open>
  \<^verbatim>\<open>Vm\<close> of \<^verbatim>\<open>crates/pevm/src/vm.rs\<close>: executing one transaction against the multi-version memory, building
  its write set, crediting the rewards and recording the result. The EVM itself is third-party code.
  It is a parameter: a program that asks the database for accounts, slots, code and block hashes and
  finally returns a result, whatever the answers are. The memory may change between two queries.
\<close>

section \<open>The EVM as a client of the database\<close>

datatype ('bc, 'r) evm_run =
    EvmDone 'r
  | EvmBasic address "'bc account_info option \<Rightarrow> ('bc, 'r) evm_run"
  | EvmStorage address u256 "u256 \<Rightarrow> ('bc, 'r) evm_run"
  | EvmCode b256 "'bc \<Rightarrow> ('bc, 'r) evm_run"
  | EvmBlockHash u64 "b256 \<Rightarrow> ('bc, 'r) evm_run"

text \<open>
  Running it: \<open>M k\<close> is the memory the \<open>k\<close>-th access sees. The first query that fails ends the run with
  its error, which the EVM returns as \<^verbatim>\<open>EVMError::Database\<close>.
\<close>

primrec run_evm ::
  "('bc, 'jt) revm_api \<Rightarrow> 'jt storage_api \<Rightarrow> (nat \<Rightarrow> 'bc mv_memory) \<Rightarrow> ('bc, 'r) evm_run \<Rightarrow>
   nat \<Rightarrow> 'au vmdb \<Rightarrow> (read_error + 'r) \<times> 'au vmdb" where
  "run_evm P S M (EvmDone r) n db = (Inr r, db)"
| "run_evm P S M (EvmBasic a k) n db =
     (case db_basic P S (M n) (M (n + 1)) db a of
        (Inl e, db1) \<Rightarrow> (Inl e, db1)
      | (Inr x, db1) \<Rightarrow> run_evm P S M (k x) (n + 2) db1)"
| "run_evm P S M (EvmStorage a i k) n db =
     (case db_storage P S (M n) db a i of
        (Inl e, db1) \<Rightarrow> (Inl e, db1)
      | (Inr x, db1) \<Rightarrow> run_evm P S M (k x) (n + 1) db1)"
| "run_evm P S M (EvmCode h k) n db =
     (case db_code_by_hash P S db h of
        (Inl e, db1) \<Rightarrow> (Inl e, db1)
      | (Inr x, db1) \<Rightarrow> run_evm P S M (k x) (n + 1) db1)"
| "run_evm P S M (EvmBlockHash b k) n db =
     (case db_block_hash S db b of
        (Inl e, db1) \<Rightarrow> (Inl e, db1)
      | (Inr x, db1) \<Rightarrow> run_evm P S M (k x) (n + 1) db1)"

section \<open>Results\<close>

record 'lg exec_result =
  er_success :: bool
  er_gas_used :: u64
  er_logs :: "'lg list"

text \<open>
  An error of the EVM is the database's own error passed on, or a failure of the EVM itself, of which
  the executor tells two apart.
\<close>

datatype evm_failure =
    LackOfFundForMaxFee u256 u256
  | NonceTooHigh u64 u64
  | OtherEvmError string

datatype evm_error =
    DatabaseError read_error
  | EvmFailure evm_failure

datatype vm_execution_error =
    Retry
  | FallbackToSequential
  | VmBlocking tx_idx
  | ExecutionError evm_error

fun vm_error_from :: "read_error \<Rightarrow> vm_execution_error" where
  "vm_error_from InconsistentRead = Retry"
| "vm_error_from SelfDestructedAccount = FallbackToSequential"
| "vm_error_from (Blocking i) = VmBlocking i"
| "vm_error_from e = ExecutionError (DatabaseError e)"

type_synonym 'bc evm_state = "(address \<times> 'bc revm_account) list"

record 'lg receipt =
  rc_status :: bool
  rc_cumulative_gas_used :: u64
  rc_logs :: "'lg list"

type_synonym 'jt state_transitions = "(address \<times> 'jt evm_account option) list"

record ('jt, 'lg) tx_result =
  tr_receipt :: "'lg receipt"
  tr_state :: "'jt state_transitions"

definition receipt_from_revm :: "'lg exec_result \<Rightarrow> 'lg receipt" where
  "receipt_from_revm r =
     \<lparr>rc_status = er_success r, rc_cumulative_gas_used = er_gas_used r, rc_logs = er_logs r\<rparr>"

definition transition_from ::
  "('bc, 'jt) revm_api \<Rightarrow> bool \<Rightarrow> 'bc revm_account \<Rightarrow> 'jt evm_account option option" where
  "transition_from P eip161 account =
     (if ra_selfdestructed account \<or> account_is_empty P account \<and> eip161 then Some None
      else map_option Some (evm_account_from P account))"

text \<open>\<open>None\<close> when the conversion of an account panics.\<close>

fun state_transitions_from_revm ::
  "('bc, 'jt) revm_api \<Rightarrow> bool \<Rightarrow> 'bc evm_state \<Rightarrow> 'jt state_transitions option" where
  "state_transitions_from_revm P eip161 [] = Some []"
| "state_transitions_from_revm P eip161 ((a, account) # rest) =
     (if ra_touched account then
        (case transition_from P eip161 account of
           None \<Rightarrow> None
         | Some t \<Rightarrow> map_option ((#) (a, t)) (state_transitions_from_revm P eip161 rest))
      else state_transitions_from_revm P eip161 rest)"

section \<open>The write set\<close>

definition read_account_of :: "'au vmdb \<Rightarrow> location_hash \<Rightarrow> (account_basic \<times> b256 option) option" where
  "read_account_of db h = map_of (db_read_accounts db) h"

definition is_new_code :: "('bc, 'jt) revm_api \<Rightarrow> 'au vmdb \<Rightarrow> address \<Rightarrow> 'bc revm_account \<Rightarrow> bool" where
  "is_new_code P db a account \<longleftrightarrow>
     \<not> is_empty_code_hash P (ra_info account) \<and>
     (case read_account_of db (hash_deterministic P (LocBasic a)) of
        None \<Rightarrow> True
      | Some (_, code_hash) \<Rightarrow> code_hash = None)"

definition account_changed :: "('bc, 'jt) revm_api \<Rightarrow> 'au vmdb \<Rightarrow> address \<Rightarrow> 'bc revm_account \<Rightarrow> bool" where
  "account_changed P db a account \<longleftrightarrow>
     is_new_code P db a account \<or>
     (case read_account_of db (hash_deterministic P (LocBasic a)) of
        None \<Rightarrow> True
      | Some (basic, _) \<Rightarrow>
          ab_nonce basic \<noteq> ai_nonce (ra_info account) \<or> ab_balance basic \<noteq> ai_balance (ra_info account))"

text \<open>Lines 602--640: the write to the account's basic location.\<close>

definition basic_writes ::
  "('bc, 'jt) revm_api \<Rightarrow> bool \<Rightarrow> 'au vmdb \<Rightarrow> address \<Rightarrow> 'bc revm_account \<Rightarrow> write_set" where
  "basic_writes P eip161 db a account =
     (let h = hash_deterministic P (LocBasic a)
      in if \<not> account_changed P db a account then []
         else if db_is_lazy db then
           (if h = db_from_hash db then [(h, LazySender (- 1 - ai_balance (ra_info account)))]
            else if Some h = db_to_hash db then [(h, LazyRecipient (te_value (db_tx db)))]
            else [])
         else if \<not> eip161 \<or> \<not> account_is_empty P account then
           [(h, ValBasic \<lparr>ab_balance = ai_balance (ra_info account), ab_nonce = ai_nonce (ra_info account)\<rparr>)]
         else [])"

definition code_writes :: "('bc, 'jt) revm_api \<Rightarrow> 'au vmdb \<Rightarrow> address \<Rightarrow> 'bc revm_account \<Rightarrow> write_set" where
  "code_writes P db a account =
     (if is_new_code P db a account
      then [(hash_deterministic P (LocCodeHash a), ValCodeHash (ai_code_hash (ra_info account)))] else [])"

definition slot_writes :: "('bc, 'jt) revm_api \<Rightarrow> address \<Rightarrow> 'bc revm_account \<Rightarrow> write_set" where
  "slot_writes P a account =
     map (\<lambda>(slot, v). (hash_deterministic P (LocStorage a slot), ValStorage (present_value v)))
       (changed_storage_slots P account)"

definition account_writes ::
  "('bc, 'jt) revm_api \<Rightarrow> bool \<Rightarrow> 'au vmdb \<Rightarrow> address \<times> 'bc revm_account \<Rightarrow> write_set" where
  "account_writes P eip161 db = (\<lambda>(a, account).
     if ra_selfdestructed account then [(hash_deterministic P (LocCodeHash a), SelfDestructed)]
     else (if ra_touched account then basic_writes P eip161 db a account @ code_writes P db a account else []) @
       slot_writes P a account)"

text \<open>Lines 648--651: the code of a new contract is published under its hash; a missing code panics.\<close>

fun publish_codes ::
  "('bc, 'jt) revm_api \<Rightarrow> 'au vmdb \<Rightarrow> 'bc evm_state \<Rightarrow> (b256 \<rightharpoonup> 'bc) \<Rightarrow> (b256 \<rightharpoonup> 'bc) option" where
  "publish_codes P db [] codes = Some codes"
| "publish_codes P db ((a, account) # rest) codes =
     (let h = ai_code_hash (ra_info account)
      in if \<not> ra_selfdestructed account \<and> ra_touched account \<and> is_new_code P db a account \<and> codes h = None then
           (case ai_code (ra_info account) of
              None \<Rightarrow> None
            | Some code \<Rightarrow> publish_codes P db rest (codes(h \<mapsto> code)))
         else publish_codes P db rest codes)"

section \<open>Rewards\<close>

definition effective_gas_price :: "bool \<Rightarrow> u64 \<Rightarrow> 'au tx_env \<Rightarrow> u128" where
  "effective_gas_price eip161 basefee tx =
     (let price = (case te_gas_priority_fee tx of
                     Some fee \<Rightarrow> min (te_gas_price tx) (saturating_add fee (ucast basefee))
                   | None \<Rightarrow> te_gas_price tx)
      in if eip161 then saturating_sub price (ucast basefee) else price)"

fun credit :: "memory_value \<Rightarrow> u256 \<Rightarrow> memory_value option" where
  "credit (ValBasic b) amount = Some (ValBasic (b\<lparr>ab_balance := saturating_add (ab_balance b) amount\<rparr>))"
| "credit (LazySender x) amount = Some (LazySender (saturating_sub x amount))"
| "credit (LazyRecipient x) amount = Some (LazyRecipient (saturating_add x amount))"
| "credit v amount = None"

text \<open>Credit the first write to the location, or add a lazy one.\<close>

fun reward_write :: "location_hash \<Rightarrow> u256 \<Rightarrow> write_set \<Rightarrow> write_set option" where
  "reward_write h amount [] = Some [(h, LazyRecipient amount)]"
| "reward_write h amount ((l, v) # ws) =
     (if l = h then map_option (\<lambda>v'. (l, v') # ws) (credit v amount)
      else map_option ((#) (l, v)) (reward_write h amount ws))"

fun apply_rewards :: "(location_hash \<times> u256) list \<Rightarrow> write_set \<Rightarrow> write_set option" where
  "apply_rewards [] ws = Some ws"
| "apply_rewards ((h, amount) # rest) ws =
     (case reward_write h amount ws of None \<Rightarrow> None | Some ws' \<Rightarrow> apply_rewards rest ws')"

section \<open>Executing a transaction\<close>

text \<open>What the executor needs of the chain, the block and the EVM.\<close>

record ('bc, 'au, 'tx, 'lg) vm_env =
  ve_tx_env :: "'tx \<Rightarrow> 'au tx_env"
  ve_has_nonce :: "'tx \<Rightarrow> bool"
  ve_rewards :: "location_hash \<Rightarrow> u256 \<Rightarrow> u256 \<Rightarrow> u64 \<Rightarrow> 'tx \<Rightarrow> (location_hash \<times> u256) list"
  ve_eip161 :: bool
  ve_basefee :: u64
  ve_beneficiary :: address
  ve_evm :: "'tx \<Rightarrow> ('bc, evm_failure + 'lg exec_result \<times> 'bc evm_state) evm_run"

definition to_hash_of :: "('bc, 'jt) revm_api \<Rightarrow> 'au tx_env \<Rightarrow> location_hash option" where
  "to_hash_of P tx =
     (case te_kind tx of TxCall a \<Rightarrow> Some (hash_deterministic P (LocBasic a)) | TxCreate \<Rightarrow> None)"

text \<open>
  The database of a new worker (\<^verbatim>\<open>Vm::new\<close>), filled with mock values of the first transaction; \<open>set_tx\<close>
  replaces them before each execution.
\<close>

definition new_vmdb :: "('bc, 'au, 'tx, 'lg) vm_env \<Rightarrow> 'tx list \<Rightarrow> 'au vmdb" where
  "new_vmdb E txs =
     \<lparr>db_tx_idx = 0, db_tx = ve_tx_env E (txs ! 0), db_from_hash = 0, db_to_hash = None, db_to_code_hash = None,
      db_is_lazy = False, db_has_nonce = True, db_read_set = [], db_read_accounts = []\<rparr>"

text \<open>Prepare the database and run the EVM; no shared state is written yet.\<close>

definition vm_run ::
  "('bc, 'jt) revm_api \<Rightarrow> 'jt storage_api \<Rightarrow> ('bc, 'au, 'tx, 'lg) vm_env \<Rightarrow> (nat \<Rightarrow> 'bc mv_memory) \<Rightarrow>
   'au vmdb \<Rightarrow> tx_idx \<Rightarrow> 'tx \<Rightarrow>
   (read_error + (evm_failure + 'lg exec_result \<times> 'bc evm_state)) \<times> 'au vmdb" where
  "vm_run P S E M db i full_tx =
     (let tx = ve_tx_env E full_tx
      in case set_tx P S (M 0) db i tx (hash_deterministic P (LocBasic (te_caller tx))) (to_hash_of P tx)
                (ve_has_nonce E full_tx) of
           (Inl e, db1) \<Rightarrow> (Inl e, db1)
         | (Inr _, db1) \<Rightarrow> run_evm P S M (ve_evm E full_tx) 1 db1)"

text \<open>Lines 664--685: the rewards of a finished execution.\<close>

definition rewards_of ::
  "('bc, 'jt) revm_api \<Rightarrow> ('bc, 'au, 'tx, 'lg) vm_env \<Rightarrow> 'au vmdb \<Rightarrow> 'tx \<Rightarrow> 'lg exec_result \<Rightarrow>
   (location_hash \<times> u256) list" where
  "rewards_of P E db full_tx r =
     ve_rewards E (hash_deterministic P (LocBasic (ve_beneficiary E))) (ucast (er_gas_used r))
       (ucast (effective_gas_price (ve_eip161 E) (ve_basefee E) (db_tx db))) (ve_basefee E) full_tx"

definition write_set_of ::
  "('bc, 'jt) revm_api \<Rightarrow> ('bc, 'au, 'tx, 'lg) vm_env \<Rightarrow> 'au vmdb \<Rightarrow> 'tx \<Rightarrow> 'lg exec_result \<Rightarrow>
   'bc evm_state \<Rightarrow> write_set option" where
  "write_set_of P E db full_tx r state =
     apply_rewards (rewards_of P E db full_tx r) (concat (map (account_writes P (ve_eip161 E) db) state))"

definition finish_flags :: "tx_idx \<Rightarrow> bool \<Rightarrow> bool \<Rightarrow> finish_exec_flags" where
  "finish_flags i is_lazy wrote_new =
     (let flags = (if i > 0 \<and> \<not> is_lazy then NeedValidation else flags_empty)
      in if wrote_new then flags_union flags WroteNewLocation else flags)"

text \<open>
  The addresses a lazy transaction registers; \<open>None\<close> is the panic of \<^verbatim>\<open>tx.kind.to().unwrap()\<close>.
\<close>

definition lazy_addresses_of :: "'au vmdb \<Rightarrow> address list option" where
  "lazy_addresses_of db =
     (if db_is_lazy db then
        (case te_kind (db_tx db) of TxCall a \<Rightarrow> Some [te_caller (db_tx db), a] | TxCreate \<Rightarrow> None)
      else Some [])"

text \<open>
  Publish the result of a run in the memory \<open>mv\<close> and in the slot (lines 572--737). \<open>None\<close> is a panic.
\<close>

definition vm_commit ::
  "('bc, 'jt) revm_api \<Rightarrow> ('bc, 'au, 'tx, 'lg) vm_env \<Rightarrow> 'bc mv_memory \<Rightarrow> 'au vmdb \<Rightarrow> tx_version \<Rightarrow> 'tx \<Rightarrow>
   'lg exec_result \<Rightarrow> 'bc evm_state \<Rightarrow>
   ((vm_execution_error + finish_exec_flags \<times> ('jt, 'lg) tx_result) \<times> 'bc mv_memory) option" where
  "vm_commit P E mv db v full_tx r state =
     (case publish_codes P db state (new_bytecodes mv) of
        None \<Rightarrow> None
      | Some codes \<Rightarrow>
          (let mv1 = mv\<lparr>new_bytecodes := codes\<rparr>
           in case write_set_of P E db full_tx r state of
                None \<Rightarrow> Some (Inl (vm_error_from InvalidMemoryValueType), mv1)
              | Some ws \<Rightarrow>
                  (case lazy_addresses_of db of
                     None \<Rightarrow> None
                   | Some addrs \<Rightarrow>
                       (let (wrote_new, mv2) = mv_record (add_lazy_addresses mv1 addrs) v (db_read_set db) ws
                        in case state_transitions_from_revm P (ve_eip161 E) state of
                             None \<Rightarrow> None
                           | Some st \<Rightarrow>
                               Some (Inr (finish_flags (tx_idx v) (db_is_lazy db) wrote_new,
                                          \<lparr>tr_receipt = receipt_from_revm r, tr_state = st\<rparr>), mv2)))))"

text \<open>\<^verbatim>\<open>Vm::execute\<close>. \<open>M\<close> is what the reads see, \<open>mv\<close> the memory when the result is published.\<close>

definition vm_execute ::
  "('bc, 'jt) revm_api \<Rightarrow> 'jt storage_api \<Rightarrow> ('bc, 'au, 'tx, 'lg) vm_env \<Rightarrow> 'tx list \<Rightarrow>
   (nat \<Rightarrow> 'bc mv_memory) \<Rightarrow> 'bc mv_memory \<Rightarrow> 'au vmdb \<Rightarrow> tx_version \<Rightarrow>
   ((vm_execution_error + finish_exec_flags \<times> ('jt, 'lg) tx_result) \<times> 'bc mv_memory) option" where
  "vm_execute P S E txs M mv db v =
     (let full_tx = txs ! tx_idx v
      in case vm_run P S E M db (tx_idx v) full_tx of
           (Inl e, _) \<Rightarrow> Some (Inl (vm_error_from e), mv)
         | (Inr (Inr (r, state)), db1) \<Rightarrow> vm_commit P E mv db1 v full_tx r state
         | (Inr (Inl e), _) \<Rightarrow>
             Some (Inl (case e of
                LackOfFundForMaxFee _ _ \<Rightarrow>
                  if tx_idx v > 0 then VmBlocking (tx_idx v - 1) else ExecutionError (EvmFailure e)
              | NonceTooHigh _ _ \<Rightarrow>
                  if tx_idx v > 0 then VmBlocking (tx_idx v - 1) else ExecutionError (EvmFailure e)
              | OtherEvmError _ \<Rightarrow> ExecutionError (EvmFailure e)), mv))"

text \<open>
  The same with the decision to be lazy given: whether the locations of the sender and the recipient are present in the memory
  is the one thing an execution uses of the memory that its read set does not cover.
\<close>

definition vm_run_as ::
  "('bc, 'jt) revm_api \<Rightarrow> 'jt storage_api \<Rightarrow> ('bc, 'au, 'tx, 'lg) vm_env \<Rightarrow> bool \<Rightarrow> (nat \<Rightarrow> 'bc mv_memory) \<Rightarrow>
   'au vmdb \<Rightarrow> tx_idx \<Rightarrow> 'tx \<Rightarrow>
   (read_error + (evm_failure + 'lg exec_result \<times> 'bc evm_state)) \<times> 'au vmdb" where
  "vm_run_as P S E is_lazy M db i full_tx =
     (let tx = ve_tx_env E full_tx
      in case set_tx P S (M 0) db i tx (hash_deterministic P (LocBasic (te_caller tx))) (to_hash_of P tx)
                (ve_has_nonce E full_tx) of
           (Inl e, db1) \<Rightarrow> (Inl e, db1)
         | (Inr _, db1) \<Rightarrow> run_evm P S M (ve_evm E full_tx) 1 (db1\<lparr>db_is_lazy := is_lazy\<rparr>))"

section \<open>Validated runs are reproducible\<close>

lemma db_code_by_hash_state: "db_code_by_hash P S db h = (r, db') \<Longrightarrow> db' = db"
  by (auto simp: db_code_by_hash_def split: sum.splits option.splits)

lemma db_block_hash_state: "db_block_hash S db b = (r, db') \<Longrightarrow> db' = db"
  by (auto simp: db_block_hash_def)

text \<open>The locations a run accesses.\<close>

primrec run_locs ::
  "('bc, 'jt) revm_api \<Rightarrow> 'jt storage_api \<Rightarrow> (nat \<Rightarrow> 'bc mv_memory) \<Rightarrow> ('bc, 'r) evm_run \<Rightarrow>
   nat \<Rightarrow> 'au vmdb \<Rightarrow> memory_location list" where
  "run_locs P S M (EvmDone r) n db = []"
| "run_locs P S M (EvmBasic a k) n db =
     LocBasic a # LocCodeHash a #
     (case db_basic P S (M n) (M (n + 1)) db a of
        (Inl e, db1) \<Rightarrow> []
      | (Inr x, db1) \<Rightarrow> run_locs P S M (k x) (n + 2) db1)"
| "run_locs P S M (EvmStorage a i k) n db =
     LocStorage a i #
     (case db_storage P S (M n) db a i of
        (Inl e, db1) \<Rightarrow> []
      | (Inr x, db1) \<Rightarrow> run_locs P S M (k x) (n + 1) db1)"
| "run_locs P S M (EvmCode h k) n db =
     (case db_code_by_hash P S db h of
        (Inl e, db1) \<Rightarrow> []
      | (Inr x, db1) \<Rightarrow> run_locs P S M (k x) (n + 1) db1)"
| "run_locs P S M (EvmBlockHash b k) n db =
     (case db_block_hash S db b of
        (Inl e, db1) \<Rightarrow> []
      | (Inr x, db1) \<Rightarrow> run_locs P S M (k x) (n + 1) db1)"

text \<open>What a successful run leaves behind: an extended, well-formed database.\<close>

lemma run_evm_extends:
  assumes "run_evm P S M prog n db = (Inr r, db')" "db_wf P L db" "inj_on (hash_deterministic P) L"
    and "set (run_locs P S M prog n db) \<subseteq> L"
  shows "db_extends db db' \<and> db_wf P L db'"
  using assms(1,2,4)
proof (induction prog arbitrary: n db)
  case (EvmDone x)
  then show ?case by simp
next
  case (EvmBasic a k)
  obtain x db1 where q: "db_basic P S (M n) (M (n + 1)) db a = (Inr x, db1)"
    and rest: "run_evm P S M (k x) (n + 2) db1 = (Inr r, db')"
    using EvmBasic.prems(1) by (auto split: prod.splits sum.splits)
  have L: "LocBasic a \<in> L" "LocCodeHash a \<in> L" "set (run_locs P S M (k x) (n + 2) db1) \<subseteq> L"
    using EvmBasic.prems(3) q by simp_all
  note ok = db_basic_ok(1,2) [OF q EvmBasic.prems(2) L(1,2) assms(3)]
  from EvmBasic.IH [OF rangeI rest ok(2) L(3)] ok(1) db_extends_trans show ?case by blast
next
  case (EvmStorage a i k)
  obtain x db1 where q: "db_storage P S (M n) db a i = (Inr x, db1)"
    and rest: "run_evm P S M (k x) (n + 1) db1 = (Inr r, db')"
    using EvmStorage.prems(1) by (auto split: prod.splits sum.splits)
  have L: "LocStorage a i \<in> L" "set (run_locs P S M (k x) (n + 1) db1) \<subseteq> L"
    using EvmStorage.prems(3) q by simp_all
  note ok = db_storage_ok(1,2) [OF q EvmStorage.prems(2) L(1)]
  from EvmStorage.IH [OF rangeI rest ok(2) L(2)] ok(1) db_extends_trans show ?case by blast
next
  case (EvmCode h k)
  obtain x db1 where q: "db_code_by_hash P S db h = (Inr x, db1)"
    and rest: "run_evm P S M (k x) (n + 1) db1 = (Inr r, db')"
    using EvmCode.prems(1) by (auto split: prod.splits sum.splits)
  from EvmCode.IH [OF rangeI rest] EvmCode.prems(2,3) db_code_by_hash_state [OF q] q show ?case by simp
next
  case (EvmBlockHash b k)
  obtain x db1 where q: "db_block_hash S db b = (Inr x, db1)"
    and rest: "run_evm P S M (k x) (n + 1) db1 = (Inr r, db')"
    using EvmBlockHash.prems(1) by (auto split: prod.splits sum.splits)
  from EvmBlockHash.IH [OF rangeI rest] EvmBlockHash.prems(2,3) db_block_hash_state [OF q] q show ?case by simp
qed

lemma run_evm_transfer:
  assumes "run_evm P S M prog n db = (Inr r, db')" "db_wf P L db" "inj_on (hash_deterministic P) L"
    and "reads_match mv db'" "\<And>k. memories_agree P S (db_tx_idx db) K (M k) mv" "set_option (db_to_code_hash db) \<subseteq> K"
    and "set (run_locs P S M prog n db) \<subseteq> L"
  shows "run_evm P S (\<lambda>_. mv) prog n db = (Inr r, db') \<and> run_locs P S (\<lambda>_. mv) prog n db = run_locs P S M prog n db"
  using assms(1,2,5,6,7)
proof (induction prog arbitrary: n db)
  case (EvmDone x)
  then show ?case by simp
next
  case (EvmBasic a k)
  obtain x db1 where q: "db_basic P S (M n) (M (n + 1)) db a = (Inr x, db1)"
    and rest: "run_evm P S M (k x) (n + 2) db1 = (Inr r, db')"
    using EvmBasic.prems(1) by (auto split: prod.splits sum.splits)
  have L: "LocBasic a \<in> L" "LocCodeHash a \<in> L" "set (run_locs P S M (k x) (n + 2) db1) \<subseteq> L"
    using EvmBasic.prems(5) q by simp_all
  note ok = db_basic_ok [OF q EvmBasic.prems(2) L(1,2) assms(3)]
  have "reads_match mv db1"
    using run_evm_extends [OF rest ok(2) assms(3) L(3)] assms(4) reads_match_extends by blast
  with ok(3) [of mv K] EvmBasic.prems(3,4) have q': "db_basic P S mv mv db a = (Inr x, db1)" by blast
  have "db_tx_idx db1 = db_tx_idx db" "db_to_code_hash db1 = db_to_code_hash db" using ok(1) by (simp_all add: db_extends_def)
  with EvmBasic.IH [OF rangeI rest ok(2) _ _ L(3)] EvmBasic.prems(3,4) q q' show ?case by simp
next
  case (EvmStorage a i k)
  obtain x db1 where q: "db_storage P S (M n) db a i = (Inr x, db1)"
    and rest: "run_evm P S M (k x) (n + 1) db1 = (Inr r, db')"
    using EvmStorage.prems(1) by (auto split: prod.splits sum.splits)
  have L: "LocStorage a i \<in> L" "set (run_locs P S M (k x) (n + 1) db1) \<subseteq> L"
    using EvmStorage.prems(5) q by simp_all
  note ok = db_storage_ok [OF q EvmStorage.prems(2) L(1)]
  have "reads_match mv db1"
    using run_evm_extends [OF rest ok(2) assms(3) L(2)] assms(4) reads_match_extends by blast
  with ok(3) [of mv K] EvmStorage.prems(3) have q': "db_storage P S mv db a i = (Inr x, db1)" by blast
  have "db_tx_idx db1 = db_tx_idx db" "db_to_code_hash db1 = db_to_code_hash db" using ok(1) by (simp_all add: db_extends_def)
  with EvmStorage.IH [OF rangeI rest ok(2) _ _ L(2)] EvmStorage.prems(3,4) q q' show ?case by simp
next
  case (EvmCode h k)
  obtain x db1 where q: "db_code_by_hash P S db h = (Inr x, db1)"
    and rest: "run_evm P S M (k x) (n + 1) db1 = (Inr r, db')"
    using EvmCode.prems(1) by (auto split: prod.splits sum.splits)
  from EvmCode.IH [OF rangeI rest] EvmCode.prems(2-5) db_code_by_hash_state [OF q] q show ?case by simp
next
  case (EvmBlockHash b k)
  obtain x db1 where q: "db_block_hash S db b = (Inr x, db1)"
    and rest: "run_evm P S M (k x) (n + 1) db1 = (Inr r, db')"
    using EvmBlockHash.prems(1) by (auto split: prod.splits sum.splits)
  from EvmBlockHash.IH [OF rangeI rest] EvmBlockHash.prems(2-5) db_block_hash_state [OF q] q show ?case by simp
qed

section \<open>Where errors point\<close>

lemma read_back_blocking: "read_back t i prev acc = Inl (Blocking b) \<Longrightarrow> b < i"
proof (induction i arbitrary: acc rule: less_induct)
  case (less i)
  show ?case
  proof (cases t i rule: next_back_cases)
    case (data k inc v)
    with less.prems less.IH [OF data(2)] show ?thesis
      by (cases v) (auto simp: read_back_steps split: if_splits intro: less_trans)
  qed (use less.prems in \<open>auto simp: read_back_steps\<close>)
qed

lemma read_from_error: "read_from db h ro ans = (Inl e, db') \<Longrightarrow> e = InconsistentRead \<or> ans = Inl e"
proof -
  have "e = InconsistentRead" if "push_origin prev ro = Inl e" for prev e
    using that by (cases prev) (auto split: if_splits)
  then show "read_from db h ro ans = (Inl e, db') \<Longrightarrow> e = InconsistentRead \<or> ans = Inl e"
    by (auto simp: read_from_def split: sum.splits)
qed

lemma storage_result_error: "storage_result r = Inl e \<Longrightarrow> \<exists>s. e = StorageError s"
  by (auto simp: storage_result_def split: sum.splits)

lemma get_code_hash_error:
  "get_code_hash P S mv db a = (Inl e, db') \<Longrightarrow>
   e = InconsistentRead \<or> e = SelfDestructedAccount \<or> (\<exists>s. e = StorageError s)"
  by (auto simp: get_code_hash_def Let_def dest!: read_from_error storage_result_error
      split: option.splits memory_entry.splits memory_value.splits)

lemma read_versions_error: "read_versions mv h i prev = Inl (Blocking b) \<Longrightarrow> b < i"
  unfolding read_versions_eq by (rule read_back_blocking)

lemma read_fallback_error:
  "read_fallback S a prev fa = Inl e \<Longrightarrow> e = InconsistentRead \<or> (\<exists>s. e = StorageError s)"
  by (auto simp: read_fallback_def split: prod.splits option.splits if_splits sum.splits)

lemma finish_basic_error:
  "finish_basic P S mv db a h account = (Inl e, db') \<Longrightarrow>
   e = InconsistentRead \<or> e = SelfDestructedAccount \<or> (\<exists>s. e = StorageError s)"
  by (auto simp: finish_basic_def read_code_def split: if_splits prod.splits sum.splits option.splits
      dest!: get_code_hash_error)

lemma db_basic_blocking:
  assumes "db_basic P S mv mvc db a = (Inl (Blocking b), db')"
  shows "b < db_tx_idx db"
proof -
  from assms have rd: "db_basic_read P S mv mvc db a (hash_basic P db a) = (Inl (Blocking b), db')"
    by (auto simp: db_basic_def Let_def split: if_splits)
  let ?h = "hash_basic P db a" and ?prev = "read_origins_of (db_read_set db) (hash_basic P db a)"
  show ?thesis
  proof (cases "read_versions mv ?h (db_tx_idx db) ?prev")
    case (Inl e)
    with rd have "read_versions mv ?h (db_tx_idx db) ?prev = Inl (Blocking b)" by (simp add: db_basic_read_def)
    then show ?thesis by (rule read_versions_error)
  next
    case (Inr fa)
    obtain found acc where fa: "fa = (found, acc)" by (cases fa)
    with rd Inr obtain final origins where "read_fallback S a ?prev (found, acc) = Inr (final, origins)"
      by (auto simp: db_basic_read_def Let_def dest: read_fallback_error split: sum.splits)
    with rd Inr fa obtain db2 where "settle_basic P S mvc db2 a ?h acc final = (Inl (Blocking b), db')"
      and "db_tx_idx db2 = db_tx_idx db"
      by (auto simp: db_basic_read_def Let_def touch_def split: if_splits)
    then show ?thesis
      by (auto simp: settle_basic_def Let_def dest: finish_basic_error split: option.splits if_splits)
  qed
qed

lemma db_storage_blocking:
  assumes "db_storage P S mv db a i = (Inl (Blocking b), db')"
  shows "b < db_tx_idx db"
  using assms unfolding db_storage_def Let_def closest_pos_eq
  by (auto dest!: read_from_error storage_result_error dest: next_back_less
      split: option.splits memory_entry.splits memory_value.splits)

lemma db_code_by_hash_error: "db_code_by_hash P S db h = (Inl e, db') \<Longrightarrow> \<exists>s. e = StorageError s"
  by (auto simp: db_code_by_hash_def split: sum.splits option.splits)

lemma db_block_hash_error: "db_block_hash S db n = (Inl e, db') \<Longrightarrow> \<exists>s. e = StorageError s"
  by (auto simp: db_block_hash_def dest: storage_result_error)

lemma touch_idx [simp]: "db_tx_idx (touch db h) = db_tx_idx db"
  by (simp add: touch_def)

lemma read_from_idx: "read_from db h ro ans = (r, db') \<Longrightarrow> db_tx_idx db' = db_tx_idx db"
  by (auto simp: read_from_def split: sum.splits)

lemma get_code_hash_idx: "get_code_hash P S mv db a = (r, db') \<Longrightarrow> db_tx_idx db' = db_tx_idx db"
  by (auto simp: get_code_hash_def Let_def dest!: read_from_idx
      split: option.splits memory_entry.splits memory_value.splits)

lemma finish_basic_idx: "finish_basic P S mv db a h account = (r, db') \<Longrightarrow> db_tx_idx db' = db_tx_idx db"
  by (auto simp: finish_basic_def dest!: get_code_hash_idx split: prod.splits sum.splits if_splits)

lemma db_basic_idx:
  assumes "db_basic P S mv mvc db a = (r, db')"
  shows "db_tx_idx db' = db_tx_idx db"
proof -
  have settle: "db_tx_idx db2 = db_tx_idx db1" if "settle_basic P S mvc db1 a h acc final = (r, db2)"
    for db1 db2 h acc final
    using that by (auto simp: settle_basic_def Let_def dest!: finish_basic_idx split: option.splits if_splits)
  have "db_tx_idx db' = db_tx_idx db" if "db_basic_read P S mv mvc db a h = (r, db')" for h
    using that unfolding db_basic_read_def Let_def by (auto dest!: settle split: sum.splits prod.splits if_splits)
  with assms show ?thesis by (auto simp: db_basic_def Let_def split: if_splits)
qed

lemma db_storage_idx: "db_storage P S mv db a i = (r, db') \<Longrightarrow> db_tx_idx db' = db_tx_idx db"
  unfolding db_storage_def Let_def
  by (auto dest!: read_from_idx split: option.splits memory_entry.splits memory_value.splits)

lemma run_evm_blocking:
  "run_evm P S M prog n db = (Inl (Blocking b), db') \<Longrightarrow> b < db_tx_idx db"
proof (induction prog arbitrary: n db)
  case (EvmBasic a k)
  then show ?case
    by (auto simp: db_basic_idx dest: db_basic_blocking split: prod.splits sum.splits)
       (metis db_basic_idx rangeI)
next
  case (EvmStorage a i k)
  then show ?case
    by (auto dest: db_storage_blocking split: prod.splits sum.splits) (metis db_storage_idx rangeI)
next
  case (EvmCode h k)
  then show ?case
    by (auto dest: db_code_by_hash_error split: prod.splits sum.splits) (metis db_code_by_hash_state rangeI)
next
  case (EvmBlockHash x k)
  then show ?case
    by (auto dest: db_block_hash_error split: prod.splits sum.splits) (metis db_block_hash_state rangeI)
qed simp

section \<open>The transaction of the database\<close>

text \<open>No query changes the transaction of the database.\<close>

definition tx_key :: "'au vmdb \<Rightarrow> 'au tx_env \<times> location_hash \<times> location_hash option" where
  "tx_key db = (db_tx db, db_from_hash db, db_to_hash db)"

lemma hash_basic_key: "tx_key db' = tx_key db \<Longrightarrow> hash_basic P db' a = hash_basic P db a"
  by (simp add: tx_key_def hash_basic_def)

lemma tx_key_updates [simp]:
  "tx_key (db\<lparr>db_read_set := rs\<rparr>) = tx_key db" "tx_key (db\<lparr>db_read_accounts := ra\<rparr>) = tx_key db" "tx_key (touch db h) = tx_key db"
  by (simp_all add: tx_key_def touch_def)

lemma read_from_key: "read_from db h ro ans = (r, db') \<Longrightarrow> tx_key db' = tx_key db"
  by (auto simp: read_from_def split: sum.splits)

lemma get_code_hash_key: "get_code_hash P S mv db a = (r, db') \<Longrightarrow> tx_key db' = tx_key db"
  by (auto simp: get_code_hash_def Let_def dest!: read_from_key split: option.splits memory_entry.splits memory_value.splits)

lemma db_storage_key: "db_storage P S mv db a i = (r, db') \<Longrightarrow> tx_key db' = tx_key db"
  unfolding db_storage_def Let_def
  by (auto dest!: read_from_key split: option.splits memory_entry.splits memory_value.splits)

lemma db_basic_key:
  assumes "db_basic P S mv mvc db a = (r, db')"
  shows "tx_key db' = tx_key db"
proof -
  have "tx_key db2 = tx_key db1" if "finish_basic P S mvc db1 a h account = (r, db2)" for db1 db2 h account
    using that by (auto simp: finish_basic_def dest!: get_code_hash_key split: prod.splits sum.splits if_splits)
  then have settle: "tx_key db2 = tx_key db1" if "settle_basic P S mvc db1 a h acc final = (r, db2)" for db1 db2 h acc final
    using that by (auto simp: settle_basic_def Let_def split: option.splits if_splits)
  have "tx_key db' = tx_key db" if "db_basic_read P S mv mvc db a h = (r, db')" for h
    using that unfolding db_basic_read_def Let_def by (auto dest!: settle split: sum.splits prod.splits if_splits)
  with assms show ?thesis by (auto simp: db_basic_def Let_def split: if_splits)
qed

lemma run_evm_key: "run_evm P S M prog n db = (r, db') \<Longrightarrow> tx_key db' = tx_key db"
proof (induction prog arbitrary: n db)
  case (EvmBasic a k)
  then show ?case using db_basic_key by (fastforce split: prod.splits sum.splits)
next
  case (EvmStorage a i k)
  then show ?case using db_storage_key by (fastforce split: prod.splits sum.splits)
next
  case (EvmCode h k)
  then show ?case using db_code_by_hash_state by (fastforce split: prod.splits sum.splits)
next
  case (EvmBlockHash b k)
  then show ?case using db_block_hash_state by (fastforce split: prod.splits sum.splits)
qed simp

lemma set_tx_key: "set_tx P S mv db i tx from_hash to_hash hn = (r, db') \<Longrightarrow> tx_key db' = (tx, from_hash, to_hash)"
  by (auto simp: set_tx_def Let_def tx_key_def split: tx_kind.splits prod.splits sum.splits dest!: get_code_hash_key)

lemma vm_run_tx:
  assumes "vm_run P S E M db i full_tx = (r, db')" shows "db_tx db' = ve_tx_env E full_tx"
proof -
  have "tx_key db' = (ve_tx_env E full_tx, hash_deterministic P (LocBasic (te_caller (ve_tx_env E full_tx))), to_hash_of P (ve_tx_env E full_tx))"
    using assms by (auto simp: vm_run_def Let_def split: prod.splits sum.splits dest!: set_tx_key run_evm_key)
  then show ?thesis by (simp add: tx_key_def)
qed

end
