(* ===== verification/Vm_Sample.thy ===== *)
theory Vm_Sample
  imports Vm
begin

text \<open>
  A concrete block executed step by step: the inputs at which the properties of the executor are
  instantiated.
\<close>

section \<open>A sample block\<close>

text \<open>
  Two transactions from accounts 10 and 11 that each pay 100 for gas and add one to slot 1 of the
  contract at address 50. The beneficiary is account 99.
\<close>

definition sample_tx :: "nat \<Rightarrow> unit tx_env" where
  "sample_tx n =
     \<lparr>te_tx_type = 0, te_caller = 10 + of_nat n, te_gas_limit = 100, te_gas_price = 1, te_gas_priority_fee = None,
      te_kind = TxCall 50, te_value = 0, te_data = [], te_nonce = 0, te_chain_id = None, te_access_list = [],
      te_blob_hashes = [], te_max_fee_per_blob_gas = 0, te_authorization_list = []\<rparr>"

definition sample_account :: "u256 \<Rightarrow> b256 option \<Rightarrow> (u256 \<times> u256) list \<Rightarrow> bool list evm_account" where
  "sample_account balance code_hash slots =
     \<lparr>acc_balance = balance, acc_nonce = 0, acc_code_hash = code_hash, acc_code = None, acc_storage = slots\<rparr>"

definition sample_storage :: "bool list storage_api" where
  "sample_storage = in_memory_api sample_api
     (in_memory_new (Map.empty(10 \<mapsto> sample_account 1000 None [], 11 \<mapsto> sample_account 1000 None [],
        50 \<mapsto> sample_account 0 (Some 5) [(1, 7)])) Map.empty Map.empty)"

definition sample_state :: "address \<Rightarrow> sample_code account_info option \<Rightarrow> u256 \<Rightarrow> sample_code evm_state" where
  "sample_state sender info v =
     [(sender, \<lparr>ra_info = (case info of
                  Some acc \<Rightarrow> acc\<lparr>ai_balance := ai_balance acc - 100, ai_nonce := ai_nonce acc + 1\<rparr>
                | None \<Rightarrow> \<lparr>ai_balance = 0, ai_nonce = 1, ai_code_hash = 77, ai_code = None\<rparr>),
                ra_storage = [], ra_touched = True, ra_selfdestructed = False\<rparr>),
      (50, \<lparr>ra_info = \<lparr>ai_balance = 0, ai_nonce = 0, ai_code_hash = 77, ai_code = None\<rparr>,
            ra_storage = [(1, \<lparr>original_value = v, present_value = v + 1\<rparr>)],
            ra_touched = False, ra_selfdestructed = False\<rparr>)]"

definition sample_evm :: "nat \<Rightarrow> (sample_code, evm_failure + unit exec_result \<times> sample_code evm_state) evm_run" where
  "sample_evm n =
     EvmBasic (te_caller (sample_tx n)) (\<lambda>info.
     EvmStorage 50 1 (\<lambda>v.
     EvmDone (Inr (\<lparr>er_success = True, er_gas_used = 100, er_logs = []\<rparr>, sample_state (te_caller (sample_tx n)) info v))))"

definition sample_env :: "(sample_code, unit, nat, unit) vm_env" where
  "sample_env =
     \<lparr>ve_tx_env = sample_tx, ve_has_nonce = (\<lambda>_. True), ve_rewards = (\<lambda>h gas price _ _. [(h, gas * price)]),
      ve_eip161 = True, ve_basefee = 0, ve_beneficiary = 99, ve_evm = sample_evm\<rparr>"

definition sample_db :: "unit vmdb" where
  "sample_db = new_vmdb sample_env [0, 1]"

definition sample_mv :: "sample_code mv_memory" where
  "sample_mv = mv_new 2 [(396, [0, 1])] [99]"

definition sample_run :: "sample_code mv_memory \<Rightarrow> nat \<Rightarrow>
   (read_error + (evm_failure + unit exec_result \<times> sample_code evm_state)) \<times> unit vmdb" where
  "sample_run mv n = vm_run sample_api sample_storage sample_env (\<lambda>_. mv) sample_db n n"

definition sample_step :: "sample_code mv_memory \<Rightarrow> nat \<Rightarrow>
   ((vm_execution_error + finish_exec_flags \<times> (bool list, unit) tx_result) \<times> sample_code mv_memory) option" where
  "sample_step mv n = vm_execute sample_api sample_storage sample_env [0, 1] (\<lambda>_. mv) mv sample_db \<lparr>tx_idx = n, tx_incarnation = 0\<rparr>"

lemmas sample_defs = sample_tx_def sample_account_def sample_storage_def sample_state_def sample_evm_def
  sample_env_def sample_db_def new_vmdb_def sample_mv_def sample_api_def in_memory_api_def in_memory_new_def im_basic_def
  im_code_hash_def im_code_by_hash_def im_storage_def


lemmas vm_run_defs = vm_run_def set_tx_def get_code_hash_def Let_def
    closest_def mv_new_def touch_def read_from_def storage_result_def read_origins_of_def to_hash_of_def
    db_basic_def db_basic_read_def hash_basic_def read_versions_def read_fallback_def settle_basic_def
    finish_basic_def read_code_def db_storage_def estimate_tree_def lazy_acc_init_def evaluate_balance_def

lemmas vm_execute_defs = vm_execute_def vm_commit_def write_set_of_def rewards_of_def account_writes_def basic_writes_def
  code_writes_def slot_writes_def account_changed_def is_new_code_def read_account_of_def effective_gas_price_def
  lazy_addresses_of_def finish_flags_def mv_record_def remove_stale.simps add_lazy_addresses_def tree_insert_def
  receipt_from_revm_def transition_from_def evm_account_from_def

lemma replicate_two: "replicate 2 x = [x, x]"
  by (simp add: numeral_2_eq_2)

text \<open>The memory after the first transaction, and after both.\<close>

definition sample_mv1 :: "sample_code mv_memory" where
  "sample_mv1 =
     \<lparr>mv_data = [40 \<mapsto> [0 \<mapsto> Data 0 (ValBasic \<lparr>ab_balance = 900, ab_nonce = 1\<rparr>)],
                 13107206 \<mapsto> [0 \<mapsto> Data 0 (ValStorage 8)],
                 396 \<mapsto> (estimate_tree [0, 1])(0 \<mapsto> Data 0 (LazyRecipient 100))],
      last_locations =
        [\<lparr>ll_read = [(201, [StorageOrigin]), (40, [StorageOrigin]), (41, [StorageOrigin]), (13107206, [StorageOrigin])],
          ll_write = [40, 13107206, 396]\<rparr>, \<lparr>ll_read = [], ll_write = []\<rparr>],
      lazy_addresses = [99], new_bytecodes = Map.empty\<rparr>"

definition sample_reads1 :: read_set where
  "sample_reads1 = [(201, [StorageOrigin]), (44, [StorageOrigin]), (45, [StorageOrigin]),
     (13107206, [MvMemory \<lparr>tx_idx = 0, tx_incarnation = 0\<rparr>])]"

definition sample_writes1 :: write_set where
  "sample_writes1 = [(44, ValBasic \<lparr>ab_balance = 900, ab_nonce = 1\<rparr>), (13107206, ValStorage 9), (396, LazyRecipient 100)]"

definition sample_mv2 :: "sample_code mv_memory" where
  "sample_mv2 = snd (mv_record sample_mv1 \<lparr>tx_idx = 1, tx_incarnation = 0\<rparr> sample_reads1 sample_writes1)"

lemma sample_step_0:
  "\<exists>flags res. sample_step sample_mv 0 = Some (Inr (flags, res), sample_mv1) \<and>
     wrote_new_location flags \<and> \<not> needs_validation flags \<and> rc_cumulative_gas_used (tr_receipt res) = 100"
  by (simp add: sample_step_def sample_mv1_def vm_execute_defs sample_defs vm_run_defs replicate_two)

lemma sample_run_1:
  "\<exists>r db'. sample_run sample_mv1 1 = (Inr r, db') \<and> db_read_set db' = sample_reads1 \<and>
     db_to_code_hash db' = Some 5 \<and> \<not> db_is_lazy db'"
  by (simp add: sample_run_def sample_mv1_def sample_reads1_def sample_defs vm_run_defs)

lemma sample_step_1:
  "\<exists>flags res. sample_step sample_mv1 1 = Some (Inr (flags, res), sample_mv2) \<and>
     wrote_new_location flags \<and> needs_validation flags"
  by (simp add: sample_step_def sample_mv1_def sample_mv2_def sample_reads1_def sample_writes1_def
      vm_execute_defs sample_defs vm_run_defs replicate_two)

lemma sample_mv1_wf: "mv_wf 2 sample_mv1"
proof -
  have "mv_wf 2 sample_mv" unfolding sample_mv_def by (rule mv_wf_new) simp
  moreover have "sample_mv1 = snd (mv_record sample_mv \<lparr>tx_idx = 0, tx_incarnation = 0\<rparr>
      (ll_read (last_locations sample_mv1 ! 0))
      [(40, ValBasic \<lparr>ab_balance = 900, ab_nonce = 1\<rparr>), (13107206, ValStorage 8), (396, LazyRecipient 100)])"
    by (simp add: sample_mv1_def sample_mv_def mv_new_def mv_record_def remove_stale.simps Let_def
        tree_insert_def estimate_tree_def replicate_two)
  ultimately show ?thesis using mv_record_frame(1) [of 2 sample_mv "\<lparr>tx_idx = 0, tx_incarnation = 0\<rparr>"] by (metis tx_version.select_convs(1) zero_less_numeral)
qed

end
