(* ===== verification/Chain.thy ===== *)
theory Chain
  imports Vm_Sample "HOL-Library.List_Lexorder" "HOL-Library.Product_Lexorder"
begin

text \<open>
  The chains of \<^verbatim>\<open>crates/pevm/src/chain.rs\<close>, \<^verbatim>\<open>chain/ethereum.rs\<close>, \<^verbatim>\<open>chain/rise.rs\<close> and the block
  environment of \<^verbatim>\<open>compat.rs\<close>. The transaction, header and receipt types belong to third-party packages:
  the records below hold what the crate reads of them, and the functions it calls on them (encodings,
  the trie builder, constants) are parameters.
\<close>

section \<open>Specifications\<close>

text \<open>The hard forks of the EVM package that the crate names, in their documented order.\<close>

datatype spec_id = FRONTIER | HOMESTEAD | TANGERINE | SPURIOUS_DRAGON | BYZANTIUM | PETERSBURG | ISTANBUL
  | BERLIN | LONDON | MERGE | SHANGHAI | CANCUN | PRAGUE

fun spec_rank :: "spec_id \<Rightarrow> nat" where
  "spec_rank FRONTIER = 0" | "spec_rank HOMESTEAD = 1" | "spec_rank TANGERINE = 2" | "spec_rank SPURIOUS_DRAGON = 3"
| "spec_rank BYZANTIUM = 4" | "spec_rank PETERSBURG = 5" | "spec_rank ISTANBUL = 6" | "spec_rank BERLIN = 7"
| "spec_rank LONDON = 8" | "spec_rank MERGE = 9" | "spec_rank SHANGHAI = 10" | "spec_rank CANCUN = 11" | "spec_rank PRAGUE = 12"

lemma spec_rank_inj: "spec_rank a = spec_rank b \<Longrightarrow> a = b"
  by (cases a; cases b; simp)

instantiation spec_id :: linorder
begin

definition less_eq_spec_id :: "spec_id \<Rightarrow> spec_id \<Rightarrow> bool" where
  "a \<le> b \<longleftrightarrow> spec_rank a \<le> spec_rank b"

definition less_spec_id :: "spec_id \<Rightarrow> spec_id \<Rightarrow> bool" where
  "a < b \<longleftrightarrow> spec_rank a < spec_rank b"

instance
  by standard (auto simp: less_eq_spec_id_def less_spec_id_def intro: spec_rank_inj)

end

lemmas spec_order = less_eq_spec_id_def less_spec_id_def

section \<open>Headers and block environments\<close>

record header =
  hd_number :: u64
  hd_timestamp :: u64
  hd_beneficiary :: address
  hd_gas_limit :: u64
  hd_gas_used :: u64
  hd_base_fee_per_gas :: "u64 option"
  hd_difficulty :: u256
  hd_mix_hash :: b256
  hd_excess_blob_gas :: "u64 option"

record 'bp block_env =
  be_number :: u256
  be_beneficiary :: address
  be_timestamp :: u256
  be_gas_limit :: u64
  be_basefee :: u64
  be_difficulty :: u256
  be_prevrandao :: "b256 option"
  be_blob_excess_gas_and_price :: "'bp option"
  be_slot_num :: u64

text \<open>The blob price and the constants it depends on belong to the EVM package.\<close>

record 'bp blob_api =
  blob_new :: "u64 \<Rightarrow> u64 \<Rightarrow> 'bp"
  blob_fraction_cancun :: u64
  blob_fraction_prague :: u64

definition get_block_env :: "'bp blob_api \<Rightarrow> header \<Rightarrow> spec_id \<Rightarrow> 'bp block_env" where
  "get_block_env B header spec =
     \<lparr>be_number = ucast (hd_number header), be_beneficiary = hd_beneficiary header,
      be_timestamp = ucast (hd_timestamp header), be_gas_limit = hd_gas_limit header,
      be_basefee = (case hd_base_fee_per_gas header of Some fee \<Rightarrow> fee | None \<Rightarrow> 0),
      be_difficulty = hd_difficulty header, be_prevrandao = Some (hd_mix_hash header),
      be_blob_excess_gas_and_price =
        map_option (\<lambda>excess. blob_new B excess
          (if PRAGUE \<le> spec then blob_fraction_prague B else blob_fraction_cancun B)) (hd_excess_blob_gas header),
      be_slot_num = 0\<rparr>"

section \<open>Ethereum\<close>

datatype tx_type = TxLegacy | TxEip2930 | TxEip1559 | TxEip4844 | TxEip7702

text \<open>What the crate reads of a signed transaction; \<open>'sa\<close> is the type of a signed authorization.\<close>

record ('ty, 'sa) signed_tx =
  sg_type :: 'ty
  sg_signer :: address
  sg_gas_limit :: u64
  sg_gas_price :: "u128 option"
  sg_max_fee_per_gas :: u128
  sg_max_priority_fee_per_gas :: "u128 option"
  sg_kind :: tx_kind
  sg_value :: u256
  sg_input :: "u8 list"
  sg_nonce :: u64
  sg_chain_id :: "u64 option"
  sg_access_list :: "(address \<times> b256 list) list option"
  sg_blob_versioned_hashes :: "b256 list option"
  sg_max_fee_per_blob_gas :: "u128 option"
  sg_authorization_list :: "'sa list option"

abbreviation unwrap_or :: "'a \<Rightarrow> 'a option \<Rightarrow> 'a" where
  "unwrap_or d x \<equiv> (case x of Some y \<Rightarrow> y | None \<Rightarrow> d)"

datatype parsing_error = MissingGasPrice

definition get_ethereum_gas_price :: "(tx_type, 'sa) signed_tx \<Rightarrow> parsing_error + u128" where
  "get_ethereum_gas_price tx =
     (if sg_type tx \<in> {TxLegacy, TxEip2930}
      then (case sg_gas_price tx of Some p \<Rightarrow> Inr p | None \<Rightarrow> Inl MissingGasPrice)
      else Inr (sg_max_fee_per_gas tx))"

text \<open>The fields both chains fill the same way; \<open>type_byte\<close> is the number of a transaction type.\<close>

definition base_tx_env :: "('ty \<Rightarrow> u8) \<Rightarrow> ('ty, 'sa) signed_tx \<Rightarrow> u128 \<Rightarrow> ('sa + 'ra) tx_env" where
  "base_tx_env type_byte tx gas_price =
     \<lparr>te_tx_type = type_byte (sg_type tx), te_caller = sg_signer tx, te_gas_limit = sg_gas_limit tx,
      te_gas_price = gas_price, te_gas_priority_fee = sg_max_priority_fee_per_gas tx, te_kind = sg_kind tx,
      te_value = sg_value tx, te_data = sg_input tx, te_nonce = sg_nonce tx, te_chain_id = sg_chain_id tx,
      te_access_list = unwrap_or [] (sg_access_list tx), te_blob_hashes = unwrap_or [] (sg_blob_versioned_hashes tx),
      te_max_fee_per_blob_gas = unwrap_or 0 (sg_max_fee_per_blob_gas tx),
      te_authorization_list = unwrap_or [] (map_option (map Inl) (sg_authorization_list tx))\<rparr>"

definition eth_get_tx_env :: "(tx_type \<Rightarrow> u8) \<Rightarrow> (tx_type, 'sa) signed_tx \<Rightarrow> parsing_error + ('sa + 'ra) tx_env" where
  "eth_get_tx_env type_byte tx = map_sum id (base_tx_env type_byte tx) (get_ethereum_gas_price tx)"

definition eth_get_block_spec :: "header \<Rightarrow> spec_id" where
  "eth_get_block_spec header =
     (if hd_timestamp header \<ge> 1710338135 then CANCUN
      else if hd_timestamp header \<ge> 1681338455 then SHANGHAI
      else if hd_number header \<ge> 15537394 then MERGE
      else if hd_number header \<ge> 12965000 then LONDON
      else if hd_number header \<ge> 12244000 then BERLIN
      else if hd_number header \<ge> 9069000 then ISTANBUL
      else if hd_number header \<ge> 7280000 then PETERSBURG
      else if hd_number header \<ge> 4370000 then BYZANTIUM
      else if hd_number header \<ge> 2675000 then SPURIOUS_DRAGON
      else if hd_number header \<ge> 2463000 then TANGERINE
      else if hd_number header \<ge> 1150000 then HOMESTEAD
      else FRONTIER)"

definition eth_build_mv_memory :: "('bc, 'jt) revm_api \<Rightarrow> address \<Rightarrow> 'tx list \<Rightarrow> 'bc mv_memory" where
  "eth_build_mv_memory P beneficiary txs =
     mv_new (length txs) [(hash_deterministic P (LocBasic beneficiary), [0..<length txs])] [beneficiary]"

definition eth_get_rewards :: "location_hash \<Rightarrow> u256 \<Rightarrow> u256 \<Rightarrow> u64 \<Rightarrow> 'tx \<Rightarrow> (location_hash \<times> u256) list" where
  "eth_get_rewards beneficiary_hash gas_used gas_price basefee tx =
     [(beneficiary_hash, saturating_mul gas_price gas_used)]"

definition eth_is_eip_1559_enabled :: "spec_id \<Rightarrow> bool" where
  "eth_is_eip_1559_enabled spec \<longleftrightarrow> LONDON \<le> spec"

definition eth_is_eip_161_enabled :: "spec_id \<Rightarrow> bool" where
  "eth_is_eip_161_enabled spec \<longleftrightarrow> SPURIOUS_DRAGON \<le> spec"

section \<open>RISE\<close>

datatype op_tx_type = OpLegacy | OpEip2930 | OpEip1559 | OpEip7702 | OpDeposit | OpPostExec

definition get_gas_price :: "(op_tx_type, 'sa) signed_tx \<Rightarrow> parsing_error + u128" where
  "get_gas_price tx =
     (case sg_type tx of
        OpLegacy \<Rightarrow> (case sg_gas_price tx of Some p \<Rightarrow> Inr p | None \<Rightarrow> Inl MissingGasPrice)
      | OpEip2930 \<Rightarrow> (case sg_gas_price tx of Some p \<Rightarrow> Inr p | None \<Rightarrow> Inl MissingGasPrice)
      | OpEip1559 \<Rightarrow> Inr (sg_max_fee_per_gas tx)
      | OpEip7702 \<Rightarrow> Inr (sg_max_fee_per_gas tx)
      | OpDeposit \<Rightarrow> Inr 0
      | OpPostExec \<Rightarrow> Inr 0)"

record deposit_parts =
  dp_source_hash :: b256
  dp_mint :: "u128 option"
  dp_is_system :: bool

record 'au op_tx =
  op_base :: "'au tx_env"
  op_enveloped_tx :: "u8 list option"
  op_deposit :: deposit_parts

text \<open>
  The OP packages: which transactions are deposits, the deposit of a signed transaction, its encoding
  and the addresses of the fee recipients.
\<close>

record ('au, 'sa) op_api =
  op_is_deposit :: "'au op_tx \<Rightarrow> bool"
  op_as_deposit :: "(op_tx_type, 'sa) signed_tx \<Rightarrow> (b256 \<times> u128 \<times> bool) option"
  op_encoded :: "(op_tx_type, 'sa) signed_tx \<Rightarrow> u8 list"
  op_type_byte :: "op_tx_type \<Rightarrow> u8"
  base_fee_recipient :: address
  l1_fee_recipient :: address
  operator_fee_recipient :: address

definition rise_get_tx_env ::
  "('sa + 'ra, 'sa) op_api \<Rightarrow> (op_tx_type, 'sa) signed_tx \<Rightarrow> parsing_error + ('sa + 'ra) op_tx" where
  "rise_get_tx_env Q tx =
     map_sum id (\<lambda>gas_price.
       \<lparr>op_base = base_tx_env (op_type_byte Q) tx gas_price,
        op_enveloped_tx = (if sg_type tx = OpDeposit then None else Some (op_encoded Q tx)),
        op_deposit = (case op_as_deposit Q tx of
            Some (source_hash, mint, is_system) \<Rightarrow> \<lparr>dp_source_hash = source_hash, dp_mint = Some mint, dp_is_system = is_system\<rparr>
          | None \<Rightarrow> \<lparr>dp_source_hash = 0, dp_mint = None, dp_is_system = False\<rparr>)\<rparr>)
       (get_gas_price tx)"

text \<open>\<^verbatim>\<open>has_nonce\<close> returns whether the nonce counts and sets \<^verbatim>\<open>disable_nonce_check\<close> of the EVM.\<close>

definition rise_has_nonce :: "('au, 'sa) op_api \<Rightarrow> 'au op_tx \<Rightarrow> bool \<times> bool" where
  "rise_has_nonce Q tx = (\<not> op_is_deposit Q tx, op_is_deposit Q tx)"

text \<open>\<^verbatim>\<open>estimated_locations.entry(h).or_insert_with(..).push(index)\<close>\<close>

definition push_estimate ::
  "location_hash \<Rightarrow> tx_idx \<Rightarrow> (location_hash \<times> tx_idx list) list \<Rightarrow> (location_hash \<times> tx_idx list) list" where
  "push_estimate h i m = AList.update h (unwrap_or [] (map_of m h) @ [i]) m"

definition fee_recipients :: "('au, 'sa) op_api \<Rightarrow> address \<Rightarrow> address list" where
  "fee_recipients Q beneficiary =
     [beneficiary, base_fee_recipient Q, l1_fee_recipient Q, operator_fee_recipient Q]"

fun rise_estimates ::
  "('bc, 'jt) revm_api \<Rightarrow> ('au, 'sa) op_api \<Rightarrow> address \<Rightarrow> tx_idx \<Rightarrow> 'au op_tx list \<Rightarrow>
   (location_hash \<times> tx_idx list) list \<Rightarrow> (location_hash \<times> tx_idx list) list" where
  "rise_estimates P Q beneficiary i [] m = m"
| "rise_estimates P Q beneficiary i (tx # txs) m =
     rise_estimates P Q beneficiary (i + 1) txs
       (if op_is_deposit Q tx then m
        else fold (\<lambda>a. push_estimate (hash_deterministic P (LocBasic a)) i) (fee_recipients Q beneficiary) m)"

definition rise_build_mv_memory ::
  "('bc, 'jt) revm_api \<Rightarrow> ('au, 'sa) op_api \<Rightarrow> address \<Rightarrow> 'au op_tx list \<Rightarrow> 'bc mv_memory" where
  "rise_build_mv_memory P Q beneficiary txs =
     mv_new (length txs) (rise_estimates P Q beneficiary 0 txs []) (fee_recipients Q beneficiary)"

definition rise_get_rewards ::
  "('bc, 'jt) revm_api \<Rightarrow> ('au, 'sa) op_api \<Rightarrow> location_hash \<Rightarrow> u256 \<Rightarrow> u256 \<Rightarrow> u64 \<Rightarrow> 'au op_tx \<Rightarrow>
   (location_hash \<times> u256) list" where
  "rise_get_rewards P Q beneficiary_hash gas_used gas_price basefee tx =
     (if op_is_deposit Q tx then []
      else [(beneficiary_hash, saturating_mul gas_price gas_used),
            (hash_deterministic P (LocBasic (base_fee_recipient Q)), saturating_mul (ucast basefee) gas_used),
            (hash_deterministic P (LocBasic (l1_fee_recipient Q)), 0),
            (hash_deterministic P (LocBasic (operator_fee_recipient Q)), 0)])"

end
