(* ===== verification/Vm_Properties.thy ===== *)
theory Vm_Properties
  imports Vm_Sample
begin

text \<open>
  What the executor guarantees about one transaction: its lazy evaluation of balances agrees with the
  evaluation in transaction order, a validated execution is reproducible, a blocked execution waits
  for a lower transaction, and a finished one publishes exactly its write set.
\<close>

section \<open>Lazy balances\<close>


definition sample_tree :: mv_tree where
  "sample_tree = Map.empty(0 \<mapsto> Data 0 (LazyRecipient 30), 2 \<mapsto> Data 1 (LazySender 45), 3 \<mapsto> Data 0 (LazyRecipient 2))"

lemma sample_tree_entries:
  "entries_below 4 sample_tree = [(0, Data 0 (LazyRecipient 30)), (2, Data 1 (LazySender 45)), (3, Data 0 (LazyRecipient 2))]"
  by (simp add: sample_tree_def eval_nat_numeral)


section \<open>Rewards\<close>

lemma saturating_add_exact: "uint a + uint b < 2 ^ 256 \<Longrightarrow> saturating_add a b = a + (b :: u256)"
  by (rule word_uint_eq_iff [THEN iffD2]) (simp add: uint_sat_add uint_word_ariths)

lemma saturating_sub_exact: "b \<le> a \<Longrightarrow> saturating_sub a b = a - (b :: u256)"
  by (auto simp: saturating_sub_def)

lemma credit_update:
  assumes "credit v amount = Some v'" "update_exact (Data inc v) b"
    and "uint (ab_balance (apply_update (Data inc v) b)) + uint amount < 2 ^ 256"
    and "\<And>x. v = LazySender x \<Longrightarrow> amount \<le> x"
  shows "apply_update (Data inc v') b =
    (apply_update (Data inc v) b)\<lparr>ab_balance := ab_balance (apply_update (Data inc v) b) + amount\<rparr>"
proof (cases v)
  case (ValBasic x)
  with assms have "saturating_add (ab_balance x) amount = ab_balance x + amount"
    by (simp add: saturating_add_exact)
  with assms(1) ValBasic show ?thesis by auto
next
  case (LazyRecipient x)
  have nn: "0 \<le> uint (ab_balance b)" "0 \<le> uint x" "0 \<le> uint amount" by simp_all
  have bx: "uint (ab_balance b) + uint x < 2 ^ 256" using assms(2) LazyRecipient by simp
  have bxa: "uint (ab_balance b) + uint x + uint amount < 2 ^ 256"
    using assms(3) LazyRecipient bx by (simp add: uint_sat_add)
  have xa: "uint x + uint amount < 2 ^ 256" using bxa nn(1) by linarith
  have "saturating_add (ab_balance b) (saturating_add x amount) = saturating_add (saturating_add (ab_balance b) x) amount"
    using bx bxa xa by (intro word_uint_eq_iff [THEN iffD2]) (simp add: uint_sat_add)
  also have "\<dots> = saturating_add (ab_balance b) x + amount"
    by (rule saturating_add_exact) (use bx bxa in \<open>simp add: uint_sat_add\<close>)
  finally have "saturating_add (ab_balance b) (saturating_add x amount) = saturating_add (ab_balance b) x + amount" .
  with assms(1) LazyRecipient show ?thesis by auto
next
  case (LazySender x)
  have le: "amount \<le> x" "x \<le> ab_balance b" using assms LazySender by auto
  then have "saturating_sub x amount \<le> ab_balance b"
    by (simp add: word_le_def uint_sat_sub) (use uint_nonnegative [of amount] in linarith)
  with le have "saturating_sub (ab_balance b) (saturating_sub x amount) = saturating_sub (ab_balance b) x + amount"
    by (simp add: saturating_sub_exact)
  with assms(1) LazySender show ?thesis by auto
qed (use assms in auto)

lemma reward_write_map:
  assumes "reward_write h amount ws = Some ws'"
  shows "l \<noteq> h \<Longrightarrow> map_of ws' l = map_of ws l" "fst ` set ws' = insert h (fst ` set ws)"
    and "map_of ws' h = (case map_of ws h of None \<Rightarrow> Some (LazyRecipient amount) | Some v \<Rightarrow> credit v amount)"
proof -
  show "l \<noteq> h \<Longrightarrow> map_of ws' l = map_of ws l"
    using assms by (induction ws arbitrary: ws') (auto split: if_splits)
  show "fst ` set ws' = insert h (fst ` set ws)"
    using assms
  proof (induction ws arbitrary: ws')
    case (Cons w ws)
    obtain k v where w: "w = (k, v)" by (cases w)
    show ?case
    proof (cases "k = h")
      case False
      with Cons.prems w obtain ws'' where "reward_write h amount ws = Some ws''" "ws' = w # ws''" by auto
      with Cons.IH show ?thesis by (simp add: insert_commute)
    qed (use Cons.prems w in auto)
  qed auto
  show "map_of ws' h = (case map_of ws h of None \<Rightarrow> Some (LazyRecipient amount) | Some v \<Rightarrow> credit v amount)"
    using assms by (induction ws arbitrary: ws') (auto split: if_splits)
qed

text \<open>The account after a transaction's writes, given the account before it.\<close>

definition account_after :: "write_set \<Rightarrow> location_hash \<Rightarrow> account_basic \<Rightarrow> account_basic" where
  "account_after ws h b = (case map_of ws h of Some v \<Rightarrow> apply_update (Data 0 v) b | None \<Rightarrow> b)"

text \<open>
  Crediting a reward (\<^verbatim>\<open>Vm::execute\<close>, the loop over \<^verbatim>\<open>get_rewards\<close>) adds exactly the amount to the
  recipient's account, whether the transaction had written the account in full, had lazily debited or
  credited it, or had not touched it at all, and leaves every other write alone. The hypotheses are that
  the write is exact on the account before the transaction, that the sum fits in 256 bits and that a
  lazy sender is debited at least the reward it gets back.
\<close>

theorem reward_is_added:
  assumes "reward_write h amount ws = Some ws'"
    and "\<And>v. map_of ws h = Some v \<Longrightarrow> update_exact (Data 0 v) b"
    and "\<And>x. map_of ws h = Some (LazySender x) \<Longrightarrow> amount \<le> x"
    and "uint (ab_balance (account_after ws h b)) + uint amount < 2 ^ 256"
  shows "account_after ws' h b =
      (account_after ws h b)\<lparr>ab_balance := ab_balance (account_after ws h b) + amount\<rparr> \<and>
    (\<forall>l. l \<noteq> h \<longrightarrow> map_of ws' l = map_of ws l) \<and> fst ` set ws' = insert h (fst ` set ws)"
proof -
  note m = reward_write_map [OF assms(1)]
  have "account_after ws' h b = (account_after ws h b)\<lparr>ab_balance := ab_balance (account_after ws h b) + amount\<rparr>"
  proof (cases "map_of ws h")
    case None
    with assms(4) m(3) show ?thesis by (simp add: account_after_def saturating_add_exact)
  next
    case (Some v)
    have "map_of ws' h \<noteq> None" using m(2) by (simp add: map_of_eq_None_iff)
    with Some m(3) obtain v' where "credit v amount = Some v'" "map_of ws' h = Some v'" by auto
    with credit_update [of v amount v' 0 b] Some assms(2-4) show ?thesis
      by (simp add: account_after_def)
  qed
  with m(1,2) show ?thesis by blast
qed

theorem reward_is_added_witness:
  "(let ws = [(4, LazySender 90), (5, LazyRecipient 7)]
    in \<exists>ws'. reward_write 4 30 ws = Some ws' \<and>
         account_after ws' 4 \<lparr>ab_balance = 100, ab_nonce = 3\<rparr> = \<lparr>ab_balance = 40, ab_nonce = 4\<rparr>)"
proof -
  let ?ws = "[(4, LazySender 90), (5, LazyRecipient 7)]" and ?b = "\<lparr>ab_balance = 100, ab_nonce = 3\<rparr> :: account_basic"
  obtain ws' where ws': "reward_write 4 30 ?ws = Some ws'" by simp
  have before: "account_after ?ws 4 ?b = \<lparr>ab_balance = 10, ab_nonce = 4\<rparr>"
    by (simp add: account_after_def saturating_sub_def)
  from reward_is_added [OF ws', of ?b] before have "account_after ws' 4 ?b = \<lparr>ab_balance = 40, ab_nonce = 4\<rparr>"
    by simp
  with ws' show ?thesis unfolding Let_def by blast
qed

section \<open>A validated execution is reproducible\<close>

text \<open>The locations an execution accesses, also with the decision to be lazy given, and whether a memory makes it lazy.\<close>

definition vm_locs ::
  "('bc, 'jt) revm_api \<Rightarrow> 'jt storage_api \<Rightarrow> ('bc, 'au, 'tx, 'lg) vm_env \<Rightarrow> (nat \<Rightarrow> 'bc mv_memory) \<Rightarrow>
   'au vmdb \<Rightarrow> tx_idx \<Rightarrow> 'tx \<Rightarrow> memory_location list" where
  "vm_locs P S E M db i full_tx =
     (let tx = ve_tx_env E full_tx
      in (case te_kind tx of TxCall a \<Rightarrow> [LocCodeHash a] | TxCreate \<Rightarrow> []) @
         (case set_tx P S (M 0) db i tx (hash_deterministic P (LocBasic (te_caller tx))) (to_hash_of P tx)
                (ve_has_nonce E full_tx) of
            (Inl e, db1) \<Rightarrow> []
          | (Inr _, db1) \<Rightarrow> run_locs P S M (ve_evm E full_tx) 1 db1))"

definition vm_locs_as ::
  "('bc, 'jt) revm_api \<Rightarrow> 'jt storage_api \<Rightarrow> ('bc, 'au, 'tx, 'lg) vm_env \<Rightarrow> bool \<Rightarrow> (nat \<Rightarrow> 'bc mv_memory) \<Rightarrow>
   'au vmdb \<Rightarrow> tx_idx \<Rightarrow> 'tx \<Rightarrow> memory_location list" where
  "vm_locs_as P S E is_lazy M db i full_tx =
     (let tx = ve_tx_env E full_tx
      in (case te_kind tx of TxCall a \<Rightarrow> [LocCodeHash a] | TxCreate \<Rightarrow> []) @
         (case set_tx P S (M 0) db i tx (hash_deterministic P (LocBasic (te_caller tx))) (to_hash_of P tx)
                (ve_has_nonce E full_tx) of
            (Inl e, db1) \<Rightarrow> []
          | (Inr _, db1) \<Rightarrow> run_locs P S M (ve_evm E full_tx) 1 (db1\<lparr>db_is_lazy := is_lazy\<rparr>)))"

definition lazy_decision :: "('bc, 'jt) revm_api \<Rightarrow> 'bc mv_memory \<Rightarrow> 'au tx_env \<Rightarrow> b256 option \<Rightarrow> bool" where
  "lazy_decision P mv tx code_hash \<longleftrightarrow>
     (case to_hash_of P tx of
        None \<Rightarrow> False
      | Some h \<Rightarrow> code_hash = None \<and>
          (mv_data mv (hash_deterministic P (LocBasic (te_caller tx))) \<noteq> None \<or> mv_data mv h \<noteq> None))"

lemma set_tx_ok:
  assumes ok: "set_tx P S mv db i tx (hash_deterministic P (LocBasic (te_caller tx))) (to_hash_of P tx) hn = (Inr u, db')"
    and L: "\<forall>a. te_kind tx = TxCall a \<longrightarrow> LocCodeHash a \<in> L"
  shows "db_wf P L db'" "db_tx_idx db' = i" "set_option (db_to_code_hash db') \<subseteq> known_codes S i mv"
    and "reads_match mv' db' \<Longrightarrow> memories_agree P S i K mv mv' \<Longrightarrow>
      set_tx P S mv' db i tx (hash_deterministic P (LocBasic (te_caller tx))) (to_hash_of P tx) hn =
        (Inr u, db'\<lparr>db_is_lazy := lazy_decision P mv' tx (db_to_code_hash db')\<rparr>)"
proof -
  define db1 where "db1 = db\<lparr>db_tx_idx := i, db_tx := tx,
     db_from_hash := hash_deterministic P (LocBasic (te_caller tx)), db_to_hash := to_hash_of P tx,
     db_to_code_hash := None, db_is_lazy := False, db_has_nonce := hn, db_read_set := [], db_read_accounts := []\<rparr>"
  have wf1: "db_wf P L db1" and idx1: "db_tx_idx db1 = i"
    by (auto simp: db1_def db_wf_def to_hash_of_def read_origins_of_def split: tx_kind.splits)
  show "db_wf P L db'"
  proof (cases "te_kind tx")
    case (TxCall a)
    with ok obtain ch db2 b where g: "get_code_hash P S mv db1 a = (Inr ch, db2)"
      and db': "db' = db2\<lparr>db_to_code_hash := ch, db_is_lazy := b\<rparr>"
      by (auto simp: set_tx_def Let_def db1_def split: prod.splits sum.splits)
    from get_code_hash_ok(2) [OF g wf1 L [rule_format, OF TxCall]] show ?thesis
      unfolding db' by (simp add: db_wf_def)
  qed (use ok wf1 in \<open>simp add: set_tx_def db1_def\<close>)
  show "db_tx_idx db' = i"
    using ok idx1 by (auto simp: set_tx_def Let_def db1_def dest!: get_code_hash_idx split: tx_kind.splits prod.splits sum.splits)
  show "set_option (db_to_code_hash db') \<subseteq> known_codes S i mv"
  proof (cases "te_kind tx")
    case (TxCall a)
    with ok obtain ch db2 b where g: "get_code_hash P S mv db1 a = (Inr ch, db2)"
      and db': "db' = db2\<lparr>db_to_code_hash := ch, db_is_lazy := b\<rparr>"
      by (auto simp: set_tx_def Let_def db1_def split: prod.splits sum.splits)
    from get_code_hash_ok(4) [OF g wf1 L [rule_format, OF TxCall]] idx1 show ?thesis
      unfolding db' by (cases ch) auto
  qed (use ok in \<open>auto simp: set_tx_def\<close>)
  assume m: "reads_match mv' db'" and ag: "memories_agree P S i K mv mv'"
  show "set_tx P S mv' db i tx (hash_deterministic P (LocBasic (te_caller tx))) (to_hash_of P tx) hn =
      (Inr u, db'\<lparr>db_is_lazy := lazy_decision P mv' tx (db_to_code_hash db')\<rparr>)"
  proof (cases "te_kind tx")
    case (TxCall a)
    obtain ch db2 where g: "get_code_hash P S mv db1 a = (Inr ch, db2)"
      and db': "db' = db2\<lparr>db_to_code_hash := ch, db_is_lazy := lazy_decision P mv tx ch\<rparr>"
      using ok TxCall by (auto simp: set_tx_def Let_def db1_def lazy_decision_def to_hash_of_def split: prod.splits sum.splits)
    have "reads_match mv' db2" using m unfolding db' by (simp add: reads_match_def)
    from get_code_hash_ok(3) [OF g wf1 L [rule_format, OF TxCall] this] ag idx1
    have "get_code_hash P S mv' db1 a = (Inr ch, db2)" by simp
    then show ?thesis
      using TxCall db' by (simp add: set_tx_def db1_def lazy_decision_def to_hash_of_def)
  qed (use ok in \<open>auto simp: set_tx_def lazy_decision_def to_hash_of_def Let_def\<close>)
qed

text \<open>
  An execution whose reads match another memory gives the same there in one go, with the same decision to be lazy.
\<close>

lemma matching_run_transfers:
  assumes "vm_run P S E M db i full_tx = (Inr r, db')"
    and "inj_on (hash_deterministic P) (set (vm_locs P S E M db i full_tx))"
    and "\<And>k. memories_agree P S i (known_codes S i (M 0) \<inter> known_codes S i mv) (M k) mv"
    and "reads_match mv db'"
  shows "vm_run_as P S E (db_is_lazy db') (\<lambda>_. mv) db i full_tx = (Inr r, db')"
    and "vm_locs_as P S E (db_is_lazy db') (\<lambda>_. mv) db i full_tx = vm_locs P S E M db i full_tx"
    and "lazy_decision P mv (ve_tx_env E full_tx) (db_to_code_hash db') = db_is_lazy db' \<Longrightarrow>
      vm_run P S E (\<lambda>_. mv) db i full_tx = (Inr r, db')"
proof -
  let ?tx = "ve_tx_env E full_tx" and ?L = "set (vm_locs P S E M db i full_tx)"
  let ?set = "\<lambda>m. set_tx P S m db i ?tx (hash_deterministic P (LocBasic (te_caller ?tx))) (to_hash_of P ?tx) (ve_has_nonce E full_tx)"
  obtain db0 where st: "?set (M 0) = (Inr (), db0)" and run: "run_evm P S M (ve_evm E full_tx) 1 db0 = (Inr r, db')"
    using assms(1) by (auto simp: vm_run_def Let_def split: prod.splits sum.splits)
  have L: "\<forall>a. te_kind ?tx = TxCall a \<longrightarrow> LocCodeHash a \<in> ?L"
    and L': "set (run_locs P S M (ve_evm E full_tx) 1 db0) \<subseteq> ?L"
    using st by (auto simp: vm_locs_def Let_def)
  note s = set_tx_ok [of P S "M 0" db i ?tx "ve_has_nonce E full_tx" "()" db0 ?L, OF st L]
  have ext: "db_extends db0 db'" using run_evm_extends [OF run s(1) assms(2) L'] by blast
  then have same: "db_is_lazy db0 = db_is_lazy db'" "db_to_code_hash db0 = db_to_code_hash db'" by (simp_all add: db_extends_def)
  have set: "?set mv = (Inr (), db0\<lparr>db_is_lazy := lazy_decision P mv ?tx (db_to_code_hash db')\<rparr>)"
    using s(4) [OF reads_match_extends [OF ext assms(4)] assms(3)] same by simp
  have "set_option (db_to_code_hash db0) \<subseteq> known_codes S i (M 0) \<inter> known_codes S i mv"
    using s(3) set_tx_ok(3) [OF set L] by simp
  from run_evm_transfer [OF run s(1) assms(2,4) _ this L'] assms(3) s(2)
  have run': "run_evm P S (\<lambda>_. mv) (ve_evm E full_tx) 1 db0 = (Inr r, db')"
    "run_locs P S (\<lambda>_. mv) (ve_evm E full_tx) 1 db0 = run_locs P S M (ve_evm E full_tx) 1 db0" by simp_all
  have upd: "db0\<lparr>db_is_lazy := db_is_lazy db'\<rparr> = db0" using same(1) by (cases db0) simp
  show "vm_run_as P S E (db_is_lazy db') (\<lambda>_. mv) db i full_tx = (Inr r, db')"
    using set run' upd by (simp add: vm_run_as_def Let_def)
  show "vm_locs_as P S E (db_is_lazy db') (\<lambda>_. mv) db i full_tx = vm_locs P S E M db i full_tx"
    using set run' upd st by (simp add: vm_locs_as_def vm_locs_def Let_def)
  show "vm_run P S E (\<lambda>_. mv) db i full_tx = (Inr r, db')" if "lazy_decision P mv ?tx (db_to_code_hash db') = db_is_lazy db'"
    using set run' upd that by (simp add: vm_run_def Let_def)
qed

text \<open>The reads of an execution match a memory exactly when they validate there.\<close>

lemma validate_reads_match:
  assumes run: "vm_run P S E M db i full_tx = (Inr r, db')" and inj: "inj_on (hash_deterministic P) (set (vm_locs P S E M db i full_tx))"
    and reads: "ll_read (last_locations mv ! i) = db_read_set db'"
  shows "validate_read_locations mv i \<longleftrightarrow> reads_match mv db'" "db_tx_idx db' = i"
proof -
  let ?tx = "ve_tx_env E full_tx" and ?L = "set (vm_locs P S E M db i full_tx)"
  let ?set = "set_tx P S (M 0) db i ?tx (hash_deterministic P (LocBasic (te_caller ?tx))) (to_hash_of P ?tx) (ve_has_nonce E full_tx)"
  obtain db0 where st: "?set = (Inr (), db0)" and ev: "run_evm P S M (ve_evm E full_tx) 1 db0 = (Inr r, db')"
    using run by (auto simp: vm_run_def Let_def split: prod.splits sum.splits)
  have L: "\<forall>a. te_kind ?tx = TxCall a \<longrightarrow> LocCodeHash a \<in> ?L" "set (run_locs P S M (ve_evm E full_tx) 1 db0) \<subseteq> ?L"
    using st by (auto simp: vm_locs_def Let_def)
  note s = set_tx_ok(1,2) [of P S "M 0" db i ?tx "ve_has_nonce E full_tx" "()" db0 ?L, OF st L(1)]
  have ext: "db_extends db0 db'" "db_wf P ?L db'"
    using run_evm_extends [OF ev s(1) inj L(2)] by blast+
  show idx: "db_tx_idx db' = i" using ext(1) s(2) by (simp add: db_extends_def)
  show "validate_read_locations mv i \<longleftrightarrow> reads_match mv db'"
    using reads reads_match_validate [OF ext(2), of mv] idx by (simp add: validate_read_locations_def)
qed


lemma sample_locs_1:
  "vm_locs sample_api sample_storage sample_env (\<lambda>_. sample_mv1) sample_db 1 1 =
     [LocCodeHash 50, LocBasic 11, LocCodeHash 11, LocStorage 50 1]"
  by (simp add: vm_locs_def sample_mv1_def sample_defs vm_run_defs)

lemma sample_agree: "memories_agree sample_api sample_storage 1 K sample_mv1 sample_mv2"
proof -
  have "versions_agree 1 (table_entry (mv_data sample_mv1) h) (table_entry (mv_data sample_mv2) h)" for h
    using mv_record_frame(2) [OF sample_mv1_wf, of "\<lparr>tx_idx = 1, tx_incarnation = 0\<rparr>" 0]
    by (simp add: versions_agree_def sample_mv2_def)
  moreover have "new_bytecodes sample_mv2 = new_bytecodes sample_mv1"
    by (simp add: sample_mv2_def mv_record_def Let_def split: prod.splits)
  ultimately show ?thesis by (simp add: memories_agree_def read_code_def cong: option.case_cong)
qed


section \<open>What an execution publishes\<close>

lemma vm_run_blocking:
  assumes "vm_run P S E M db i full_tx = (Inl (Blocking b), db')"
  shows "b < i"
proof -
  let ?tx = "ve_tx_env E full_tx"
  let ?set = "set_tx P S (M 0) db i ?tx (hash_deterministic P (LocBasic (te_caller ?tx))) (to_hash_of P ?tx) (ve_has_nonce E full_tx)"
  have "fst ?set \<noteq> Inl (Blocking b)"
    by (auto simp: set_tx_def Let_def dest!: get_code_hash_error split: tx_kind.splits prod.splits sum.splits)
  with assms obtain db1 where s: "?set = (Inr (), db1)" and r: "run_evm P S M (ve_evm E full_tx) 1 db1 = (Inl (Blocking b), db')"
    by (auto simp: vm_run_def Let_def split: prod.splits sum.splits)
  have "db_tx_idx db1 = i"
    using set_tx_ok(2) [OF s, of UNIV] by simp
  with run_evm_blocking [OF r] show ?thesis by simp
qed

lemma vm_error_from_iff:
  "vm_error_from e = VmBlocking b \<longleftrightarrow> e = Blocking b"
  "vm_error_from e = Retry \<longleftrightarrow> e = InconsistentRead"
  "vm_error_from e = FallbackToSequential \<longleftrightarrow> e = SelfDestructedAccount"
  by (cases e; simp)+

text \<open>
  C34: The error paths of \<^verbatim>\<open>Vm::execute\<close>. A failed execution leaves the versioned data, the recorded
  locations and the lazy addresses of the shared memory as they were. It blocks only on a lower
  transaction, so dependencies cannot be cyclic; it asks for an immediate retry exactly when a read was
  inconsistent, and for the sequential fallback exactly when a self-destructed account was read.
\<close>

theorem failed_execution:
  assumes "vm_execute P S E txs M mv db v = Some (Inl e, mv')"
  shows "mv_data mv' = mv_data mv \<and> last_locations mv' = last_locations mv \<and> lazy_addresses mv' = lazy_addresses mv \<and>
    (\<forall>b. e = VmBlocking b \<longrightarrow> b < tx_idx v) \<and>
    (e = Retry \<longleftrightarrow> fst (vm_run P S E M db (tx_idx v) (txs ! tx_idx v)) = Inl InconsistentRead) \<and>
    (e = FallbackToSequential \<longleftrightarrow> fst (vm_run P S E M db (tx_idx v) (txs ! tx_idx v)) = Inl SelfDestructedAccount)"
proof -
  let ?run = "vm_run P S E M db (tx_idx v) (txs ! tx_idx v)"
  obtain res db' where run: "?run = (res, db')" by (cases ?run)
  show ?thesis
  proof (cases res)
    case (Inl re)
    with assms run have "e = vm_error_from re" "mv' = mv" by (simp_all add: vm_execute_def)
    with run Inl vm_run_blocking [of P S E M db "tx_idx v" "txs ! tx_idx v"] show ?thesis
      by (auto simp: vm_error_from_iff)
  next
    case (Inr out)
    show ?thesis
    proof (cases out)
      case (Inl f)
      with assms run Inr show ?thesis
        by (cases f) (auto simp: vm_execute_def split: if_splits)
    next
      case (Inr p)
      with assms run \<open>res = Inr out\<close> show ?thesis
        by (auto simp: vm_execute_def vm_commit_def Let_def split: option.splits prod.splits)
    qed
  qed
qed

theorem failed_execution_witness:
  "(let mv = convert_writes_to_estimates sample_mv1 0
    in sample_step mv 1 = Some (Inl (VmBlocking 0), mv) \<and> 0 < (1 :: nat))"
proof -
  let ?mv = "convert_writes_to_estimates sample_mv1 0"
  have *: "sample_step ?mv 1 = Some (Inl (VmBlocking 0), ?mv)"
    by (simp add: sample_step_def convert_writes_to_estimates_def mark_estimate_def sample_mv1_def vm_execute_defs sample_defs vm_run_defs)
  from failed_execution [OF this [unfolded sample_step_def]] * show ?thesis by simp
qed

lemma apply_rewards_keys:
  "apply_rewards rs ws = Some ws' \<Longrightarrow> fst ` set ws' = fst ` set ws \<union> fst ` set rs"
proof (induction rs arbitrary: ws)
  case (Cons r rs)
  obtain h x where r: "r = (h, x)" by (cases r)
  with Cons.prems obtain ws1 where "reward_write h x ws = Some ws1" "apply_rewards rs ws1 = Some ws'"
    by (auto split: option.splits)
  from Cons.IH [OF this(2)] reward_write_map(2) [OF this(1)] r show ?case by simp
qed simp

lemma finish_flags_bits:
  "needs_validation (finish_flags i lazy new) \<longleftrightarrow> i > 0 \<and> \<not> lazy"
  "wrote_new_location (finish_flags i lazy new) \<longleftrightarrow> new"
  by (simp_all add: finish_flags_def Let_def)

lemma vm_execute_success:
  assumes "vm_execute P S E txs M mv db v = Some (Inr (flags, res), mv')"
  obtains r state db' codes addrs ws new where
    "vm_run P S E M db (tx_idx v) (txs ! tx_idx v) = (Inr (Inr (r, state)), db')"
    "write_set_of P E db' (txs ! tx_idx v) r state = Some ws"
    "mv_record (add_lazy_addresses (mv\<lparr>new_bytecodes := codes\<rparr>) addrs) v (db_read_set db') ws = (new, mv')"
    "flags = finish_flags (tx_idx v) (db_is_lazy db') new"
    "tr_receipt res = receipt_from_revm r" "lazy_addresses_of db' = Some addrs"
proof -
  let ?tx = "txs ! tx_idx v"
  obtain r state db' where run: "vm_run P S E M db (tx_idx v) ?tx = (Inr (Inr (r, state)), db')"
    and co: "vm_commit P E mv db' v ?tx r state = Some (Inr (flags, res), mv')"
    using assms by (auto simp: vm_execute_def Let_def split: prod.splits sum.splits evm_failure.splits if_splits)
  with that show thesis
    by (auto simp: vm_commit_def Let_def split: option.splits prod.splits)
qed

lemma vm_execute_failure:
  assumes "vm_execute P S E txs M mv db v = Some (Inl e, mv')"
  shows "mv_data mv' = mv_data mv \<and> last_locations mv' = last_locations mv \<and> lazy_addresses mv' = lazy_addresses mv"
  using assms
  by (auto simp: vm_execute_def vm_commit_def Let_def split: prod.splits sum.splits evm_failure.splits if_splits option.splits)

text \<open>
  C11: A successful execution publishes exactly its write set: the transaction's entries of the memory
  are the last value written to each location under the incarnation executed, every location that gets
  a reward is among them, locations of the previous incarnation that are not written again are gone,
  and no other transaction's entry changes. The read set of the run is recorded, the receipt carries
  the gas of this run, a validation is requested exactly for a non-lazy transaction other than the
  first, and a rescan exactly when a location was written that the last incarnation did not write.
\<close>

theorem execution_publishes_write_set:
  assumes "vm_execute P S E txs M mv db v = Some (Inr (flags, res), mv')" "mv_wf n mv" "tx_idx v < n"
  shows "\<exists>r state db' ws. vm_run P S E M db (tx_idx v) (txs ! tx_idx v) = (Inr (Inr (r, state)), db') \<and>
    write_set_of P E db' (txs ! tx_idx v) r state = Some ws \<and>
    fst ` set (rewards_of P E db' (txs ! tx_idx v) r) \<subseteq> fst ` set ws \<and>
    (\<forall>h j. entry_at mv' h j =
       (if j \<noteq> tx_idx v then entry_at mv h j
        else if h \<in> fst ` set ws then Some (Data (tx_incarnation v) (the (map_of (rev ws) h)))
        else if h \<in> set (last_writes mv (tx_idx v)) then None
        else entry_at mv h j)) \<and>
    mv_wf n mv' \<and> ll_read (last_locations mv' ! tx_idx v) = db_read_set db' \<and>
    rc_cumulative_gas_used (tr_receipt res) = er_gas_used r \<and>
    (needs_validation flags \<longleftrightarrow> tx_idx v > 0 \<and> \<not> db_is_lazy db') \<and>
    (wrote_new_location flags \<longleftrightarrow> \<not> fst ` set ws \<subseteq> set (last_writes mv (tx_idx v)))"
proof -
  let ?tx = "txs ! tx_idx v"
  obtain r state db' codes addrs ws new where run: "vm_run P S E M db (tx_idx v) ?tx = (Inr (Inr (r, state)), db')"
    and ws: "write_set_of P E db' ?tx r state = Some ws"
    and rec: "mv_record (add_lazy_addresses (mv\<lparr>new_bytecodes := codes\<rparr>) addrs) v (db_read_set db') ws = (new, mv')"
    and fl: "flags = finish_flags (tx_idx v) (db_is_lazy db') new"
    and res: "tr_receipt res = receipt_from_revm r"
    using assms(1) by (rule vm_execute_success)
  define mv1 where "mv1 = add_lazy_addresses (mv\<lparr>new_bytecodes := codes\<rparr>) addrs"
  have same: "mv_data mv1 = mv_data mv" "last_locations mv1 = last_locations mv"
    by (simp_all add: mv1_def add_lazy_addresses_def)
  have "mv_wf n (mv\<lparr>new_bytecodes := codes\<rparr>)" using assms(2) by (simp add: mv_wf_def)
  then have wf1: "mv_wf n mv1" unfolding mv1_def by (rule mv_wf_lazy)
  note rec = rec [folded mv1_def]
  note eff = record_spec [OF rec mv_wfD(2) [OF wf1 assms(3)], unfolded same]
  have "fst ` set (rewards_of P E db' ?tx r) \<subseteq> fst ` set ws"
    using apply_rewards_keys [OF ws [unfolded write_set_of_def]] by simp
  moreover have "ll_read (last_locations mv' ! tx_idx v) = db_read_set db'"
    using eff(3) assms(3) mv_wfD(1) [OF assms(2)] by auto
  moreover have "mv_wf n mv'" by (rule mv_wf_record [OF wf1 assms(3) rec])
  moreover have "rc_cumulative_gas_used (tr_receipt res) = er_gas_used r" using res by (simp add: receipt_from_revm_def)
  moreover have "needs_validation flags \<longleftrightarrow> tx_idx v > 0 \<and> \<not> db_is_lazy db'" using fl by (simp add: finish_flags_bits)
  moreover have "wrote_new_location flags \<longleftrightarrow> \<not> fst ` set ws \<subseteq> set (last_writes mv (tx_idx v))"
    using fl eff(1) by (simp add: finish_flags_bits)
  ultimately show ?thesis
    using run ws eff(2) by (intro exI [of _ r] exI [of _ state] exI [of _ db'] exI [of _ ws] conjI) blast+
qed

theorem execution_publishes_write_set_witness:
  "\<exists>flags res. sample_step sample_mv1 1 = Some (Inr (flags, res), sample_mv2) \<and> mv_wf 2 sample_mv2 \<and>
     needs_validation flags \<and> entry_at sample_mv2 40 0 = entry_at sample_mv1 40 0"
proof -
  obtain flags res where st: "sample_step sample_mv1 1 = Some (Inr (flags, res), sample_mv2)" and nv: "needs_validation flags"
    using sample_step_1 by blast
  from execution_publishes_write_set [OF st [unfolded sample_step_def] sample_mv1_wf] st nv show ?thesis by auto
qed

end
