(* ===== verification/Pevm.thy ===== *)
theory Pevm
  imports Vm_Sample
begin

text \<open>
  Block execution of \<^verbatim>\<open>crates/pevm/src/pevm.rs\<close>: the result slots, the collection of the results after the
  workers have joined, the final evaluation of lazily updated accounts, the sequential executor and
  the choice between the two. The workers themselves are the subject of \<^verbatim>\<open>Worker_Protocol\<close>; what they leave
  behind (the slots, the multi-version memory and the abort reason) is an argument here.
\<close>

section \<open>Errors\<close>

text \<open>The errors of a chain (\<^verbatim>\<open>C::BlockSpecError\<close>, \<^verbatim>\<open>C::TransactionParsingError\<close>) appear in their printed form.\<close>

datatype pevm_error =
    BlockSpecError string
  | MissingTransactionData
  | InvalidTransaction string
  | NonceMismatch tx_idx u64 u64
  | PevmStorageError string
  | PevmExecutionError evm_error
  | UnreachableError

datatype abort_reason =
    AbortFallback
  | AbortExecution evm_error

section \<open>Result slots\<close>

type_synonym ('jt, 'lg) execution_results = "('jt, 'lg) tx_result option list"

definition grow_to :: "('jt, 'lg) execution_results \<Rightarrow> nat \<Rightarrow> ('jt, 'lg) execution_results" where
  "grow_to rs block_size =
     (if block_size > length rs then rs @ replicate (block_size - length rs) None else rs)"

text \<open>
  Taking a slot. \<^verbatim>\<open>get_unchecked\<close> out of range and \<^verbatim>\<open>unwrap_unchecked\<close> of an empty slot are undefined
  behaviour, here \<open>None\<close>.
\<close>

definition take_slot ::
  "('jt, 'lg) execution_results \<Rightarrow> tx_idx \<Rightarrow> (('jt, 'lg) tx_result \<times> ('jt, 'lg) execution_results) option" where
  "take_slot rs i =
     (if i < length rs then (case rs ! i of None \<Rightarrow> None | Some r \<Rightarrow> Some (r, rs[i := None])) else None)"

definition add_gas :: "u64 \<Rightarrow> ('jt, 'lg) tx_result \<Rightarrow> ('jt, 'lg) tx_result" where
  "add_gas cumulative r =
     r\<lparr>tr_receipt := (tr_receipt r)\<lparr>rc_cumulative_gas_used :=
        saturating_add cumulative (rc_cumulative_gas_used (tr_receipt r))\<rparr>\<rparr>"

abbreviation gas_of :: "('jt, 'lg) tx_result \<Rightarrow> u64" where
  "gas_of r \<equiv> rc_cumulative_gas_used (tr_receipt r)"

text \<open>Lines 278--286, from index \<open>i\<close> for \<open>k\<close> more transactions.\<close>

fun collect_results ::
  "nat \<Rightarrow> tx_idx \<Rightarrow> u64 \<Rightarrow> ('jt, 'lg) execution_results \<Rightarrow>
   (('jt, 'lg) tx_result list \<times> ('jt, 'lg) execution_results) option" where
  "collect_results 0 i cumulative rs = Some ([], rs)"
| "collect_results (Suc k) i cumulative rs =
     (case take_slot rs i of
        None \<Rightarrow> None
      | Some (r, rs') \<Rightarrow>
          (let r' = add_gas cumulative r
           in case collect_results k (i + 1) (gas_of r') rs' of
                None \<Rightarrow> None
              | Some (out, rs'') \<Rightarrow> Some (r' # out, rs'')))"

section \<open>Evaluation of lazily updated accounts\<close>

text \<open>
  The largest fee a transaction may be charged (lines 340--347). \<open>blob_gas\<close> stands for \<^verbatim>\<open>total_blob_gas\<close> of the
  EVM package.
\<close>

definition max_fee :: "('au tx_env \<Rightarrow> u64) \<Rightarrow> 'au tx_env \<Rightarrow> u256" where
  "max_fee blob_gas tx =
     saturating_add
       (saturating_add (saturating_mul (ucast (te_gas_limit tx)) (ucast (te_gas_price tx))) (te_value tx))
       (saturating_mul (ucast (blob_gas tx)) (ucast (te_max_fee_per_blob_gas tx)))"

text \<open>One entry of the write history (lines 320--359); \<open>None\<close> is the panic of \<^verbatim>\<open>unreachable!\<close>.\<close>

fun evaluate_entry ::
  "('au tx_env \<Rightarrow> u64) \<Rightarrow> 'au tx_env \<Rightarrow> memory_entry \<Rightarrow> account_basic \<Rightarrow>
   (pevm_error + account_basic) option" where
  "evaluate_entry blob_gas tx (Data inc (ValBasic info)) b = Some (Inr info)"
| "evaluate_entry blob_gas tx (Data inc (LazyRecipient x)) b =
     Some (Inr \<lparr>ab_balance = saturating_add (ab_balance b) x, ab_nonce = ab_nonce b\<rparr>)"
| "evaluate_entry blob_gas tx (Data inc (LazySender x)) b =
     (if ab_balance b < max_fee blob_gas tx
      then Some (Inl (PevmExecutionError (EvmFailure (LackOfFundForMaxFee (max_fee blob_gas tx) (ab_balance b)))))
      else Some (Inr \<lparr>ab_balance = saturating_sub (ab_balance b) x, ab_nonce = ab_nonce b + 1\<rparr>))"
| "evaluate_entry blob_gas tx e b = None"

text \<open>The nonce check when the account is the sender (lines 361--376).\<close>

definition check_nonce ::
  "'au tx_env \<Rightarrow> address \<Rightarrow> tx_idx \<Rightarrow> u64 \<Rightarrow> pevm_error option" where
  "check_nonce tx a i nonce =
     (if te_caller tx \<noteq> a then None
      else if nonce = 0 then Some UnreachableError
      else if te_nonce tx \<noteq> nonce - 1 then Some (NonceMismatch i (te_nonce tx) (nonce - 1))
      else None)"

text \<open>The account in the state transitions of a transaction (lines 380--403).\<close>

definition updated_account ::
  "bool \<Rightarrow> b256 option \<Rightarrow> 'jt evm_code option \<Rightarrow> account_basic \<Rightarrow> 'jt evm_account option \<Rightarrow> 'jt evm_account option" where
  "updated_account eip161 code_hash code b account =
     (if eip161 \<and> code_hash = None \<and> ab_nonce b = 0 \<and> ab_balance b = 0 then None
      else (case account of
              Some acc \<Rightarrow> Some (acc\<lparr>acc_balance := ab_balance b, acc_nonce := ab_nonce b\<rparr>)
            | None \<Rightarrow> Some \<lparr>acc_balance = ab_balance b, acc_nonce = ab_nonce b, acc_code_hash = code_hash,
                            acc_code = code, acc_storage = []\<rparr>))"

definition update_state ::
  "bool \<Rightarrow> b256 option \<Rightarrow> 'jt evm_code option \<Rightarrow> address \<Rightarrow> account_basic \<Rightarrow> ('jt, 'lg) tx_result \<Rightarrow> ('jt, 'lg) tx_result" where
  "update_state eip161 code_hash code a b r =
     r\<lparr>tr_state := AList.update a
         (updated_account eip161 code_hash code b (case map_of (tr_state r) a of Some acc \<Rightarrow> acc | None \<Rightarrow> None))
         (tr_state r)\<rparr>"

text \<open>The loop over the write history of one address (lines 318--404).\<close>

fun evaluate_history ::
  "('au tx_env \<Rightarrow> u64) \<Rightarrow> 'au tx_env list \<Rightarrow> bool \<Rightarrow> b256 option \<Rightarrow> 'jt evm_code option \<Rightarrow> address \<Rightarrow>
   (tx_idx \<times> memory_entry) list \<Rightarrow> account_basic \<Rightarrow> ('jt, 'lg) tx_result list \<Rightarrow>
   (pevm_error + ('jt, 'lg) tx_result list) option" where
  "evaluate_history blob_gas txs eip161 code_hash code a [] b results = Some (Inr results)"
| "evaluate_history blob_gas txs eip161 code_hash code a ((i, e) # rest) b results =
     (case evaluate_entry blob_gas (txs ! i) e b of
        None \<Rightarrow> None
      | Some (Inl err) \<Rightarrow> Some (Inl err)
      | Some (Inr b') \<Rightarrow>
          (case check_nonce (txs ! i) a i (ab_nonce b') of
             Some err \<Rightarrow> Some (Inl err)
           | None \<Rightarrow>
               evaluate_history blob_gas txs eip161 code_hash code a rest b'
                 (results[i := update_state eip161 code_hash code a b' (results ! i)])))"

text \<open>
  The account before the block (lines 292--304): read from the storage unless the first entry is
  absolute. An error of the storage counts as an absent account.
\<close>

definition initial_account ::
  "'jt storage_api \<Rightarrow> address \<Rightarrow> (tx_idx \<times> memory_entry) list \<Rightarrow> account_basic" where
  "initial_account S a history =
     (case history of
        (_, Data _ (ValBasic _)) # _ \<Rightarrow> account_basic_default
      | _ \<Rightarrow> (case st_basic S a of Inr (Some b) \<Rightarrow> b | _ \<Rightarrow> account_basic_default))"

text \<open>One lazy address (lines 289--405). The history holds the entries of the block's transactions.\<close>

definition evaluate_address ::
  "('bc, 'jt) revm_api \<Rightarrow> 'jt storage_api \<Rightarrow> ('au tx_env \<Rightarrow> u64) \<Rightarrow> 'au tx_env list \<Rightarrow> bool \<Rightarrow> 'bc mv_memory \<Rightarrow>
   address \<Rightarrow> ('jt, 'lg) tx_result list \<Rightarrow> (pevm_error + ('jt, 'lg) tx_result list) option" where
  "evaluate_address P S blob_gas txs eip161 mv a results =
     (case mv_data mv (hash_deterministic P (LocBasic a)) of
        None \<Rightarrow> Some (Inr results)
      | Some t \<Rightarrow>
          (let history = entries_below (length txs) t;
               b = initial_account S a history
           in case st_code_hash S a of
                Inl err \<Rightarrow> Some (Inl (PevmStorageError err))
              | Inr None \<Rightarrow> evaluate_history blob_gas txs eip161 None None a history b results
              | Inr (Some code_hash) \<Rightarrow>
                  (case st_code_by_hash S code_hash of
                     Inl err \<Rightarrow> Some (Inl (PevmStorageError err))
                   | Inr code \<Rightarrow>
                       evaluate_history blob_gas txs eip161 (Some code_hash) code a history b results)))"

fun evaluate_lazy ::
  "('bc, 'jt) revm_api \<Rightarrow> 'jt storage_api \<Rightarrow> ('au tx_env \<Rightarrow> u64) \<Rightarrow> 'au tx_env list \<Rightarrow> bool \<Rightarrow> 'bc mv_memory \<Rightarrow>
   address list \<Rightarrow> ('jt, 'lg) tx_result list \<Rightarrow> (pevm_error + ('jt, 'lg) tx_result list) option" where
  "evaluate_lazy P S blob_gas txs eip161 mv [] results = Some (Inr results)"
| "evaluate_lazy P S blob_gas txs eip161 mv (a # rest) results =
     (case evaluate_address P S blob_gas txs eip161 mv a results of
        None \<Rightarrow> None
      | Some (Inl err) \<Rightarrow> Some (Inl err)
      | Some (Inr results') \<Rightarrow> evaluate_lazy P S blob_gas txs eip161 mv rest results')"

section \<open>The sequential executor\<close>

text \<open>
  The EVM over a caching database is third-party code: \<open>transact\<close> runs a transaction on its state and
  \<open>commit\<close> applies the resulting changes to it.
\<close>

record ('s, 'tx, 'bc, 'lg) sequential_evm =
  se_transact :: "'s \<Rightarrow> 'tx \<Rightarrow> string + 'lg exec_result \<times> 'bc evm_state"
  se_commit :: "'s \<Rightarrow> 'bc evm_state \<Rightarrow> 's"

text \<open>Lines 478--501; \<open>None\<close> is a panic while converting an account.\<close>

fun sequential_loop ::
  "('bc, 'jt) revm_api \<Rightarrow> ('s, 'tx, 'bc, 'lg) sequential_evm \<Rightarrow> bool \<Rightarrow> 's \<Rightarrow> u64 \<Rightarrow> 'tx list \<Rightarrow>
   (pevm_error + ('jt, 'lg) tx_result list) option" where
  "sequential_loop P V eip161 s cumulative [] = Some (Inr [])"
| "sequential_loop P V eip161 s cumulative (tx # txs) =
     (case se_transact V s tx of
        Inl err \<Rightarrow> Some (Inl (PevmExecutionError (EvmFailure (OtherEvmError err))))
      | Inr (result, state) \<Rightarrow>
          (case state_transitions_from_revm P eip161 state of
             None \<Rightarrow> None
           | Some st \<Rightarrow>
               (let r = add_gas cumulative \<lparr>tr_receipt = receipt_from_revm result, tr_state = st\<rparr>
                in case sequential_loop P V eip161 (se_commit V s state) (gas_of r) txs of
                     None \<Rightarrow> None
                   | Some (Inl err) \<Rightarrow> Some (Inl err)
                   | Some (Inr rs) \<Rightarrow> Some (Inr (r # rs)))))"

definition execute_revm_sequential ::
  "('bc, 'jt) revm_api \<Rightarrow> ('s, 'tx, 'bc, 'lg) sequential_evm \<Rightarrow> bool \<Rightarrow> 's \<Rightarrow> 'tx list \<Rightarrow>
   (pevm_error + ('jt, 'lg) tx_result list) option" where
  "execute_revm_sequential P V eip161 s txs = sequential_loop P V eip161 s 0 txs"

section \<open>Cumulative gas\<close>

text \<open>The reference: receipts with the running sum of their gas.\<close>

fun running_gas :: "u64 \<Rightarrow> ('jt, 'lg) tx_result list \<Rightarrow> ('jt, 'lg) tx_result list" where
  "running_gas cumulative [] = []"
| "running_gas cumulative (r # rs) =
     add_gas cumulative r # running_gas (gas_of (add_gas cumulative r)) rs"

lemma add_gas_sel [simp]:
  "gas_of (add_gas g r) = saturating_add g (gas_of r)" "tr_state (add_gas g r) = tr_state r"
  "rc_status (tr_receipt (add_gas g r)) = rc_status (tr_receipt r)" "rc_logs (tr_receipt (add_gas g r)) = rc_logs (tr_receipt r)"
  by (simp_all add: add_gas_def)

lemma length_running_gas [simp]: "length (running_gas g rs) = length rs"
  by (induction rs arbitrary: g) simp_all

lemma running_gas_state: "j < length rs \<Longrightarrow> tr_state (running_gas g rs ! j) = tr_state (rs ! j)"
  by (induction rs arbitrary: g j) (auto simp: nth_Cons split: nat.splits)

lemma running_gas_sum:
  "j < length rs \<Longrightarrow>
   unat (gas_of (running_gas g rs ! j)) = min (2 ^ 64 - 1) (unat g + (\<Sum>r\<leftarrow>take (Suc j) rs. unat (gas_of r)))"
proof (induction rs arbitrary: g j)
  case (Cons r rs)
  show ?case
  proof (cases j)
    case 0
    then show ?thesis by (simp add: unat_saturating_add)
  next
    case (Suc k)
    with Cons show ?thesis by (simp add: unat_saturating_add)
  qed
qed simp

lemma collect_results_running:
  assumes "collect_results k i g rs = Some (out, rs')"
  shows "(\<forall>j < k. i + j < length rs \<and> rs ! (i + j) \<noteq> None) \<and>
   out = running_gas g (map (\<lambda>j. the (rs ! (i + j))) [0..<k]) \<and>
   length rs' = length rs \<and> (\<forall>j. rs' ! j = (if i \<le> j \<and> j < i + k then None else rs ! j))"
  using assms
proof (induction k arbitrary: i g rs out)
  case (Suc k)
  from Suc.prems obtain r out' where i: "i < length rs" and r: "rs ! i = Some r"
    and rest: "collect_results k (i + 1) (gas_of (add_gas g r)) (rs[i := None]) = Some (out', rs')"
    and out: "out = add_gas g r # out'"
    by (auto simp: take_slot_def Let_def split: option.splits if_splits)
  have nth: "rs[i := None] ! (Suc i + j) = rs ! (i + Suc j)" for j by simp
  from Suc.IH [OF rest] have IH: "\<And>j. j < k \<Longrightarrow> i + Suc j < length rs \<and> rs ! (i + Suc j) \<noteq> None"
    "out' = running_gas (gas_of (add_gas g r)) (map (\<lambda>j. the (rs ! (i + Suc j))) [0..<k])"
    "length rs' = length rs"
    and slots: "\<And>j. rs' ! j = (if Suc i \<le> j \<and> j < Suc i + k then None else rs[i := None] ! j)"
    by (simp_all add: nth)
  have "i + j < length rs \<and> rs ! (i + j) \<noteq> None" if "j < Suc k" for j
    using that i r IH(1) by (cases j) auto
  moreover have "map (\<lambda>j. the (rs ! (i + j))) [0..<Suc k] = r # map (\<lambda>j. the (rs ! (i + Suc j))) [0..<k]"
    using r by (simp add: upt_conv_Cons map_Suc_upt [symmetric] del: upt_Suc)
  moreover have "rs' ! j = (if i \<le> j \<and> j < i + Suc k then None else rs ! j)" for j
    using slots [of j] i by (cases "j = i") auto
  ultimately show ?case using out IH(2,3) by simp
qed auto

lemma collect_results_total:
  "\<forall>j < k. i + j < length rs \<and> rs ! (i + j) \<noteq> None \<Longrightarrow> \<exists>p. collect_results k i g rs = Some p"
proof (induction k arbitrary: i g rs)
  case (Suc k)
  from Suc.prems obtain r where i: "i < length rs" "rs ! i = Some r" by force
  have "\<forall>j < k. i + 1 + j < length (rs[i := None]) \<and> rs[i := None] ! (i + 1 + j) \<noteq> None"
    using Suc.prems by (auto dest: spec [of _ "Suc _"])
  from Suc.IH [OF this, of "gas_of (add_gas g r)"] i show ?case
    by (auto simp: take_slot_def Let_def)
qed simp

text \<open>
  After the workers have joined, collecting the results never touches an empty slot when every
  slot of the block is filled, and the receipts get the running sum of the gas of the transactions up
  to and including their own, saturating at \<open>2 ^ 64 - 1\<close>; status, logs and state transitions are
  those of the slot, and every slot is left empty for the next block.
\<close>

theorem results_collected:
  assumes "\<forall>j < n. j < length rs \<and> rs ! j \<noteq> None"
  shows "\<exists>out rs'. collect_results n 0 0 rs = Some (out, rs') \<and> length out = n \<and> length rs' = length rs \<and>
    (\<forall>j < n. rs' ! j = None \<and> tr_state (out ! j) = tr_state (the (rs ! j)) \<and>
       unat (gas_of (out ! j)) = min (2 ^ 64 - 1) (\<Sum>l < Suc j. unat (gas_of (the (rs ! l)))))"
proof -
  from assms obtain out rs' where c: "collect_results n 0 0 rs = Some (out, rs')"
    using collect_results_total [of n 0 rs 0] by auto
  let ?rs = "map (\<lambda>j. the (rs ! j)) [0..<n]"
  from collect_results_running [OF c] have out: "out = running_gas 0 ?rs" "length rs' = length rs"
    "\<And>j. rs' ! j = (if j < n then None else rs ! j)" by simp_all
  have "unat (gas_of (out ! j)) = min (2 ^ 64 - 1) (\<Sum>l < Suc j. unat (gas_of (the (rs ! l))))" if "j < n" for j
  proof -
    have "take (Suc j) ?rs = map (\<lambda>l. the (rs ! l)) [0..<Suc j]"
      using that by (simp add: take_map del: upt_Suc)
    then have "(\<Sum>r\<leftarrow>take (Suc j) ?rs. unat (gas_of r)) = (\<Sum>l < Suc j. unat (gas_of (the (rs ! l))))"
      by (simp add: sum_list_sum_nth atLeast0LessThan del: upt_Suc)
    with running_gas_sum [of j ?rs 0] that out(1) show ?thesis by simp
  qed
  moreover have "tr_state (out ! j) = tr_state (the (rs ! j))" if "j < n" for j
    using that out(1) running_gas_state [of j ?rs 0] by simp
  ultimately show ?thesis using c out by auto
qed

definition gas_result :: "u64 \<Rightarrow> (unit, unit) tx_result" where
  "gas_result g = \<lparr>tr_receipt = \<lparr>rc_status = True, rc_cumulative_gas_used = g, rc_logs = []\<rparr>, tr_state = []\<rparr>"

theorem results_collected_witness:
  "\<exists>out rs'. collect_results 2 0 0 [Some (gas_result 21000), Some (gas_result 5)] = Some (out, rs') \<and>
     unat (gas_of (out ! 1)) = 21005 \<and> rs' ! 1 = None"
proof -
  have "\<forall>j < 2. j < length [Some (gas_result 21000), Some (gas_result 5)] \<and>
      [Some (gas_result 21000), Some (gas_result 5)] ! j \<noteq> None"
    by (auto simp: less_2_cases_iff)
  from results_collected [OF this] obtain out rs' where
    c: "collect_results 2 0 0 [Some (gas_result 21000), Some (gas_result 5)] = Some (out, rs')"
    and all: "\<forall>j < 2. rs' ! j = None \<and>
       unat (gas_of (out ! j)) = min (2 ^ 64 - 1) (\<Sum>l < Suc j. unat (gas_of (the ([Some (gas_result 21000), Some (gas_result 5)] ! l))))"
    by blast
  from all [rule_format, of 1] have "rs' ! 1 = None" "unat (gas_of (out ! 1)) = 21005"
    by (simp_all add: gas_result_def)
  with c show ?thesis by blast
qed

section \<open>The final evaluation\<close>

lemma evaluate_entry_update:
  "evaluate_entry blob_gas tx e b = Some (Inr b') \<Longrightarrow> b' = apply_update e b"
  by (cases "(blob_gas, tx, e, b)" rule: evaluate_entry.cases) (auto split: if_splits)

abbreviation replay :: "account_basic \<Rightarrow> (nat \<times> memory_entry) list \<Rightarrow> account_basic" where
  "replay \<equiv> foldl (\<lambda>acc (k, e). apply_update e acc)"

text \<open>The entries up to transaction \<open>j\<close>.\<close>

abbreviation upto_tx :: "nat \<Rightarrow> (nat \<times> memory_entry) list \<Rightarrow> (nat \<times> memory_entry) list" where
  "upto_tx j history \<equiv> filter (\<lambda>(k, _). k \<le> j) history"

lemma evaluate_history_effect:
  assumes "evaluate_history blob_gas txs eip161 code_hash code a history b results = Some (Inr out)"
    and "sorted_wrt (<) (map fst history)" "\<forall>(k, e) \<in> set history. k < length results"
  shows "length out = length results \<and> (\<forall>j < length results.
    out ! j = (if j \<in> fst ` set history
               then update_state eip161 code_hash code a (replay b (upto_tx j history)) (results ! j)
               else results ! j))"
  using assms
proof (induction history arbitrary: b results)
  case (Cons p history)
  obtain i e where p: "p = (i, e)" by (cases p)
  from Cons.prems(1) p obtain b' where ee: "evaluate_entry blob_gas (txs ! i) e b = Some (Inr b')"
    and rest: "evaluate_history blob_gas txs eip161 code_hash code a history b'
      (results[i := update_state eip161 code_hash code a b' (results ! i)]) = Some (Inr out)"
    by (auto split: option.splits sum.splits)
  note b' = evaluate_entry_update [OF ee]
  have gt: "i < k" if "(k, e') \<in> set history" for k e' using Cons.prems(2) p that by auto
  have IH: "length out = length results" "\<And>j. j < length results \<Longrightarrow>
    out ! j = (if j \<in> fst ` set history
       then update_state eip161 code_hash code a (replay b' (upto_tx j history))
         (results[i := update_state eip161 code_hash code a b' (results ! i)] ! j)
       else results[i := update_state eip161 code_hash code a b' (results ! i)] ! j)"
    using Cons.IH [OF rest] Cons.prems(2,3) by auto
  have none: "upto_tx i history = []" using gt by (fastforce simp: filter_empty_conv)
  have "out ! j = (if j \<in> fst ` set (p # history)
      then update_state eip161 code_hash code a (replay b (upto_tx j (p # history))) (results ! j) else results ! j)"
    if j: "j < length results" for j
  proof (cases "j = i")
    case True
    have "i \<notin> fst ` set history" using gt by fastforce
    with IH(2) [OF j] True j b' none p show ?thesis by simp
  next
    case False
    have "i \<le> j" if "j \<in> fst ` set history" using gt that by fastforce
    with IH(2) [OF j] False b' p show ?thesis by auto
  qed
  with IH(1) show ?case by blast
qed simp

lemma upto_tx_entries: "j < n \<Longrightarrow> upto_tx j (entries_below n t) = entries_below (Suc j) t"
proof (induction n)
  case (Suc n)
  show ?case
  proof (cases "j = n")
    case True
    have "upto_tx n (entries_below n t) = entries_below n t"
      by (rule filter_True) (auto simp: set_entries_below)
    with True show ?thesis by (simp split: option.splits)
  next
    case False
    with Suc have "upto_tx j (entries_below n t) = entries_below (Suc j) t" by simp
    with False Suc.prems show ?thesis by (auto split: option.splits)
  qed
qed simp

text \<open>What the storage says about the code of an account.\<close>

definition stored_code :: "'jt storage_api \<Rightarrow> address \<Rightarrow> b256 option \<times> 'jt evm_code option" where
  "stored_code S a =
     (case st_code_hash S a of
        Inr (Some h) \<Rightarrow> (case st_code_by_hash S h of Inr code \<Rightarrow> (Some h, code) | Inl _ \<Rightarrow> (Some h, None))
      | _ \<Rightarrow> (None, None))"

definition lazy_history :: "('bc, 'jt) revm_api \<Rightarrow> 'bc mv_memory \<Rightarrow> nat \<Rightarrow> address \<Rightarrow> (tx_idx \<times> memory_entry) list" where
  "lazy_history P mv n a = entries_below n (table_entry (mv_data mv) (hash_deterministic P (LocBasic a)))"

text \<open>The account a lazy address has after transaction \<open>j\<close>, by the entries in transaction order.\<close>

definition account_after_tx ::
  "('bc, 'jt) revm_api \<Rightarrow> 'jt storage_api \<Rightarrow> 'bc mv_memory \<Rightarrow> nat \<Rightarrow> address \<Rightarrow> nat \<Rightarrow> account_basic" where
  "account_after_tx P S mv n a j =
     forward (table_entry (mv_data mv) (hash_deterministic P (LocBasic a))) (Suc j)
       (initial_account S a (lazy_history P mv n a))"

lemma entries_below_empty: "entries_below n (\<lambda>_. None) = []"
  by (induction n) simp_all

lemma evaluate_address_effect:
  assumes ev: "evaluate_address P S blob_gas txs eip161 mv a results = Some (Inr out)"
    and len: "length results = length txs"
  shows "length out = length results \<and> (\<forall>j < length results.
    out ! j = (if j \<in> fst ` set (lazy_history P mv (length txs) a)
               then update_state eip161 (fst (stored_code S a)) (snd (stored_code S a)) a
                      (account_after_tx P S mv (length txs) a j) (results ! j)
               else results ! j))"
proof (cases "mv_data mv (hash_deterministic P (LocBasic a))")
  case None
  with ev show ?thesis
    by (simp add: evaluate_address_def lazy_history_def table_entry_absent entries_below_empty)
next
  case (Some t)
  then have t: "table_entry (mv_data mv) (hash_deterministic P (LocBasic a)) = t"
    by (simp add: table_entry_def fun_eq_iff)
  let ?n = "length txs" and ?h = "lazy_history P mv (length txs) a"
  have h: "?h = entries_below ?n t" by (simp add: lazy_history_def t)
  from ev Some h have "evaluate_history blob_gas txs eip161 (fst (stored_code S a)) (snd (stored_code S a)) a ?h
      (initial_account S a ?h) results = Some (Inr out)"
    by (auto simp: evaluate_address_def stored_code_def Let_def split: sum.splits option.splits)
  from evaluate_history_effect [OF this] len
  have "length out = length results \<and> (\<forall>j < length results.
    out ! j = (if j \<in> fst ` set ?h
               then update_state eip161 (fst (stored_code S a)) (snd (stored_code S a)) a
                 (replay (initial_account S a ?h) (upto_tx j ?h)) (results ! j)
               else results ! j))"
    by (auto simp: h sorted_entries_below set_entries_below)
  then show ?thesis
    using len by (auto simp: account_after_tx_def forward_def h t upto_tx_entries simp del: entries_below.simps)
qed

lemma update_state_sel [simp]:
  "tr_receipt (update_state eip161 ch code a b r) = tr_receipt r"
  "map_of (tr_state (update_state eip161 ch code a b r)) a' =
     (if a' = a then Some (updated_account eip161 ch code b (case map_of (tr_state r) a of Some acc \<Rightarrow> acc | None \<Rightarrow> None))
      else map_of (tr_state r) a')"
  by (simp_all add: update_state_def update_conv)

lemma evaluate_lazy_effect:
  assumes "evaluate_lazy P S blob_gas txs eip161 mv addrs results = Some (Inr out)"
    and "length results = length txs" "distinct addrs"
  shows "length out = length results \<and> (\<forall>j < length results. tr_receipt (out ! j) = tr_receipt (results ! j) \<and>
    (\<forall>a. map_of (tr_state (out ! j)) a =
      (if a \<in> set addrs \<and> j \<in> fst ` set (lazy_history P mv (length txs) a)
       then Some (updated_account eip161 (fst (stored_code S a)) (snd (stored_code S a))
              (account_after_tx P S mv (length txs) a j)
              (case map_of (tr_state (results ! j)) a of Some acc \<Rightarrow> acc | None \<Rightarrow> None))
       else map_of (tr_state (results ! j)) a)))"
  using assms
proof (induction addrs arbitrary: results)
  case (Cons a addrs)
  from Cons.prems(1) obtain mid where m: "evaluate_address P S blob_gas txs eip161 mv a results = Some (Inr mid)"
    and rest: "evaluate_lazy P S blob_gas txs eip161 mv addrs mid = Some (Inr out)"
    by (auto split: option.splits sum.splits)
  note e = evaluate_address_effect [OF m Cons.prems(2)]
  have len: "length mid = length txs" using e Cons.prems(2) by simp
  note IH = Cons.IH [OF rest len]
  show ?case
    using e IH Cons.prems(2,3) len by auto
qed simp

text \<open>
  C10: The final evaluation is exact. When it succeeds, the state transitions of each transaction hold,
  for every lazily updated account the transaction wrote, the balance and nonce obtained by applying
  the block's updates in transaction order to the stored account (or nothing, for an empty account
  after EIP-161), with code and storage kept; every other account and every receipt is as collected.
\<close>

theorem lazy_accounts_evaluated:
  assumes "evaluate_lazy P S blob_gas txs eip161 mv (lazy_addresses mv) results = Some (Inr out)"
    and "length results = length txs" "mv_wf n mv"
  shows "length out = length txs \<and> (\<forall>j < length txs. tr_receipt (out ! j) = tr_receipt (results ! j) \<and>
    (\<forall>a. map_of (tr_state (out ! j)) a =
      (if a \<in> set (lazy_addresses mv) \<and> entry_at mv (hash_deterministic P (LocBasic a)) j \<noteq> None
       then Some (updated_account eip161 (fst (stored_code S a)) (snd (stored_code S a))
              (account_after_tx P S mv (length txs) a j)
              (case map_of (tr_state (results ! j)) a of Some acc \<Rightarrow> acc | None \<Rightarrow> None))
       else map_of (tr_state (results ! j)) a)))"
proof -
  have "j \<in> fst ` set (lazy_history P mv (length txs) a) \<longleftrightarrow> entry_at mv (hash_deterministic P (LocBasic a)) j \<noteq> None"
    if "j < length txs" for j a
    using that by (force simp: lazy_history_def set_entries_below)
  with evaluate_lazy_effect [OF assms(1,2) mv_wfD(6) [OF assms(3)]] assms(2) show ?thesis by simp
qed

text \<open>The sample block after both executions: the beneficiary 99 was credited lazily by each.\<close>

definition sample_results :: "(bool list, unit) tx_result list" where
  "sample_results = replicate 2 \<lparr>tr_receipt = \<lparr>rc_status = True, rc_cumulative_gas_used = 100, rc_logs = []\<rparr>, tr_state = []\<rparr>"

lemma sample_mv2_wf: "mv_wf 2 sample_mv2"
  unfolding sample_mv2_def by (rule mv_record_frame(1) [OF sample_mv1_wf]) simp

lemma sample_mv2_history:
  "mv_data sample_mv2 396 = Some (Map.empty(0 \<mapsto> Data 0 (LazyRecipient 100), 1 \<mapsto> Data 0 (LazyRecipient 100)))"
  "lazy_addresses sample_mv2 = [99]"
  by (auto simp: sample_mv2_def sample_mv1_def mv_record_def remove_stale.simps sample_writes1_def Let_def
      tree_insert_def estimate_tree_def fun_eq_iff)

lemma sample_hash_99: "hash_deterministic sample_api (LocBasic 99) = 396"
  by (simp add: sample_api_def)

lemma entries_below_two: "entries_below 2 t = (case t 0 of Some v \<Rightarrow> [(0, v)] | None \<Rightarrow> []) @ (case t 1 of Some v \<Rightarrow> [(1, v)] | None \<Rightarrow> [])"
  by (simp add: numeral_2_eq_2 split: option.splits)

lemma sample_evaluated:
  "\<exists>out. evaluate_lazy sample_api sample_storage (\<lambda>_. 0) [sample_tx 0, sample_tx 1] True sample_mv2
     (lazy_addresses sample_mv2) sample_results = Some (Inr out)"
  by (simp add: sample_mv2_history evaluate_address_def sample_hash_99 entries_below_two sample_results_def replicate_two
      initial_account_def sample_storage_def in_memory_api_def in_memory_new_def im_basic_def im_code_hash_def
      check_nonce_def sample_tx_def Let_def)

theorem lazy_accounts_evaluated_witness:
  "\<exists>out. evaluate_lazy sample_api sample_storage (\<lambda>_. 0) [sample_tx 0, sample_tx 1] True sample_mv2
      (lazy_addresses sample_mv2) sample_results = Some (Inr out) \<and>
     map_of (tr_state (out ! 1)) 99 = Some (Some (sample_account 200 None []))"
proof -
  obtain out where out: "evaluate_lazy sample_api sample_storage (\<lambda>_. 0) [sample_tx 0, sample_tx 1] True sample_mv2
     (lazy_addresses sample_mv2) sample_results = Some (Inr out)"
    using sample_evaluated by blast
  have entry: "entry_at sample_mv2 396 1 = Some (Data 0 (LazyRecipient 100))"
    by (simp add: table_entry_def sample_mv2_history)
  have tree: "table_entry (mv_data sample_mv2) 396 = Map.empty(0 \<mapsto> Data 0 (LazyRecipient 100), 1 \<mapsto> Data 0 (LazyRecipient 100))"
    by (simp add: table_entry_def sample_mv2_history fun_eq_iff)
  have acc: "account_after_tx sample_api sample_storage sample_mv2 2 99 1 = \<lparr>ab_balance = 200, ab_nonce = 0\<rparr>"
    by (simp add: account_after_tx_def sample_hash_99 lazy_history_def tree entries_below_two forward_def
        initial_account_def sample_storage_def in_memory_api_def in_memory_new_def im_basic_def account_basic_default_def
        saturating_add_def)
  have code: "stored_code sample_storage 99 = (None, None)"
    by (simp add: stored_code_def sample_storage_def in_memory_api_def in_memory_new_def im_code_hash_def)
  have res: "map_of (tr_state (sample_results ! 1)) 99 = None" by (simp add: sample_results_def replicate_two)
  have len: "length sample_results = length [sample_tx 0, sample_tx 1]" and two: "length [sample_tx 0, sample_tx 1] = 2"
    by (simp_all add: sample_results_def)
  have addr: "99 \<in> set (lazy_addresses sample_mv2)" by (simp add: sample_mv2_history)
  from lazy_accounts_evaluated [OF out len sample_mv2_wf, unfolded two, THEN conjunct2, rule_format, of 1, THEN conjunct2, rule_format, of 99]
  have "map_of (tr_state (out ! 1)) 99 = Some (Some (sample_account 200 None []))"
    unfolding sample_hash_99 entry acc code res using addr by (simp add: updated_account_def sample_account_def)
  with out show ?thesis by blast
qed

section \<open>Errors of the final evaluation\<close>

text \<open>Why an evaluation stops at entry \<open>e\<close> of transaction \<open>i\<close> when the account before it is \<open>b\<close>.\<close>

definition entry_rejected ::
  "('au tx_env \<Rightarrow> u64) \<Rightarrow> 'au tx_env \<Rightarrow> address \<Rightarrow> tx_idx \<Rightarrow> memory_entry \<Rightarrow> account_basic \<Rightarrow> pevm_error \<Rightarrow> bool" where
  "entry_rejected blob_gas tx a i e b err \<longleftrightarrow>
     (\<exists>inc x. e = Data inc (LazySender x) \<and> ab_balance b < max_fee blob_gas tx \<and>
        err = PevmExecutionError (EvmFailure (LackOfFundForMaxFee (max_fee blob_gas tx) (ab_balance b)))) \<or>
     te_caller tx = a \<and> ab_nonce (apply_update e b) = 0 \<and> err = UnreachableError \<or>
     te_caller tx = a \<and> te_nonce tx \<noteq> ab_nonce (apply_update e b) - 1 \<and>
       err = NonceMismatch i (te_nonce tx) (ab_nonce (apply_update e b) - 1)"

fun account_entry :: "memory_entry \<Rightarrow> bool" where
  "account_entry (Data inc (ValBasic b)) = True"
| "account_entry (Data inc (LazyRecipient x)) = True"
| "account_entry (Data inc (LazySender x)) = True"
| "account_entry e = False"

lemma evaluate_entry_panic: "evaluate_entry blob_gas tx e b = None \<longleftrightarrow> \<not> account_entry e"
  by (cases "(blob_gas, tx, e, b)" rule: evaluate_entry.cases) auto

lemma evaluate_entry_error:
  "evaluate_entry blob_gas tx e b = Some (Inl err) \<Longrightarrow> entry_rejected blob_gas tx a i e b err"
  by (cases "(blob_gas, tx, e, b)" rule: evaluate_entry.cases) (auto simp: entry_rejected_def split: if_splits)

lemma check_nonce_error:
  "evaluate_entry blob_gas tx e b = Some (Inr b') \<Longrightarrow> check_nonce tx a i (ab_nonce b') = Some err \<Longrightarrow>
   entry_rejected blob_gas tx a i e b err"
  by (drule evaluate_entry_update) (auto simp: check_nonce_def entry_rejected_def split: if_splits)

lemma evaluate_history_outcome:
  assumes "\<forall>(k, e) \<in> set history. account_entry e"
  shows "\<exists>r. evaluate_history blob_gas txs eip161 ch code a history b results = Some r \<and>
    (\<forall>err. r = Inl err \<longrightarrow> (\<exists>xs i e ys. history = xs @ (i, e) # ys \<and> entry_rejected blob_gas (txs ! i) a i e (replay b xs) err))"
  using assms
proof (induction history arbitrary: b results)
  case (Cons p history)
  obtain i e where p: "p = (i, e)" by (cases p)
  let ?stop = "\<lambda>err. \<exists>xs j d ys. p # history = xs @ (j, d) # ys \<and> entry_rejected blob_gas (txs ! j) a j d (replay b xs) err"
  have here: "?stop err" if "entry_rejected blob_gas (txs ! i) a i e b err" for err
    by (rule exI [of _ "[]"]) (use that p in auto)
  from Cons.prems p obtain r where r: "evaluate_entry blob_gas (txs ! i) e b = Some r"
    using evaluate_entry_panic [of blob_gas "txs ! i" e b] by fastforce
  show ?case
  proof (cases r)
    case (Inl err)
    with r p here evaluate_entry_error show ?thesis by fastforce
  next
    case (Inr b')
    note b' = evaluate_entry_update [OF r [unfolded Inr]]
    show ?thesis
    proof (cases "check_nonce (txs ! i) a i (ab_nonce b')")
      case (Some err)
      with r Inr p here check_nonce_error show ?thesis by fastforce
    next
      case None
      let ?res = "results[i := update_state eip161 ch code a b' (results ! i)]"
      from Cons.prems have "\<forall>(k, e) \<in> set history. account_entry e" by simp
      from Cons.IH [OF this, of b' ?res] obtain r' where
        r': "evaluate_history blob_gas txs eip161 ch code a history b' ?res = Some r'"
        and stop: "\<And>err. r' = Inl err \<Longrightarrow> \<exists>xs j d ys. history = xs @ (j, d) # ys \<and>
          entry_rejected blob_gas (txs ! j) a j d (replay b' xs) err" by blast
      have "?stop err" if "r' = Inl err" for err
      proof -
        from stop [OF that] obtain xs j d ys where "history = xs @ (j, d) # ys"
          "entry_rejected blob_gas (txs ! j) a j d (replay b' xs) err" by blast
        then show ?thesis
          by (intro exI [of _ "p # xs"] exI [of _ j] exI [of _ d] exI [of _ ys]) (simp add: p b')
      qed
      with r Inr None p r' show ?thesis by simp
    qed
  qed
qed simp

lemma entries_below_split:
  "entries_below n t = xs @ (i, e) # ys \<Longrightarrow> xs = entries_below i t \<and> i < n \<and> t i = Some e"
proof (induction n arbitrary: ys)
  case (Suc n)
  show ?case
  proof (cases "t n")
    case None
    with Suc show ?thesis by fastforce
  next
    case (Some v)
    with Suc.prems have eq: "entries_below n t @ [(n, v)] = xs @ (i, e) # ys" by simp
    show ?thesis
    proof (cases ys rule: rev_cases)
      case Nil
      with eq Some show ?thesis by auto
    next
      case (snoc zs z)
      with eq have "entries_below n t = xs @ (i, e) # zs" by simp
      from Suc.IH [OF this] show ?thesis by simp
    qed
  qed
qed simp

definition storage_rejected :: "'jt storage_api \<Rightarrow> address \<Rightarrow> pevm_error \<Rightarrow> bool" where
  "storage_rejected S a err \<longleftrightarrow> (\<exists>msg. err = PevmStorageError msg \<and>
     (st_code_hash S a = Inl msg \<or> (\<exists>h. st_code_hash S a = Inr (Some h) \<and> st_code_by_hash S h = Inl msg)))"

definition lazy_rejected ::
  "('bc, 'jt) revm_api \<Rightarrow> 'jt storage_api \<Rightarrow> ('au tx_env \<Rightarrow> u64) \<Rightarrow> 'au tx_env list \<Rightarrow> 'bc mv_memory \<Rightarrow> address \<Rightarrow> pevm_error \<Rightarrow> bool" where
  "lazy_rejected P S blob_gas txs mv a err \<longleftrightarrow>
     storage_rejected S a err \<or>
     (\<exists>i < length txs. \<exists>e. entry_at mv (hash_deterministic P (LocBasic a)) i = Some e \<and>
        entry_rejected blob_gas (txs ! i) a i e
          (forward (table_entry (mv_data mv) (hash_deterministic P (LocBasic a))) i
             (initial_account S a (lazy_history P mv (length txs) a))) err)"

lemma evaluate_address_outcome:
  assumes "\<forall>(k, e) \<in> set (lazy_history P mv (length txs) a). account_entry e"
  shows "\<exists>r. evaluate_address P S blob_gas txs eip161 mv a results = Some r \<and>
    (\<forall>err. r = Inl err \<longrightarrow> lazy_rejected P S blob_gas txs mv a err)"
proof (cases "mv_data mv (hash_deterministic P (LocBasic a))")
  case None
  then show ?thesis by (simp add: evaluate_address_def)
next
  case (Some t)
  let ?n = "length txs" and ?b = "initial_account S a (lazy_history P mv (length txs) a)"
  have t: "table_entry (mv_data mv) (hash_deterministic P (LocBasic a)) = t"
    using Some by (simp add: table_entry_def fun_eq_iff)
  then have h: "lazy_history P mv ?n a = entries_below ?n t" by (simp add: lazy_history_def)
  have hist: "\<exists>r. evaluate_history blob_gas txs eip161 ch code a (entries_below ?n t) ?b results = Some r \<and>
      (\<forall>err. r = Inl err \<longrightarrow> lazy_rejected P S blob_gas txs mv a err)" for ch code
  proof -
    obtain r where r: "evaluate_history blob_gas txs eip161 ch code a (entries_below ?n t) ?b results = Some r"
      and stop: "\<And>err. r = Inl err \<Longrightarrow> \<exists>xs i e ys. entries_below ?n t = xs @ (i, e) # ys \<and>
        entry_rejected blob_gas (txs ! i) a i e (replay ?b xs) err"
      using evaluate_history_outcome [of "entries_below ?n t" blob_gas txs eip161 ch code a ?b results] assms h by auto
    have "lazy_rejected P S blob_gas txs mv a err" if "r = Inl err" for err
      using stop [OF that] by (auto simp: lazy_rejected_def t forward_def dest!: entries_below_split)
    with r show ?thesis by blast
  qed
  show ?thesis
    using Some h hist by (auto simp: evaluate_address_def Let_def lazy_rejected_def storage_rejected_def split: sum.splits option.splits)
qed

lemma evaluate_lazy_outcome:
  assumes "\<forall>a \<in> set addrs. \<forall>(k, e) \<in> set (lazy_history P mv (length txs) a). account_entry e"
  shows "\<exists>r. evaluate_lazy P S blob_gas txs eip161 mv addrs results = Some r \<and>
    (\<forall>err. r = Inl err \<longrightarrow> (\<exists>a \<in> set addrs. lazy_rejected P S blob_gas txs mv a err))"
  using assms
proof (induction addrs arbitrary: results)
  case (Cons a addrs)
  from Cons.prems obtain r where r: "evaluate_address P S blob_gas txs eip161 mv a results = Some r"
    and rej: "\<And>err. r = Inl err \<Longrightarrow> lazy_rejected P S blob_gas txs mv a err"
    using evaluate_address_outcome [of P mv txs a S blob_gas eip161 results] by auto
  show ?case
  proof (cases r)
    case (Inl err)
    with r rej show ?thesis by simp
  next
    case (Inr mid)
    from Cons.IH [of mid] Cons.prems r Inr show ?thesis by auto
  qed
qed simp


section \<open>The sequential executor\<close>

text \<open>The state of the EVM before transaction \<open>j\<close>, and the gas transaction \<open>j\<close> uses there.\<close>

definition commit_tx :: "('s, 'tx, 'bc, 'lg) sequential_evm \<Rightarrow> 's \<Rightarrow> 'tx \<Rightarrow> 's" where
  "commit_tx V s tx = (case se_transact V s tx of Inr (_, state) \<Rightarrow> se_commit V s state | Inl _ \<Rightarrow> s)"

definition state_before :: "('s, 'tx, 'bc, 'lg) sequential_evm \<Rightarrow> 's \<Rightarrow> 'tx list \<Rightarrow> nat \<Rightarrow> 's" where
  "state_before V s txs j = foldl (commit_tx V) s (take j txs)"

definition tx_gas :: "('s, 'tx, 'bc, 'lg) sequential_evm \<Rightarrow> 's \<Rightarrow> 'tx \<Rightarrow> nat" where
  "tx_gas V s tx = (case se_transact V s tx of Inr (r, _) \<Rightarrow> unat (er_gas_used r) | Inl _ \<Rightarrow> 0)"

lemma state_before_0 [simp]: "state_before V s txs 0 = s"
  by (simp add: state_before_def)

lemma state_before_Suc [simp]: "state_before V s (tx # txs) (Suc j) = state_before V (commit_tx V s tx) txs j"
  by (simp add: state_before_def)

lemma sequential_loop_effect:
  assumes "sequential_loop P V eip161 s g txs = Some (Inr out)"
  shows "length out = length txs \<and> (\<forall>j < length txs. \<exists>r state.
    se_transact V (state_before V s txs j) (txs ! j) = Inr (r, state) \<and>
    state_transitions_from_revm P eip161 state = Some (tr_state (out ! j)) \<and>
    rc_status (tr_receipt (out ! j)) = er_success r \<and> rc_logs (tr_receipt (out ! j)) = er_logs r \<and>
    unat (gas_of (out ! j)) = min (2 ^ 64 - 1) (unat g + (\<Sum>l < Suc j. tx_gas V (state_before V s txs l) (txs ! l))))"
  using assms
proof (induction txs arbitrary: s g out)
  case (Cons tx txs)
  from Cons.prems obtain result state st out' where tr: "se_transact V s tx = Inr (result, state)"
    and st: "state_transitions_from_revm P eip161 state = Some st"
    and rest: "sequential_loop P V eip161 (se_commit V s state)
      (saturating_add g (er_gas_used result)) txs = Some (Inr out')"
    and out: "out = add_gas g \<lparr>tr_receipt = receipt_from_revm result, tr_state = st\<rparr> # out'"
    by (auto simp: Let_def receipt_from_revm_def split: sum.splits option.splits prod.splits)
  have s': "commit_tx V s tx = se_commit V s state" and g0: "tx_gas V s tx = unat (er_gas_used result)"
    using tr by (simp_all add: commit_tx_def tx_gas_def)
  note IH = Cons.IH [OF rest, folded s']
  have "\<exists>r state'. se_transact V (state_before V s (tx # txs) j) ((tx # txs) ! j) = Inr (r, state') \<and>
    state_transitions_from_revm P eip161 state' = Some (tr_state (out ! j)) \<and>
    rc_status (tr_receipt (out ! j)) = er_success r \<and> rc_logs (tr_receipt (out ! j)) = er_logs r \<and>
    unat (gas_of (out ! j)) = min (2 ^ 64 - 1) (unat g + (\<Sum>l < Suc j. tx_gas V (state_before V s (tx # txs) l) ((tx # txs) ! l)))"
    if j: "j < length (tx # txs)" for j
  proof (cases j)
    case 0
    with tr st out show ?thesis by (simp add: receipt_from_revm_def g0 unat_saturating_add)
  next
    case (Suc k)
    have "(\<Sum>l < Suc j. tx_gas V (state_before V s (tx # txs) l) ((tx # txs) ! l)) =
        unat (er_gas_used result) + (\<Sum>l < Suc k. tx_gas V (state_before V (commit_tx V s tx) txs l) (txs ! l))"
      unfolding Suc by (subst sum.lessThan_Suc_shift) (simp add: g0)
    with IH j Suc out show ?thesis by (auto simp: unat_saturating_add)
  qed
  with IH out show ?case by auto
qed simp

text \<open>
  C26: The sequential executor, when it returns results, returns one per transaction, in order: each is
  the outcome of the EVM on the state that the transactions before it have left, with the state
  transitions and logs of that outcome, and its receipt carries the gas of all transactions up to it,
  saturating at \<open>2 ^ 64 - 1\<close> as in the parallel executor.
\<close>

theorem sequential_results:
  assumes "execute_revm_sequential P V eip161 s txs = Some (Inr out)"
  shows "length out = length txs \<and> (\<forall>j < length txs. \<exists>r state.
    se_transact V (state_before V s txs j) (txs ! j) = Inr (r, state) \<and>
    state_transitions_from_revm P eip161 state = Some (tr_state (out ! j)) \<and>
    rc_status (tr_receipt (out ! j)) = er_success r \<and> rc_logs (tr_receipt (out ! j)) = er_logs r \<and>
    unat (gas_of (out ! j)) = min (2 ^ 64 - 1) (\<Sum>l < Suc j. tx_gas V (state_before V s txs l) (txs ! l)))"
  using sequential_loop_effect [OF assms [unfolded execute_revm_sequential_def]] by simp

text \<open>A machine that charges 30000 for every transaction and counts them in its state.\<close>

definition counting_evm :: "(nat, nat, sample_code, unit) sequential_evm" where
  "counting_evm =
     \<lparr>se_transact = (\<lambda>s tx. Inr (\<lparr>er_success = True, er_gas_used = 30000, er_logs = []\<rparr>,
        [(of_nat tx, \<lparr>ra_info = \<lparr>ai_balance = of_nat s, ai_nonce = 1, ai_code_hash = 77, ai_code = None\<rparr>,
           ra_storage = [], ra_touched = True, ra_selfdestructed = False\<rparr>)])),
      se_commit = (\<lambda>s _. Suc s)\<rparr>"

theorem sequential_results_witness:
  "\<exists>out. execute_revm_sequential sample_api counting_evm True 0 [10, 11] = Some (Inr out) \<and>
     length out = 2 \<and> unat (gas_of (out ! 1)) = 60000"
proof -
  obtain out where out: "execute_revm_sequential sample_api counting_evm True 0 [10, 11] = Some (Inr out)"
    by (simp add: execute_revm_sequential_def counting_evm_def transition_from_def sample_api_def evm_account_from_def)
  from sequential_results [OF out] have "length out = 2" "unat (gas_of (out ! 1)) =
      min (2 ^ 64 - 1) (\<Sum>l < Suc 1. tx_gas counting_evm (state_before counting_evm 0 [10, 11] l) ([10, 11] ! l))"
    by auto
  with out show ?thesis by (auto simp: tx_gas_def counting_evm_def)
qed

text \<open>Account 10 owns 1000 and lazily pays for a transaction that may cost 2000.\<close>

definition broke_mv :: "sample_code mv_memory" where
  "broke_mv = \<lparr>mv_data = [40 \<mapsto> [0 \<mapsto> Data 0 (LazySender 3)]], last_locations = [\<lparr>ll_read = [], ll_write = [40]\<rparr>],
     lazy_addresses = [10], new_bytecodes = Map.empty\<rparr>"

definition broke_txs :: "unit tx_env list" where
  "broke_txs = [(sample_tx 0)\<lparr>te_gas_limit := 2000\<rparr>]"


text \<open>
  C35: The final evaluation takes a storage that fails on the basic information of a lazily updated
  account for one in which the account does not exist: the block is evaluated from a zero balance and
  nonce instead of being refused, while a failure on the code of the same account is reported.
\<close>

theorem storage_failure_taken_as_absent:
  assumes "st_basic S a = Inl msg"
  shows "evaluate_address P S blob_gas txs eip161 mv a results =
    evaluate_address P (S\<lparr>st_basic := (st_basic S)(a := Inr None)\<rparr>) blob_gas txs eip161 mv a results"
proof -
  have "initial_account (S\<lparr>st_basic := (st_basic S)(a := Inr None)\<rparr>) a h = initial_account S a h" for h
    using assms by (auto simp: initial_account_def split: list.splits memory_entry.splits memory_value.splits)
  then show ?thesis by (auto simp: evaluate_address_def Let_def split: option.splits sum.splits)
qed

theorem storage_failure_taken_as_absent_witness:
  "(let S = sample_storage\<lparr>st_basic := (\<lambda>_. Inl ''timeout'')\<rparr>
    in evaluate_address sample_api S (\<lambda>_. 0) [sample_tx 0] True broke_mv 10 sample_results =
       evaluate_address sample_api (S\<lparr>st_basic := (st_basic S)(10 := Inr None)\<rparr>) (\<lambda>_. 0) [sample_tx 0] True broke_mv 10 sample_results)"
  unfolding Let_def by (rule storage_failure_taken_as_absent) simp

end
