(* ===== verification/Chain_Rewards.thy ===== *)
theory Chain_Rewards
  imports Chain Vm_Properties Pevm
begin

text \<open>
  The contract between a chain and the executor: the locations a chain marks as estimated before a
  block are exactly such that every transaction writes its own, as rewards, and the accounts that are
  rewarded are evaluated at the end. Together with the runs of a block below it shows that a block whose
  transactions have all been executed holds no estimate any more, so that the final evaluation cannot
  meet one.
\<close>

section \<open>Runs of a block on the memory\<close>

text \<open>
  What happens to the memory while a block is executed: executions of any version on whatever states of
  the memory they saw, failed executions, and aborts. The second set holds the transactions whose last
  event was a successful execution, the first bounds the locations that are written.
\<close>

definition state_locs :: "('bc, 'jt) revm_api \<Rightarrow> 'bc evm_state \<Rightarrow> memory_location list" where
  "state_locs P state =
     concat (map (\<lambda>(a, account). LocBasic a # LocCodeHash a #
       map (\<lambda>(slot, _). LocStorage a slot) (changed_storage_slots P account)) state)"

inductive block_run ::
  "('bc, 'jt) revm_api \<Rightarrow> 'jt storage_api \<Rightarrow> ('bc, 'au, 'tx, 'lg) vm_env \<Rightarrow> 'tx list \<Rightarrow> 'bc mv_memory \<Rightarrow>
   memory_location set \<Rightarrow> nat set \<Rightarrow> 'bc mv_memory \<Rightarrow> bool"
  for P S E txs mv0 L where
  start: "block_run P S E txs mv0 L {} mv0"
| executed: "block_run P S E txs mv0 L ex mv \<Longrightarrow> tx_idx v < length txs \<Longrightarrow>
    (\<And>r state db'. vm_run P S E M db (tx_idx v) (txs ! tx_idx v) = (Inr (Inr (r, state)), db') \<Longrightarrow>
       set (state_locs P state) \<subseteq> L) \<Longrightarrow>
    vm_execute P S E txs M mv db v = Some (Inr (flags, res), mv') \<Longrightarrow>
    block_run P S E txs mv0 L (insert (tx_idx v) ex) mv'"
| failed: "block_run P S E txs mv0 L ex mv \<Longrightarrow> tx_idx v < length txs \<Longrightarrow>
    vm_execute P S E txs M mv db v = Some (Inl e, mv') \<Longrightarrow> block_run P S E txs mv0 L ex mv'"
| aborted: "block_run P S E txs mv0 L ex mv \<Longrightarrow> i < length txs \<Longrightarrow>
    block_run P S E txs mv0 L (ex - {i}) (convert_writes_to_estimates mv i)"

lemma block_run_mono:
  assumes "block_run P S E txs mv0 L ex mv" "L \<subseteq> L'"
  shows "block_run P S E txs mv0 L' ex mv"
  using assms(1)
proof (induction rule: block_run.induct)
  case (executed ex mv v M db flags res mv')
  show ?case by (rule block_run.executed [OF executed.IH executed.hyps(2) _ executed.hyps(4)]) (use executed.hyps(3) assms(2) in blast)
next
  case (failed ex mv v M db e mv')
  show ?case by (rule block_run.failed [OF failed.IH failed.hyps(2,3)])
qed (auto intro: block_run.start block_run.aborted)

section \<open>Estimates\<close>

text \<open>Every estimate is at a location its transaction is bound to write, or wrote before.\<close>

definition estimates_covered :: "(nat \<Rightarrow> location_hash set) \<Rightarrow> 'bc mv_memory \<Rightarrow> bool" where
  "estimates_covered R mv \<longleftrightarrow>
     (\<forall>h i. entry_at mv h i = Some Estimate \<longrightarrow> h \<in> R i \<union> set (last_writes mv i))"

definition no_estimates :: "'bc mv_memory \<Rightarrow> nat \<Rightarrow> bool" where
  "no_estimates mv i \<longleftrightarrow> (\<forall>h. entry_at mv h i \<noteq> Some Estimate)"

lemma covered_record:
  assumes rec: "mv_record mv v rs ws = (new, mv')" and wf: "mv_wf n mv" "tx_idx v < n"
    and cov: "estimates_covered R mv" and R: "R (tx_idx v) \<subseteq> fst ` set ws"
  shows "estimates_covered R mv' \<and> no_estimates mv' (tx_idx v) \<and>
    (\<forall>j. j \<noteq> tx_idx v \<longrightarrow> no_estimates mv j \<longrightarrow> no_estimates mv' j)"
proof -
  note eff = record_spec [OF rec mv_wfD(2) [OF wf]]
  obtain ws' where ll: "last_locations mv' = (last_locations mv)[tx_idx v := \<lparr>ll_read = rs, ll_write = ws'\<rparr>]"
    using eff(3) by blast
  have own: "no_estimates mv' (tx_idx v)"
    unfolding no_estimates_def
  proof (intro allI notI)
    fix h assume "entry_at mv' h (tx_idx v) = Some Estimate"
    with eff(2) [of h "tx_idx v"] have "h \<notin> fst ` set ws" "h \<notin> set (last_writes mv (tx_idx v))"
      "entry_at mv h (tx_idx v) = Some Estimate"
      by (auto split: if_splits)
    with cov R show False unfolding estimates_covered_def by blast
  qed
  moreover have "entry_at mv' h j = entry_at mv h j" "last_writes mv' j = last_writes mv j" if "j \<noteq> tx_idx v" for h j
    using eff(2) that ll by simp_all
  ultimately show ?thesis
    using cov unfolding estimates_covered_def no_estimates_def by metis
qed

lemma estimates_last_writes: "last_writes (convert_writes_to_estimates mv i) j = last_writes mv j"
  by (simp add: convert_writes_to_estimates_def)

lemma covered_convert:
  assumes "estimates_covered R mv"
  shows "estimates_covered R (convert_writes_to_estimates mv i)"
    and "j \<noteq> i \<Longrightarrow> no_estimates mv j \<Longrightarrow> no_estimates (convert_writes_to_estimates mv i) j"
  using assms
  by (auto simp: estimates_covered_def no_estimates_def convert_writes_to_estimates_def table_entry_marks split: if_splits)

lemma block_run_covered:
  assumes "block_run P S E txs mv0 L ex mv" "mv_wf (length txs) mv0" "estimates_covered R mv0"
    and "\<And>i db r. i < length txs \<Longrightarrow> R i \<subseteq> fst ` set (rewards_of P E db (txs ! i) r)"
  shows "mv_wf (length txs) mv \<and> estimates_covered R mv \<and> (\<forall>i \<in> ex. no_estimates mv i)"
  using assms(1)
proof (induction rule: block_run.induct)
  case start
  with assms(2,3) show ?case by simp
next
  case (executed ex mv v M db flags res mv')
  from executed.hyps(4) obtain r state db' codes addrs ws new where
    ws: "write_set_of P E db' (txs ! tx_idx v) r state = Some ws"
    and rec: "mv_record (add_lazy_addresses (mv\<lparr>new_bytecodes := codes\<rparr>) addrs) v (db_read_set db') ws = (new, mv')"
    by (rule vm_execute_success)
  let ?mv = "add_lazy_addresses (mv\<lparr>new_bytecodes := codes\<rparr>) addrs"
  have same: "mv_data ?mv = mv_data mv" "last_locations ?mv = last_locations mv"
    by (simp_all add: add_lazy_addresses_def)
  have wf: "mv_wf (length txs) ?mv"
    using executed.IH by (intro mv_wf_lazy) (simp add: mv_wf_def)
  have "R (tx_idx v) \<subseteq> fst ` set ws"
    using assms(4) [OF executed.hyps(2), of db' r] apply_rewards_keys [OF ws [unfolded write_set_of_def]] by blast
  moreover have "estimates_covered R ?mv" "\<And>j. no_estimates ?mv j = no_estimates mv j"
    using executed.IH by (simp_all add: estimates_covered_def no_estimates_def same)
  ultimately have "estimates_covered R mv'" "no_estimates mv' (tx_idx v)"
    "\<And>j. j \<noteq> tx_idx v \<Longrightarrow> no_estimates mv j \<Longrightarrow> no_estimates mv' j"
    using covered_record [OF rec wf executed.hyps(2)] by auto
  then have "no_estimates mv' j" if "j \<in> insert (tx_idx v) ex" for j
    using that executed.IH by (cases "j = tx_idx v") auto
  with \<open>estimates_covered R mv'\<close> mv_wf_record [OF wf executed.hyps(2) rec] show ?case by blast
next
  case (failed ex mv v M db e mv')
  from vm_execute_failure [OF failed.hyps(3)] failed.IH show ?case
    by (simp add: mv_wf_def estimates_covered_def no_estimates_def)
next
  case (aborted ex mv i)
  with covered_convert mv_wf_estimates show ?case by blast
qed

section \<open>Values fit their locations\<close>

fun account_value :: "memory_value \<Rightarrow> bool" where
  "account_value (ValBasic b) = True"
| "account_value (LazyRecipient x) = True"
| "account_value (LazySender x) = True"
| "account_value v = False"

fun location_value :: "memory_location \<Rightarrow> memory_value \<Rightarrow> bool" where
  "location_value (LocBasic a) v = account_value v"
| "location_value (LocCodeHash a) v = (v = SelfDestructed \<or> (\<exists>c. v = ValCodeHash c))"
| "location_value (LocStorage a i) v = (\<exists>x. v = ValStorage x)"

text \<open>A value at a location of \<open>L\<close> with the given hash.\<close>

definition fits :: "('bc, 'jt) revm_api \<Rightarrow> memory_location set \<Rightarrow> location_hash \<Rightarrow> memory_value \<Rightarrow> bool" where
  "fits P L h v \<longleftrightarrow> (\<exists>l \<in> L. h = hash_deterministic P l \<and> location_value l v)"

definition values_fit :: "('bc, 'jt) revm_api \<Rightarrow> memory_location set \<Rightarrow> 'bc mv_memory \<Rightarrow> bool" where
  "values_fit P L mv \<longleftrightarrow> (\<forall>h i inc v. entry_at mv h i = Some (Data inc v) \<longrightarrow> fits P L h v)"

text \<open>The accounts that are rewarded are among the locations of \<open>L\<close>.\<close>

definition rewards_within :: "('bc, 'jt) revm_api \<Rightarrow> memory_location set \<Rightarrow> (location_hash \<times> u256) list \<Rightarrow> bool" where
  "rewards_within P L rs \<longleftrightarrow> (\<forall>(h, x) \<in> set rs. \<exists>a. LocBasic a \<in> L \<and> h = hash_deterministic P (LocBasic a))"

lemma account_writes_fit:
  assumes "(h, v) \<in> set (account_writes P eip161 db (a, account))" "(a, account) \<in> set state"
    and "set (state_locs P state) \<subseteq> L"
  shows "fits P L h v"
proof -
  have L: "LocBasic a \<in> L" "LocCodeHash a \<in> L"
    "\<And>slot x. (slot, x) \<in> set (changed_storage_slots P account) \<Longrightarrow> LocStorage a slot \<in> L"
    using assms(2,3) by (force simp: state_locs_def)+
  have at: "fits P L h v" if "l \<in> L" "h = hash_deterministic P l \<and> location_value l v" for l
    using that unfolding fits_def by blast
  have basic: "h = hash_deterministic P (LocBasic a) \<and> location_value (LocBasic a) v" if "(h, v) \<in> set (basic_writes P eip161 db a account)"
    using that by (auto simp: basic_writes_def Let_def split: if_splits)
  have code: "h = hash_deterministic P (LocCodeHash a) \<and> location_value (LocCodeHash a) v"
    if "(h, v) \<in> set (code_writes P db a account)" using that by (auto simp: code_writes_def split: if_splits)
  have slot: "\<exists>slot. LocStorage a slot \<in> L \<and> h = hash_deterministic P (LocStorage a slot) \<and> location_value (LocStorage a slot) v"
    if "(h, v) \<in> set (slot_writes P a account)" using that L(3) by (auto simp: slot_writes_def)
  from assms(1) consider "h = hash_deterministic P (LocCodeHash a) \<and> v = SelfDestructed" | "(h, v) \<in> set (basic_writes P eip161 db a account)"
    | "(h, v) \<in> set (code_writes P db a account)" | "(h, v) \<in> set (slot_writes P a account)"
    by (auto simp: account_writes_def split: if_splits)
  then show ?thesis
  proof cases
    case 1
    then show ?thesis by (intro at [OF L(2)]) simp
  qed (use at [OF L(1) basic] at [OF L(2) code] slot at in blast)+
qed

lemma location_value_account: "location_value l v \<Longrightarrow> account_value v \<Longrightarrow> account_value v' \<Longrightarrow> location_value l v'"
  by (cases l) auto

lemma credit_account: "credit v x = Some v' \<Longrightarrow> account_value v \<and> account_value v'"
  by (cases v) auto

lemma reward_write_fit:
  assumes "reward_write h x ws = Some ws'" "list_all (\<lambda>(l, v). fits P L l v) ws" "LocBasic a \<in> L" "h = hash_deterministic P (LocBasic a)"
  shows "list_all (\<lambda>(l, v). fits P L l v) ws'"
  using assms(1,2)
proof (induction ws arbitrary: ws')
  case Nil
  with assms(3,4) location_value.simps(1) show ?case by (fastforce simp: fits_def)
next
  case (Cons p ws)
  obtain l v where p: "p = (l, v)" by (cases p)
  have "fits P L l v'" if "credit v x = Some v'" "fits P L l v" for v'
    using that credit_account [OF that(1)] location_value_account unfolding fits_def by blast
  with Cons p show ?case by (auto split: if_splits)
qed

lemma apply_rewards_fit:
  "apply_rewards rs ws = Some ws' \<Longrightarrow> list_all (\<lambda>(l, v). fits P L l v) ws \<Longrightarrow> rewards_within P L rs \<Longrightarrow>
    list_all (\<lambda>(l, v). fits P L l v) ws'"
proof (induction rs arbitrary: ws)
  case (Cons r rs)
  obtain h x where r: "r = (h, x)" by (cases r)
  with Cons.prems obtain ws1 where ws1: "reward_write h x ws = Some ws1" "apply_rewards rs ws1 = Some ws'"
    by (auto split: option.splits)
  from Cons.prems(3) r obtain a where "LocBasic a \<in> L" "h = hash_deterministic P (LocBasic a)" by (auto simp: rewards_within_def)
  from reward_write_fit [OF ws1(1) Cons.prems(2) this] Cons.IH [OF ws1(2)] Cons.prems(3) show ?case
    by (simp add: rewards_within_def)
qed simp

lemma write_set_fits:
  assumes "write_set_of P E db tx r state = Some ws" "set (state_locs P state) \<subseteq> L" "rewards_within P L (rewards_of P E db tx r)"
  shows "\<forall>(h, v) \<in> set ws. fits P L h v"
proof -
  have "list_all (\<lambda>(h, v). fits P L h v) (concat (map (account_writes P (ve_eip161 E) db) state))"
    using account_writes_fit [OF _ _ assms(2)] by (auto simp: list_all_iff)
  from apply_rewards_fit [OF assms(1) [unfolded write_set_of_def] this assms(3)] show ?thesis by (simp add: list_all_iff)
qed

lemma block_run_fits:
  assumes "block_run P S E txs mv0 L ex mv" "mv_wf (length txs) mv0" "values_fit P L mv0"
    and "\<And>tx db r. tx \<in> set txs \<Longrightarrow> rewards_within P L (rewards_of P E db tx r)"
  shows "mv_wf (length txs) mv \<and> values_fit P L mv"
  using assms(1)
proof (induction rule: block_run.induct)
  case start
  with assms(2,3) show ?case by simp
next
  case (executed ex mv v M db flags res mv')
  from executed.hyps(4) obtain r state db' codes addrs ws new where
    run: "vm_run P S E M db (tx_idx v) (txs ! tx_idx v) = (Inr (Inr (r, state)), db')"
    and ws: "write_set_of P E db' (txs ! tx_idx v) r state = Some ws"
    and rec: "mv_record (add_lazy_addresses (mv\<lparr>new_bytecodes := codes\<rparr>) addrs) v (db_read_set db') ws = (new, mv')"
    by (rule vm_execute_success)
  let ?mv = "add_lazy_addresses (mv\<lparr>new_bytecodes := codes\<rparr>) addrs"
  have same: "mv_data ?mv = mv_data mv" "last_locations ?mv = last_locations mv"
    by (simp_all add: add_lazy_addresses_def)
  have wf: "mv_wf (length txs) ?mv"
    using executed.IH by (intro mv_wf_lazy) (simp add: mv_wf_def)
  have ok: "\<forall>(h, v) \<in> set ws. fits P L h v" using write_set_fits [OF ws] executed.hyps(3) [OF run] assms(4) executed.hyps(2) by simp
  note eff = record_spec(2) [OF rec mv_wfD(2) [OF wf executed.hyps(2)], unfolded same]
  have "fits P L h (the (map_of (rev ws) h))" if "h \<in> fst ` set ws" for h
  proof -
    have "map_of (rev ws) h \<noteq> None" using that by (simp add: map_of_eq_None_iff)
    then obtain x where x: "map_of (rev ws) h = Some x" by blast
    then have "(h, x) \<in> set ws" using map_of_SomeD by fastforce
    with ok x show ?thesis by auto
  qed
  then have "values_fit P L mv'"
    using executed.IH eff unfolding values_fit_def by (auto split: if_splits)
  with mv_wf_record [OF wf executed.hyps(2) rec] show ?case by blast
next
  case (failed ex mv v M db e mv')
  from vm_execute_failure [OF failed.hyps(3)] failed.IH show ?case
    by (simp add: mv_wf_def values_fit_def)
next
  case (aborted ex mv i)
  then show ?case
    using mv_wf_estimates
    by (auto simp: values_fit_def convert_writes_to_estimates_def table_entry_marks split: if_splits)
qed

section \<open>The contract of a chain\<close>

lemma run_lazy_addresses:
  assumes "block_run P S E txs mv0 L ex mv"
  shows "set (lazy_addresses mv0) \<subseteq> set (lazy_addresses mv)"
  using assms
proof (induction rule: block_run.induct)
  case (executed ex mv v M db flags res mv')
  from executed.hyps(4) obtain r state db' codes addrs ws new where
    "vm_run P S E M db (tx_idx v) (txs ! tx_idx v) = (Inr (Inr (r, state)), db')"
    and rec: "mv_record (add_lazy_addresses (mv\<lparr>new_bytecodes := codes\<rparr>) addrs) v (db_read_set db') ws = (new, mv')"
    by (rule vm_execute_success)
  have "lazy_addresses mv' = fold List.insert addrs (lazy_addresses mv)"
    using rec by (auto simp: mv_record_def Let_def add_lazy_addresses_def split: prod.splits)
  moreover have "set (fold List.insert addrs xs) = set addrs \<union> set xs" for xs :: "address list"
    by (induction addrs arbitrary: xs) auto
  ultimately show ?case using executed.IH by auto
next
  case (failed ex mv v M db e mv')
  with vm_execute_failure [OF failed.hyps(3)] show ?case by simp
qed (simp_all add: convert_writes_to_estimates_def)

text \<open>No code hash or slot the block writes has the hash of a lazily updated account.\<close>

definition kinds_separated :: "('bc, 'jt) revm_api \<Rightarrow> memory_location set \<Rightarrow> address list \<Rightarrow> bool" where
  "kinds_separated P L addrs \<longleftrightarrow>
     (\<forall>a \<in> set addrs. \<forall>l \<in> L. hash_deterministic P l = hash_deterministic P (LocBasic a) \<longrightarrow> (\<exists>a'. l = LocBasic a'))"

locale reward_chain =
  fixes P :: "('bc, 'jt) revm_api"
    and build :: "address \<Rightarrow> 'tx list \<Rightarrow> 'bc mv_memory"
    and rewards :: "location_hash \<Rightarrow> u256 \<Rightarrow> u256 \<Rightarrow> u64 \<Rightarrow> 'tx \<Rightarrow> (location_hash \<times> u256) list"
  assumes build_wf: "mv_wf (length txs) (build b txs)"
    and build_estimates: "entry_at (build b txs) h i = Some e \<Longrightarrow>
      e = Estimate \<and> h \<in> fst ` set (rewards (hash_deterministic P (LocBasic b)) g p f (txs ! i))"
    and rewards_evaluated: "h \<in> fst ` set (rewards (hash_deterministic P (LocBasic b)) g p f tx) \<Longrightarrow>
      \<exists>a \<in> set (lazy_addresses (build b txs)). h = hash_deterministic P (LocBasic a)"
begin

definition bound_to_write :: "('bc, 'au, 'tx, 'lg) vm_env \<Rightarrow> 'tx list \<Rightarrow> nat \<Rightarrow> location_hash set" where
  "bound_to_write E txs i =
     {h. \<forall>g p f. h \<in> fst ` set (rewards (hash_deterministic P (LocBasic (ve_beneficiary E))) g p f (txs ! i))}"

lemma build_covered: "estimates_covered (bound_to_write E txs) (build (ve_beneficiary E) txs)"
  using build_estimates by (auto simp: estimates_covered_def bound_to_write_def)

lemma build_fits: "values_fit P L (build b txs)"
  using build_estimates by (fastforce simp: values_fit_def)

text \<open>The locations of the accounts that a block rewards.\<close>

definition reward_locs :: "('bc, 'au, 'tx, 'lg) vm_env \<Rightarrow> 'tx list \<Rightarrow> memory_location set" where
  "reward_locs E txs = LocBasic ` set (lazy_addresses (build (ve_beneficiary E) txs))"

lemma block_rewards_within:
  assumes "ve_rewards E = rewards" "reward_locs E txs \<subseteq> L" shows "rewards_within P L (rewards_of P E db tx r)"
  unfolding rewards_within_def
proof (intro ballI, clarify)
  fix h x assume "(h, x) \<in> set (rewards_of P E db tx r)"
  then have "h \<in> fst ` set (rewards_of P E db tx r)" by force
  then obtain a where "a \<in> set (lazy_addresses (build (ve_beneficiary E) txs))" "h = hash_deterministic P (LocBasic a)"
    using rewards_evaluated [of h "ve_beneficiary E" _ _ _ tx txs] unfolding rewards_of_def assms(1) by blast
  with assms(2) show "\<exists>a. LocBasic a \<in> L \<and> h = hash_deterministic P (LocBasic a)" unfolding reward_locs_def by blast
qed

lemma executed_block_fits:
  assumes "block_run P S E txs (build (ve_beneficiary E) txs) L ex mv" "ve_rewards E = rewards"
  shows "values_fit P (L \<union> reward_locs E txs) mv"
proof -
  have "block_run P S E txs (build (ve_beneficiary E) txs) (L \<union> reward_locs E txs) ex mv" by (rule block_run_mono [OF assms(1)]) simp
  moreover have "rewards_within P (L \<union> reward_locs E txs) (rewards_of P E db tx r)" for db tx r
    by (rule block_rewards_within [OF assms(2), of txs]) simp
  ultimately show ?thesis using block_run_fits [OF _ build_wf build_fits] by blast
qed

text \<open>When every transaction has been executed, the memory holds no estimate.\<close>

lemma executed_block_has_no_estimates:
  assumes "block_run P S E txs (build (ve_beneficiary E) txs) L ex mv" "ve_rewards E = rewards"
  shows "mv_wf (length txs) mv \<and> (\<forall>i \<in> ex. no_estimates mv i)"
proof -
  have "bound_to_write E txs i \<subseteq> fst ` set (rewards_of P E db (txs ! i) r)" for i db r
    by (auto simp: bound_to_write_def rewards_of_def assms(2))
  from block_run_covered [OF assms(1) build_wf build_covered this] show ?thesis by blast
qed

lemma executed_block_entries:
  assumes "block_run P S E txs (build (ve_beneficiary E) txs) L {..<length txs} mv" "ve_rewards E = rewards"
    and "kinds_separated P L (lazy_addresses mv)"
  shows "\<forall>a \<in> set (lazy_addresses mv). \<forall>(k, e) \<in> set (lazy_history P mv (length txs) a). account_entry e"
proof (intro ballI)
  fix a p assume a: "a \<in> set (lazy_addresses mv)" and p: "p \<in> set (lazy_history P mv (length txs) a)"
  obtain k e where pe: "p = (k, e)" by (cases p)
  with p have k: "k < length txs" and e: "entry_at mv (hash_deterministic P (LocBasic a)) k = Some e"
    by (auto simp: lazy_history_def set_entries_below)
  from executed_block_has_no_estimates [OF assms(1,2)] k have "no_estimates mv k" by blast
  with e obtain inc v where v: "e = Data inc v" by (cases e) (auto simp: no_estimates_def)
  from executed_block_fits [OF assms(1,2)] e v have "fits P (L \<union> reward_locs E txs) (hash_deterministic P (LocBasic a)) v"
    unfolding values_fit_def by blast
  then obtain l where l: "l \<in> L \<union> reward_locs E txs" "hash_deterministic P (LocBasic a) = hash_deterministic P l" "location_value l v"
    unfolding fits_def by blast
  then have "\<exists>a'. l = LocBasic a'" using assms(3) a unfolding reward_locs_def kinds_separated_def by auto
  with l(3) have "account_value v" by auto
  with pe v show "case p of (k, e) \<Rightarrow> account_entry e" by (cases v) auto
qed

lemma executed_block_evaluates:
  assumes "block_run P S E txs (build (ve_beneficiary E) txs) L {..<length txs} mv" "ve_rewards E = rewards"
    and "kinds_separated P L (lazy_addresses mv)"
  shows "(\<exists>r. evaluate_lazy P S blob_gas (map (ve_tx_env E) txs) eip161 mv (lazy_addresses mv) results = Some r) \<and>
    (\<forall>db r. \<forall>tx \<in> set txs. \<forall>h \<in> fst ` set (rewards_of P E db tx r).
       \<exists>a \<in> set (lazy_addresses mv). h = hash_deterministic P (LocBasic a))"
proof -
  have "\<exists>a \<in> set (lazy_addresses mv). h = hash_deterministic P (LocBasic a)"
    if "h \<in> fst ` set (rewards_of P E db tx r)" for h db tx r
    using that rewards_evaluated [of h "ve_beneficiary E"] run_lazy_addresses [OF assms(1)]
    unfolding rewards_of_def assms(2) by blast
  with evaluate_lazy_outcome [of "lazy_addresses mv" P mv "map (ve_tx_env E) txs" S blob_gas eip161 results]
    executed_block_entries [OF assms] show ?thesis by auto
qed

end

interpretation ethereum: reward_chain P "eth_build_mv_memory P" eth_get_rewards for P
proof
  fix b :: address and txs :: "'tx list" and h :: location_hash and i :: nat and e g p f and tx :: 'tx
  show "mv_wf (length txs) (eth_build_mv_memory P b txs)"
    unfolding eth_build_mv_memory_def by (rule mv_wf_new) simp
  show "e = Estimate \<and> h \<in> fst ` set (eth_get_rewards (hash_deterministic P (LocBasic b)) g p f (txs ! i))"
    if "entry_at (eth_build_mv_memory P b txs) h i = Some e"
    using that by (auto simp: eth_build_mv_memory_def mv_new_def table_entry_def estimate_tree_def eth_get_rewards_def split: if_splits)
  show "\<exists>a \<in> set (lazy_addresses (eth_build_mv_memory P b txs)). h = hash_deterministic P (LocBasic a)"
    if "h \<in> fst ` set (eth_get_rewards (hash_deterministic P (LocBasic b)) g p f tx)"
    using that by (simp add: eth_get_rewards_def eth_build_mv_memory_def mv_new_def)
qed

text \<open>The estimates of RISE: of the transactions that are no deposits, at the fee recipients.\<close>

definition rise_estimate_ok ::
  "('bc, 'jt) revm_api \<Rightarrow> ('au, 'sa) op_api \<Rightarrow> address \<Rightarrow> 'au op_tx list \<Rightarrow> location_hash \<times> tx_idx list \<Rightarrow> bool" where
  "rise_estimate_ok P Q b txs = (\<lambda>(h, is). \<forall>i \<in> set is. i < length txs \<and> \<not> op_is_deposit Q (txs ! i) \<and>
     h \<in> (\<lambda>a. hash_deterministic P (LocBasic a)) ` set (fee_recipients Q b))"

lemma push_estimate_ok:
  assumes "list_all (rise_estimate_ok P Q b txs) m" "rise_estimate_ok P Q b txs (h, [i])"
  shows "list_all (rise_estimate_ok P Q b txs) (push_estimate h i m)"
proof -
  have "rise_estimate_ok P Q b txs (h, unwrap_or [] (map_of m h) @ [i])"
  proof (cases "map_of m h")
    case (Some js)
    then have "rise_estimate_ok P Q b txs (h, js)"
      using assms(1) by (auto simp: list_all_iff dest: map_of_SomeD)
    with Some assms(2) show ?thesis by (auto simp: rise_estimate_ok_def)
  qed (use assms(2) in simp)
  with assms(1) show ?thesis
    by (auto simp: push_estimate_def list_all_iff dest!: set_update_sub)
qed

lemma rise_estimates_ok:
  assumes "list_all (rise_estimate_ok P Q b (pre @ txs)) m"
  shows "list_all (rise_estimate_ok P Q b (pre @ txs)) (rise_estimates P Q b (length pre) txs m)"
  using assms
proof (induction txs arbitrary: pre m)
  case (Cons tx txs)
  have new: "rise_estimate_ok P Q b (pre @ tx # txs) (hash_deterministic P (LocBasic a), [length pre])"
    if "\<not> op_is_deposit Q tx" "a \<in> set (fee_recipients Q b)" for a
    using that by (auto simp: rise_estimate_ok_def)
  have fold: "list_all (rise_estimate_ok P Q b (pre @ tx # txs)) (fold (\<lambda>a. push_estimate (hash_deterministic P (LocBasic a)) (length pre)) as m')"
    if "\<not> op_is_deposit Q tx" "set as \<subseteq> set (fee_recipients Q b)" "list_all (rise_estimate_ok P Q b (pre @ tx # txs)) m'" for as m'
    using that(2,3)
  proof (induction as arbitrary: m')
    case (Cons a as)
    from Cons.prems(1) have "a \<in> set (fee_recipients Q b)" by simp
    note push_estimate_ok [OF Cons.prems(2) new [OF that(1) this]]
    with Cons.IH Cons.prems(1) show ?case by simp
  qed simp
  have "list_all (rise_estimate_ok P Q b ((pre @ [tx]) @ txs))
      (if op_is_deposit Q tx then m
       else fold (\<lambda>a. push_estimate (hash_deterministic P (LocBasic a)) (length pre)) (fee_recipients Q b) m)"
    using Cons.prems fold [of "fee_recipients Q b" m] by simp
  from Cons.IH [OF this] show ?case by simp
qed simp

lemma mv_new_entry:
  assumes "entry_at (mv_new n est lazy) h i = Some e"
  shows "e = Estimate \<and> (\<exists>is. (h, is) \<in> set est \<and> i \<in> set is)"
proof -
  have "table_entry (fold (\<lambda>(h, is) d. d(h \<mapsto> estimate_tree is)) est Map.empty) h i = Some e \<Longrightarrow>
      e = Estimate \<and> (\<exists>is. (h, is) \<in> set est \<and> i \<in> set is)"
  proof (induction est rule: rev_induct)
    case (snoc x est)
    then show ?case
      by (cases x) (auto simp: table_entry_def estimate_tree_def split: if_splits)
  qed (simp add: table_entry_def)
  with assms show ?thesis by (simp add: mv_new_def)
qed

lemma rise_estimates_listed: "list_all (rise_estimate_ok P Q b txs) (rise_estimates P Q b 0 txs [])"
  using rise_estimates_ok [of P Q b "[]" txs "[]"] by simp

interpretation rise: reward_chain P "rise_build_mv_memory P Q" "rise_get_rewards P Q" for P Q
proof (unfold_locales, goal_cases)
  case (1 txs b)
  show ?case
    unfolding rise_build_mv_memory_def
    by (rule mv_wf_new) (use rise_estimates_listed [of P Q b txs] in \<open>auto simp: list_all_iff rise_estimate_ok_def\<close>)
next
  case (2 b txs h i e g p f)
  from mv_new_entry [OF 2 [unfolded rise_build_mv_memory_def]] rise_estimates_listed [of P Q b txs]
  show ?case
    by (fastforce simp: list_all_iff rise_estimate_ok_def rise_get_rewards_def fee_recipients_def)
next
  case (3 h b g p f tx txs)
  then show ?case
    by (auto simp: rise_get_rewards_def rise_build_mv_memory_def mv_new_def fee_recipients_def split: if_splits)
qed

section \<open>Executed blocks evaluate\<close>

text \<open>
  A block on Ethereum all of whose transactions have been executed can be evaluated: however
  executions, retries and aborts were interleaved since \<^verbatim>\<open>build_mv_memory\<close>, every estimate has been
  overwritten, so the final evaluation meets account updates only and never reaches its
  \<^verbatim>\<open>unreachable!\<close> branch, and every account that was rewarded is among those it evaluates.
\<close>

lemma ethereum_block_evaluates:
  assumes "block_run P S E txs (eth_build_mv_memory P (ve_beneficiary E) txs) L {..<length txs} mv"
    and "ve_rewards E = eth_get_rewards" "kinds_separated P L (lazy_addresses mv)"
  shows "(\<exists>r. evaluate_lazy P S blob_gas (map (ve_tx_env E) txs) eip161 mv (lazy_addresses mv) results = Some r) \<and>
    (\<forall>db r. \<forall>tx \<in> set txs. \<forall>h \<in> fst ` set (rewards_of P E db tx r).
       \<exists>a \<in> set (lazy_addresses mv). h = hash_deterministic P (LocBasic a))"
  using assms by (rule ethereum.executed_block_evaluates)

text \<open>
  The same for RISE, where deposits pay no fees and are estimated nowhere, and every other
  transaction rewards the beneficiary and the base fee, L1 fee and operator fee recipients.
\<close>

lemma rise_block_evaluates:
  assumes "block_run P S E txs (rise_build_mv_memory P Q (ve_beneficiary E) txs) L {..<length txs} mv"
    and "ve_rewards E = rise_get_rewards P Q" "kinds_separated P L (lazy_addresses mv)"
  shows "(\<exists>r. evaluate_lazy P S blob_gas (map (ve_tx_env E) txs) eip161 mv (lazy_addresses mv) results = Some r) \<and>
    (\<forall>db r. \<forall>tx \<in> set txs. \<forall>h \<in> fst ` set (rewards_of P E db tx r).
       \<exists>a \<in> set (lazy_addresses mv). h = hash_deterministic P (LocBasic a))"
  using assms by (rule rise.executed_block_evaluates)

text \<open>The sample block with the rewards of Ethereum.\<close>

definition eth_env :: "(sample_code, unit, nat, unit) vm_env" where
  "eth_env = sample_env\<lparr>ve_rewards := eth_get_rewards\<rparr>"

definition eth_locs :: "memory_location set" where
  "eth_locs = {LocBasic 10, LocCodeHash 10, LocBasic 11, LocCodeHash 11, LocBasic 50, LocCodeHash 50, LocStorage 50 1}"

lemma eth_build: "eth_build_mv_memory sample_api (ve_beneficiary eth_env) [0, 1] = sample_mv"
proof -
  have "ve_beneficiary eth_env = 99" by (simp add: eth_env_def sample_env_def)
  then show ?thesis
    by (simp only: eth_build_mv_memory_def sample_mv_def sample_hash_99) (simp add: numeral_2_eq_2)
qed

lemma eth_step_0:
  "\<exists>flags res. vm_execute sample_api sample_storage eth_env [0, 1] (\<lambda>_. sample_mv) sample_mv sample_db \<lparr>tx_idx = 0, tx_incarnation = 0\<rparr>
     = Some (Inr (flags, res), sample_mv1)"
  by (simp add: sample_mv1_def vm_execute_defs sample_defs vm_run_defs replicate_two eth_env_def eth_get_rewards_def saturating_mul_def)

lemma eth_step_1:
  "\<exists>flags res. vm_execute sample_api sample_storage eth_env [0, 1] (\<lambda>_. sample_mv1) sample_mv1 sample_db \<lparr>tx_idx = 1, tx_incarnation = 0\<rparr>
     = Some (Inr (flags, res), sample_mv2)"
  by (simp add: sample_mv1_def sample_mv2_def sample_reads1_def sample_writes1_def vm_execute_defs sample_defs vm_run_defs
      replicate_two eth_env_def eth_get_rewards_def saturating_mul_def)

text \<open>The locations the state of a finished run touches.\<close>

definition touched_locs :: "(read_error + (evm_failure + unit exec_result \<times> sample_code evm_state)) \<times> unit vmdb \<Rightarrow> memory_location list" where
  "touched_locs out = (case out of (Inr (Inr (r, state)), _) \<Rightarrow> state_locs sample_api state | _ \<Rightarrow> [])"

lemma eth_locs_0: "touched_locs (vm_run sample_api sample_storage eth_env (\<lambda>_. sample_mv) sample_db 0 0) =
    [LocBasic 10, LocCodeHash 10, LocBasic 50, LocCodeHash 50, LocStorage 50 1]"
  by (simp add: touched_locs_def eth_env_def vm_run_defs sample_defs state_locs_def)

lemma eth_locs_1: "touched_locs (vm_run sample_api sample_storage eth_env (\<lambda>_. sample_mv1) sample_db 1 1) =
    [LocBasic 11, LocCodeHash 11, LocBasic 50, LocCodeHash 50, LocStorage 50 1]"
  by (simp add: touched_locs_def eth_env_def vm_run_defs sample_defs sample_mv1_def state_locs_def)

lemma eth_run_locs:
  assumes "touched_locs (vm_run sample_api sample_storage eth_env (\<lambda>_. mv) sample_db i tx) = ls" "set ls \<subseteq> eth_locs"
    and "vm_run sample_api sample_storage eth_env (\<lambda>_. mv) sample_db i tx = (Inr (Inr (r, state)), db')"
  shows "set (state_locs sample_api state) \<subseteq> eth_locs"
  using assms by (simp add: touched_locs_def)

lemma eth_run: "block_run sample_api sample_storage eth_env [0, 1]
    (eth_build_mv_memory sample_api (ve_beneficiary eth_env) [0, 1]) eth_locs {..<length [0 :: nat, 1]} sample_mv2"
proof -
  let ?run = "block_run sample_api sample_storage eth_env [0, 1] sample_mv eth_locs"
  obtain flags res where s0: "vm_execute sample_api sample_storage eth_env [0, 1] (\<lambda>_. sample_mv) sample_mv sample_db
      \<lparr>tx_idx = 0, tx_incarnation = 0\<rparr> = Some (Inr (flags, res), sample_mv1)" using eth_step_0 by blast
  have "?run (insert 0 {}) sample_mv1"
    using block_run.executed [OF block_run.start _ _ s0] eth_run_locs [OF eth_locs_0] by (simp add: eth_locs_def)
  moreover obtain flags res where s1: "vm_execute sample_api sample_storage eth_env [0, 1] (\<lambda>_. sample_mv1) sample_mv1 sample_db
      \<lparr>tx_idx = 1, tx_incarnation = 0\<rparr> = Some (Inr (flags, res), sample_mv2)" using eth_step_1 by blast
  ultimately have "?run (insert 1 (insert 0 {})) sample_mv2"
    using block_run.executed [OF _ _ _ s1] eth_run_locs [OF eth_locs_1] by (simp add: eth_locs_def)
  moreover have "insert 1 (insert 0 {}) = {..<length [0 :: nat, 1]}" by auto
  ultimately show ?thesis unfolding eth_build by simp
qed

lemma ethereum_block_evaluates_witness:
  "\<exists>r. evaluate_lazy sample_api sample_storage (\<lambda>_. 0) (map (ve_tx_env eth_env) [0, 1]) True sample_mv2
     (lazy_addresses sample_mv2) sample_results = Some r"
proof -
  have "kinds_separated sample_api eth_locs (lazy_addresses sample_mv2)"
    by (auto simp: kinds_separated_def sample_mv2_history eth_locs_def sample_api_def)
  from ethereum_block_evaluates [OF eth_run _ this, of "\<lambda>_. 0" True sample_results] show ?thesis
    by (simp add: eth_env_def)
qed

text \<open>A block of RISE with one transaction, which is no deposit.\<close>

definition rise_api :: "(unit, unit) op_api" where
  "rise_api =
     \<lparr>op_is_deposit = (\<lambda>tx. te_tx_type (op_base tx) = 126), op_as_deposit = (\<lambda>_. None), op_encoded = (\<lambda>_. []),
      op_type_byte = (\<lambda>_. 0), base_fee_recipient = 201, l1_fee_recipient = 202, operator_fee_recipient = 203\<rparr>"

definition rise_tx :: "unit op_tx" where
  "rise_tx = \<lparr>op_base = sample_tx 0, op_enveloped_tx = None,
     op_deposit = \<lparr>dp_source_hash = 0, dp_mint = None, dp_is_system = False\<rparr>\<rparr>"

definition rise_env :: "(sample_code, unit, unit op_tx, unit) vm_env" where
  "rise_env =
     \<lparr>ve_tx_env = op_base, ve_has_nonce = fst \<circ> rise_has_nonce rise_api, ve_rewards = rise_get_rewards sample_api rise_api,
      ve_eip161 = True, ve_basefee = 0, ve_beneficiary = 99, ve_evm = (\<lambda>_. sample_evm 0)\<rparr>"

lemma rise_step:
  "\<exists>flags res mv. vm_execute sample_api sample_storage rise_env [rise_tx]
       (\<lambda>_. rise_build_mv_memory sample_api rise_api 99 [rise_tx]) (rise_build_mv_memory sample_api rise_api 99 [rise_tx]) sample_db
       \<lparr>tx_idx = 0, tx_incarnation = 0\<rparr> = Some (Inr (flags, res), mv) \<and> set (lazy_addresses mv) = {99, 201, 202, 203} \<and>
     touched_locs (vm_run sample_api sample_storage rise_env (\<lambda>_. rise_build_mv_memory sample_api rise_api 99 [rise_tx]) sample_db 0 rise_tx) =
       [LocBasic 10, LocCodeHash 10, LocBasic 50, LocCodeHash 50, LocStorage 50 1]"
  by (simp add: rise_build_mv_memory_def fee_recipients_def push_estimate_def touched_locs_def state_locs_def rise_env_def rise_tx_def rise_api_def
      rise_get_rewards_def rise_has_nonce_def saturating_mul_def vm_execute_defs vm_run_defs sample_defs insert_commute)

lemma rise_block_evaluates_witness:
  "\<exists>mv r. block_run sample_api sample_storage rise_env [rise_tx] (rise_build_mv_memory sample_api rise_api 99 [rise_tx]) eth_locs {..<1} mv \<and>
     evaluate_lazy sample_api sample_storage (\<lambda>_. 0) (map (ve_tx_env rise_env) [rise_tx]) True mv (lazy_addresses mv) sample_results = Some r"
proof -
  let ?mv = "rise_build_mv_memory sample_api rise_api 99 [rise_tx]"
  obtain flags res mv where step: "vm_execute sample_api sample_storage rise_env [rise_tx] (\<lambda>_. ?mv) ?mv sample_db
      \<lparr>tx_idx = 0, tx_incarnation = 0\<rparr> = Some (Inr (flags, res), mv)"
    and lazy: "set (lazy_addresses mv) = {99, 201, 202, 203}"
    and locs: "touched_locs (vm_run sample_api sample_storage rise_env (\<lambda>_. ?mv) sample_db 0 rise_tx) =
       [LocBasic 10, LocCodeHash 10, LocBasic 50, LocCodeHash 50, LocStorage 50 1]"
    using rise_step by blast
  have "set (state_locs sample_api state) \<subseteq> eth_locs"
    if "vm_run sample_api sample_storage rise_env (\<lambda>_. ?mv) sample_db 0 rise_tx = (Inr (Inr (r, state)), db')" for r state db'
    using locs that by (simp add: touched_locs_def eth_locs_def)
  then have "block_run sample_api sample_storage rise_env [rise_tx] ?mv eth_locs (insert 0 {}) mv"
    using block_run.executed [OF block_run.start _ _ step] by simp
  then have run: "block_run sample_api sample_storage rise_env [rise_tx] (rise_build_mv_memory sample_api rise_api (ve_beneficiary rise_env) [rise_tx])
      eth_locs {..<length [rise_tx]} mv"
    by (simp add: rise_env_def lessThan_Suc)
  have "kinds_separated sample_api eth_locs (lazy_addresses mv)"
    unfolding kinds_separated_def lazy by (auto simp: eth_locs_def sample_api_def)
  from rise_block_evaluates [OF run _ this, of "\<lambda>_. 0" True sample_results] run show ?thesis
    by (auto simp: rise_env_def)
qed

end
