(* ===== verification/Receipts.thy ===== *)
theory Receipts
  imports Chain
begin

text \<open>
  \<^verbatim>\<open>calculate_receipt_root\<close> of \<^verbatim>\<open>chain/ethereum.rs\<close> and \<^verbatim>\<open>chain/rise.rs\<close>, with \<^verbatim>\<open>CalculateReceiptRootError\<close> of
  \<^verbatim>\<open>chain.rs\<close>. Blooms, the encodings of indices and envelopes and the trie builder are third-party code and
  parameters.
\<close>

section \<open>Receipt roots\<close>

datatype receipt_root_error =
    Unsupported
  | InvalidTxType u8
  | CustomRootError string
  | OpDepositMissingSender

datatype 'tx block_transactions = FullTransactions "'tx list" | TransactionHashes "b256 list" | UncleTransactions

fun txns :: "'tx block_transactions \<Rightarrow> 'tx list" where
  "txns (FullTransactions txs) = txs"
| "txns _ = []"

datatype 'rb receipt_envelope =
    EnvLegacy 'rb | EnvEip2930 'rb | EnvEip1559 'rb | EnvEip4844 'rb | EnvEip7702 'rb

record 'lg deposit_receipt =
  dr_inner :: "'lg receipt"
  dr_deposit_nonce :: "u64 option"
  dr_deposit_receipt_version :: "u64 option"

datatype ('rb, 'db) op_receipt_envelope =
    OpEnvLegacy 'rb | OpEnvEip2930 'rb | OpEnvEip1559 'rb | OpEnvEip7702 'rb | OpEnvDeposit 'db | OpEnvPostExec 'rb

text \<open>The trie builder: its state \<open>'hb\<close> takes leaves in ascending order of their keys.\<close>

record ('lg, 'rb, 'db, 'hb) trie_api =
  with_bloom :: "'lg receipt \<Rightarrow> 'rb"
  deposit_with_bloom :: "'lg deposit_receipt \<Rightarrow> 'db"
  encode_index :: "nat \<Rightarrow> u8 list"
  encoded_2718 :: "'rb receipt_envelope \<Rightarrow> u8 list"
  op_encoded_2718 :: "('rb, 'db) op_receipt_envelope \<Rightarrow> u8 list"
  nibbles_unpack :: "u8 list \<Rightarrow> u8 list"
  hb_default :: 'hb
  hb_add_leaf :: "'hb \<Rightarrow> u8 list \<Rightarrow> u8 list \<Rightarrow> 'hb"
  hb_root :: "'hb \<Rightarrow> b256"

definition hash_leaves :: "('lg, 'rb, 'db, 'hb) trie_api \<Rightarrow> (u8 list \<times> u8 list) list \<Rightarrow> b256" where
  "hash_leaves T entries =
     hb_root T (fold (\<lambda>(k, v) hb. hb_add_leaf T hb (nibbles_unpack T k) v) entries (hb_default T))"

text \<open>\<^verbatim>\<open>enumerate\<close> and the encoding of the index, then \<^verbatim>\<open>sort\<close>.\<close>

definition indexed :: "('lg, 'rb, 'db, 'hb) trie_api \<Rightarrow> u8 list list \<Rightarrow> (u8 list \<times> u8 list) list" where
  "indexed T encoded = map (\<lambda>(i, e). (encode_index T i, e)) (enumerate 0 encoded)"

fun eth_envelope :: "tx_type \<Rightarrow> 'rb \<Rightarrow> 'rb receipt_envelope" where
  "eth_envelope TxLegacy r = EnvLegacy r"
| "eth_envelope TxEip2930 r = EnvEip2930 r"
| "eth_envelope TxEip1559 r = EnvEip1559 r"
| "eth_envelope TxEip4844 r = EnvEip4844 r"
| "eth_envelope TxEip7702 r = EnvEip7702 r"

definition eth_encode :: "('lg, 'rb, 'db, 'hb) trie_api \<Rightarrow> (tx_type, 'sa) signed_tx \<times> ('jt, 'lg) tx_result \<Rightarrow> u8 list" where
  "eth_encode T = (\<lambda>(tx, result). encoded_2718 T (eth_envelope (sg_type tx) (with_bloom T (tr_receipt result))))"

definition eth_calculate_receipt_root ::
  "('lg, 'rb, 'db, 'hb) trie_api \<Rightarrow> spec_id \<Rightarrow> (tx_type, 'sa) signed_tx block_transactions \<Rightarrow> ('jt, 'lg) tx_result list \<Rightarrow>
   receipt_root_error + b256" where
  "eth_calculate_receipt_root T spec txs results =
     (if spec < BYZANTIUM then Inl Unsupported
      else Inr (hash_leaves T (sort (indexed T (map (eth_encode T) (zip (txns txs) results))))))"

text \<open>The nonce of a deposit is the sender's nonce after it, less one.\<close>

definition deposit_envelope ::
  "('lg, 'rb, 'db, 'hb) trie_api \<Rightarrow> address \<Rightarrow> ('jt, 'lg) tx_result \<Rightarrow> receipt_root_error + ('rb, 'db) op_receipt_envelope" where
  "deposit_envelope T signer result =
     (case map_of (tr_state result) signer of
        Some (Some account) \<Rightarrow>
          Inr (OpEnvDeposit (deposit_with_bloom T
            \<lparr>dr_inner = tr_receipt result, dr_deposit_nonce = Some (acc_nonce account - 1),
             dr_deposit_receipt_version = Some 1\<rparr>))
      | _ \<Rightarrow> Inl OpDepositMissingSender)"

definition op_envelope ::
  "('lg, 'rb, 'db, 'hb) trie_api \<Rightarrow> (op_tx_type, 'sa) signed_tx \<times> ('jt, 'lg) tx_result \<Rightarrow>
   receipt_root_error + ('rb, 'db) op_receipt_envelope" where
  "op_envelope T = (\<lambda>(tx, result).
     let r = with_bloom T (tr_receipt result)
     in case sg_type tx of
          OpLegacy \<Rightarrow> Inr (OpEnvLegacy r)
        | OpEip2930 \<Rightarrow> Inr (OpEnvEip2930 r)
        | OpEip1559 \<Rightarrow> Inr (OpEnvEip1559 r)
        | OpEip7702 \<Rightarrow> Inr (OpEnvEip7702 r)
        | OpDeposit \<Rightarrow> deposit_envelope T (sg_signer tx) result
        | OpPostExec \<Rightarrow> Inr (OpEnvPostExec r))"

text \<open>\<^verbatim>\<open>collect::<Result<Vec<_>, _>>\<close>: the first error, or all values.\<close>

fun collect_all :: "('e + 'a) list \<Rightarrow> 'e + 'a list" where
  "collect_all [] = Inr []"
| "collect_all (Inl e # rs) = Inl e"
| "collect_all (Inr x # rs) = map_sum id ((#) x) (collect_all rs)"

definition rise_calculate_receipt_root ::
  "('lg, 'rb, 'db, 'hb) trie_api \<Rightarrow> (op_tx_type, 'sa) signed_tx block_transactions \<Rightarrow> ('jt, 'lg) tx_result list \<Rightarrow>
   receipt_root_error + b256" where
  "rise_calculate_receipt_root T txs results =
     (case collect_all (map (op_envelope T) (zip (txns txs) results)) of
        Inl e \<Rightarrow> Inl e
      | Inr envs \<Rightarrow> Inr (hash_leaves T (sort (indexed T (map (op_encoded_2718 T) envs)))))"

section \<open>The leaves of the trie\<close>

text \<open>The leaves are those of the receipts, each under the encoding of its index, in ascending order.\<close>

definition leaves_of :: "('lg, 'rb, 'db, 'hb) trie_api \<Rightarrow> u8 list list \<Rightarrow> (u8 list \<times> u8 list) list \<Rightarrow> bool" where
  "leaves_of T encoded leaves \<longleftrightarrow>
     sorted_wrt (<) (map fst leaves) \<and> set leaves = {(encode_index T i, encoded ! i) | i. i < length encoded}"

lemma set_indexed: "set (indexed T encoded) = {(encode_index T i, encoded ! i) | i. i < length encoded}"
  by (force simp: indexed_def set_conv_nth nth_enumerate_eq image_iff)

lemma sorted_indexed:
  assumes "inj (encode_index T)"
  shows "leaves_of T encoded (sort (indexed T encoded))"
proof -
  let ?s = "sort (indexed T encoded)"
  have fsts: "map fst (indexed T encoded) = map (encode_index T) [0..<length encoded]"
    by (auto simp: indexed_def enumerate_eq_zip intro!: nth_equalityI)
  have "distinct (map fst (indexed T encoded))"
    unfolding fsts using assms by (simp add: distinct_map inj_on_def inj_def)
  then have "distinct (map fst ?s)"
    by (metis distinct_map mset_sort mset_map mset_eq_imp_distinct_iff)
  moreover have "sorted (map fst ?s)"
    unfolding sorted_map
    by (rule sorted_wrt_mono_rel [OF _ sorted_sort]) (auto simp: less_eq_prod_def)
  ultimately have "sorted_wrt (<) (map fst ?s)" by (simp add: strict_sorted_iff)
  then show ?thesis by (simp add: leaves_of_def set_indexed)
qed

lemma collect_all_ok: "collect_all rs = Inr xs \<longleftrightarrow> rs = map Inr xs"
proof (induction rs arbitrary: xs)
  case (Cons r rs)
  show ?case
  proof (cases r)
    case (Inr x)
    with Cons show ?thesis
      by (cases xs; cases "collect_all rs") (auto simp: map_eq_Cons_conv)
  qed auto
qed auto

lemma collect_all_error: "collect_all rs = Inl e \<Longrightarrow> Inl e \<in> set rs"
  by (induction rs rule: collect_all.induct) (auto simp: map_sum_def split: sum.splits)

text \<open>
  C38: The receipt root of Ethereum is refused exactly before Byzantium. From there on it is the root of
  the trie with one leaf per transaction with a result, the encoded receipt under the encoded index,
  and the leaves are added in strictly ascending order of their keys, as the trie builder requires.
\<close>

theorem ethereum_receipt_root:
  assumes "inj (encode_index T)"
  shows "if spec < BYZANTIUM then eth_calculate_receipt_root T spec txs results = Inl Unsupported
    else \<exists>leaves. leaves_of T (map (eth_encode T) (zip (txns txs) results)) leaves \<and>
      eth_calculate_receipt_root T spec txs results = Inr (hash_leaves T leaves)"
  using sorted_indexed [OF assms] by (auto simp: eth_calculate_receipt_root_def)

definition sender_missing :: "(op_tx_type, 'sa) signed_tx \<times> ('jt, 'lg) tx_result \<Rightarrow> bool" where
  "sender_missing = (\<lambda>(tx, result). sg_type tx = OpDeposit \<and> (\<nexists>acc. map_of (tr_state result) (sg_signer tx) = Some (Some acc)))"

lemma op_envelope_cases:
  "(\<exists>env. op_envelope T p = Inr env) \<longleftrightarrow> \<not> sender_missing p"
  "op_envelope T p = Inl e \<Longrightarrow> e = OpDepositMissingSender \<and> sender_missing p"
  by (cases p; auto simp: op_envelope_def Let_def deposit_envelope_def sender_missing_def
      split: op_tx_type.splits option.splits)+

text \<open>
  C39: The receipt root of RISE is refused exactly when the state transitions of some deposit lack its
  sender. Otherwise it is the root of the trie of all receipts, deposits with the nonce of their sender
  before the transaction, with the leaves in strictly ascending order of their keys.
\<close>

theorem rise_receipt_root:
  assumes "inj (encode_index T)"
  shows "if \<exists>p \<in> set (zip (txns txs) results). sender_missing p
    then rise_calculate_receipt_root T txs results = Inl OpDepositMissingSender
    else \<exists>envs leaves. map (op_envelope T) (zip (txns txs) results) = map Inr envs \<and>
      leaves_of T (map (op_encoded_2718 T) envs) leaves \<and>
      rise_calculate_receipt_root T txs results = Inr (hash_leaves T leaves)"
proof (cases "collect_all (map (op_envelope T) (zip (txns txs) results))")
  case (Inl e)
  from collect_all_error [OF this] obtain p where "p \<in> set (zip (txns txs) results)" "op_envelope T p = Inl e" by auto
  with op_envelope_cases(2) have "e = OpDepositMissingSender" "\<exists>p \<in> set (zip (txns txs) results). sender_missing p" by blast+
  with Inl show ?thesis by (simp add: rise_calculate_receipt_root_def)
next
  case (Inr envs)
  then have eq: "map (op_envelope T) (zip (txns txs) results) = map Inr envs" by (simp add: collect_all_ok)
  have "\<not> sender_missing p" if "p \<in> set (zip (txns txs) results)" for p
  proof -
    have "op_envelope T p \<in> set (map Inr envs)" using that unfolding eq [symmetric] by simp
    then have "\<exists>env. op_envelope T p = Inr env" by auto
    then show ?thesis by (simp only: op_envelope_cases(1) simp_thms)
  qed
  with Inr eq sorted_indexed [OF assms] show ?thesis by (auto simp: rise_calculate_receipt_root_def)
qed

text \<open>A trie that keeps its leaves, with indices in unary.\<close>

definition list_trie :: "(unit, unit receipt, unit deposit_receipt, (u8 list \<times> u8 list) list) trie_api" where
  "list_trie =
     \<lparr>with_bloom = id, deposit_with_bloom = id, encode_index = (\<lambda>i. replicate i 1),
      encoded_2718 = (\<lambda>e. case e of EnvLegacy r \<Rightarrow> [0, ucast (rc_cumulative_gas_used r)] | _ \<Rightarrow> [1]),
      op_encoded_2718 = (\<lambda>e. case e of OpEnvDeposit d \<Rightarrow> [126, ucast (the (dr_deposit_nonce d))] | _ \<Rightarrow> [0]),
      nibbles_unpack = id, hb_default = [], hb_add_leaf = (\<lambda>hb k v. hb @ [(k, v)]), hb_root = (\<lambda>hb. of_nat (length hb))\<rparr>"

lemma list_trie_inj: "inj (encode_index list_trie)"
  by (auto simp: inj_def list_trie_def)

definition sample_signed :: "'ty \<Rightarrow> ('ty, unit) signed_tx" where
  "sample_signed ty =
     \<lparr>sg_type = ty, sg_signer = 10, sg_gas_limit = 100, sg_gas_price = Some 1, sg_max_fee_per_gas = 1,
      sg_max_priority_fee_per_gas = None, sg_kind = TxCall 50, sg_value = 0, sg_input = [], sg_nonce = 0, sg_chain_id = None,
      sg_access_list = None, sg_blob_versioned_hashes = None, sg_max_fee_per_blob_gas = None, sg_authorization_list = None\<rparr>"

definition sample_result :: "(unit, unit) tx_result" where
  "sample_result = \<lparr>tr_receipt = \<lparr>rc_status = True, rc_cumulative_gas_used = 7, rc_logs = []\<rparr>,
     tr_state = [(10, Some \<lparr>acc_balance = 1, acc_nonce = 5, acc_code_hash = None, acc_code = None, acc_storage = []\<rparr>)]\<rparr>"

theorem ethereum_receipt_root_witness:
  "\<exists>leaves. leaves_of list_trie [[0, 7]] leaves \<and>
     eth_calculate_receipt_root list_trie LONDON (FullTransactions [sample_signed TxLegacy]) [sample_result] = Inr (hash_leaves list_trie leaves)"
  using ethereum_receipt_root [OF list_trie_inj, of LONDON "FullTransactions [sample_signed TxLegacy]" "[sample_result]"]
  by (simp add: spec_order eth_encode_def sample_signed_def sample_result_def list_trie_def)

theorem rise_receipt_root_witness:
  "\<exists>envs leaves. leaves_of list_trie (map (op_encoded_2718 list_trie) envs) leaves \<and>
     rise_calculate_receipt_root list_trie (FullTransactions [sample_signed OpDeposit]) [sample_result] = Inr (hash_leaves list_trie leaves)"
proof -
  have "\<not> sender_missing (sample_signed OpDeposit, sample_result)"
    by (simp add: sender_missing_def sample_signed_def sample_result_def)
  with rise_receipt_root [OF list_trie_inj, of "FullTransactions [sample_signed OpDeposit]" "[sample_result]"]
  show ?thesis by auto
qed

end
