(* ===== verification/Block.thy ===== *)
theory Block
  imports Chain_Rewards Receipts
begin

text \<open>
  The entry points of \<^verbatim>\<open>pevm.rs\<close>: \<^verbatim>\<open>Pevm::execute\<close> chooses between the sequential and the parallel
  executor, \<^verbatim>\<open>execute_revm_parallel\<close> prepares the shared state, lets the workers run and turns what
  they leave behind into the result of the block. The properties here span the scheduler, the memory, the
  executor and the chain.
\<close>

section \<open>Executing a block\<close>

text \<open>What the block executors need of a chain (\<^verbatim>\<open>PevmChain\<close>); its errors appear in their printed form.\<close>

record ('tx, 'etx, 'sp, 'bp, 'bc, 'au) chain_ops =
  co_get_block_spec :: "header \<Rightarrow> string + 'sp"
  co_into_spec :: "'sp \<Rightarrow> spec_id"
  co_get_tx_env :: "'tx \<Rightarrow> string + 'etx"
  co_tx_env :: "'etx \<Rightarrow> 'au tx_env"
  co_build_mv_memory :: "'bp block_env \<Rightarrow> 'etx list \<Rightarrow> 'bc mv_memory"
  co_is_eip_161_enabled :: "'sp \<Rightarrow> bool"

text \<open>What the workers leave behind: the abort reason, the slots and the memory.\<close>

type_synonym ('bc, 'jt, 'lg) outcome = "abort_reason option \<times> ('jt, 'lg) execution_results \<times> 'bc mv_memory"

text \<open>Lines 265--408, after the workers have joined; \<open>None\<close> is a panic or undefined behaviour.\<close>

definition finish_parallel ::
  "('bc, 'jt) revm_api \<Rightarrow> 'jt storage_api \<Rightarrow> ('au tx_env \<Rightarrow> u64) \<Rightarrow> ('s, 'etx, 'bc, 'lg) sequential_evm \<Rightarrow> 's \<Rightarrow> bool \<Rightarrow>
   ('etx \<Rightarrow> 'au tx_env) \<Rightarrow> 'etx list \<Rightarrow> ('bc, 'jt, 'lg) outcome \<Rightarrow> (pevm_error + ('jt, 'lg) tx_result list) option" where
  "finish_parallel P S blob_gas V s eip161 tx_env txs = (\<lambda>(abort, rs, mv).
     case abort of
       Some AbortFallback \<Rightarrow> execute_revm_sequential P V eip161 s txs
     | Some (AbortExecution err) \<Rightarrow> Some (Inl (PevmExecutionError err))
     | None \<Rightarrow>
         (case collect_results (length txs) 0 0 rs of
            None \<Rightarrow> None
          | Some (results, _) \<Rightarrow>
              evaluate_lazy P S blob_gas (map tx_env txs) eip161 mv (fst (consume_lazy_addresses mv)) results))"

text \<open>\<^verbatim>\<open>execute_revm_parallel\<close>, over any behaviour of the workers from the shared state they start with.\<close>

definition execute_revm_parallel ::
  "('bc, 'jt) revm_api \<Rightarrow> 'jt storage_api \<Rightarrow> ('tx, 'etx, 'sp, 'bp, 'bc, 'au) chain_ops \<Rightarrow> ('au tx_env \<Rightarrow> u64) \<Rightarrow>
   ('s, 'etx, 'bc, 'lg) sequential_evm \<Rightarrow> 's \<Rightarrow> ('jt, 'lg) execution_results \<Rightarrow> ('bc mv_memory \<Rightarrow> ('jt, 'lg) execution_results \<Rightarrow> ('bc, 'jt, 'lg) outcome) \<Rightarrow>
   'sp \<Rightarrow> 'bp block_env \<Rightarrow> 'etx list \<Rightarrow> (pevm_error + ('jt, 'lg) tx_result list) option" where
  "execute_revm_parallel P S C blob_gas V s rs workers spec env txs =
     (if txs = [] then Some (Inr [])
      else finish_parallel P S blob_gas V s (co_is_eip_161_enabled C spec) (co_tx_env C) txs
             (workers (co_build_mv_memory C env txs) (grow_to rs (length txs))))"

text \<open>
  \<^verbatim>\<open>Pevm::execute\<close>. The sequential EVM and its initial state are built from the specification and the
  block environment (\<^verbatim>\<open>build_evm\<close> over the storage).
\<close>

definition pevm_execute ::
  "('bc, 'jt) revm_api \<Rightarrow> 'jt storage_api \<Rightarrow> 'bp blob_api \<Rightarrow> ('tx, 'etx, 'sp, 'bp, 'bc, 'au) chain_ops \<Rightarrow> ('au tx_env \<Rightarrow> u64) \<Rightarrow>
   ('sp \<Rightarrow> 'bp block_env \<Rightarrow> ('s, 'etx, 'bc, 'lg) sequential_evm \<times> 's) \<Rightarrow> ('jt, 'lg) execution_results \<Rightarrow>
   ('bc mv_memory \<Rightarrow> ('jt, 'lg) execution_results \<Rightarrow> ('bc, 'jt, 'lg) outcome) \<Rightarrow>
   header \<Rightarrow> 'tx block_transactions \<Rightarrow> nat \<Rightarrow> bool \<Rightarrow> (pevm_error + ('jt, 'lg) tx_result list) option" where
  "pevm_execute P S B C blob_gas build_evm rs workers header txs concurrency_level force_sequential =
     (case co_get_block_spec C header of
        Inl e \<Rightarrow> Some (Inl (BlockSpecError e))
      | Inr spec \<Rightarrow>
          (let env = get_block_env B header (co_into_spec C spec);
               (V, s) = build_evm spec env
           in case txs of
                FullTransactions ts \<Rightarrow>
                  (case collect_all (map (co_get_tx_env C) ts) of
                     Inl e \<Rightarrow> Some (Inl (InvalidTransaction e))
                   | Inr etxs \<Rightarrow>
                       if force_sequential \<or> length etxs < concurrency_level \<or> hd_gas_used header < 4000000
                       then execute_revm_sequential P V (co_is_eip_161_enabled C spec) s etxs
                       else execute_revm_parallel P S C blob_gas V s rs workers spec env etxs)
              | _ \<Rightarrow> Some (Inl MissingTransactionData)))"

text \<open>Ethereum as a chain.\<close>

definition eth_chain ::
  "('bc, 'jt) revm_api \<Rightarrow> (tx_type \<Rightarrow> u8) \<Rightarrow> ((tx_type, 'sa) signed_tx, ('sa + 'ra) tx_env, spec_id, 'bp, 'bc, 'sa + 'ra) chain_ops" where
  "eth_chain P type_byte =
     \<lparr>co_get_block_spec = Inr \<circ> eth_get_block_spec, co_into_spec = id,
      co_get_tx_env = map_sum (\<lambda>_. ''Missing gas price'') id \<circ> eth_get_tx_env type_byte, co_tx_env = id,
      co_build_mv_memory = (\<lambda>env. eth_build_mv_memory P (be_beneficiary env)),
      co_is_eip_161_enabled = eth_is_eip_161_enabled\<rparr>"

text \<open>RISE as a chain; its specification converts to one of the EVM package by \<open>into_spec\<close>.\<close>

datatype op_spec_id = JOVIAN

definition rise_get_block_spec :: "header \<Rightarrow> op_spec_id" where
  "rise_get_block_spec header = JOVIAN"

definition rise_is_eip_1559_enabled :: "op_spec_id \<Rightarrow> bool" where
  "rise_is_eip_1559_enabled spec \<longleftrightarrow> True"

definition rise_is_eip_161_enabled :: "op_spec_id \<Rightarrow> bool" where
  "rise_is_eip_161_enabled spec \<longleftrightarrow> True"

definition rise_parse :: "('sa + 'ra, 'sa) op_api \<Rightarrow> (op_tx_type, 'sa) signed_tx \<Rightarrow> string + ('sa + 'ra) op_tx" where
  "rise_parse Q tx = map_sum (\<lambda>_. ''Transaction must set gas price'') id (rise_get_tx_env Q tx)"

definition rise_chain ::
  "('bc, 'jt) revm_api \<Rightarrow> ('sa + 'ra, 'sa) op_api \<Rightarrow> (op_spec_id \<Rightarrow> spec_id) \<Rightarrow>
   ((op_tx_type, 'sa) signed_tx, ('sa + 'ra) op_tx, op_spec_id, 'bp, 'bc, 'sa + 'ra) chain_ops" where
  "rise_chain P Q into_spec =
     \<lparr>co_get_block_spec = Inr \<circ> rise_get_block_spec, co_into_spec = into_spec,
      co_get_tx_env = rise_parse Q, co_tx_env = op_base,
      co_build_mv_memory = (\<lambda>env. rise_build_mv_memory P Q (be_beneficiary env)),
      co_is_eip_161_enabled = rise_is_eip_161_enabled\<rparr>"

section \<open>Blocks that are refused\<close>

definition gas_price_of :: "(tx_type, 'sa) signed_tx \<Rightarrow> u128" where
  "gas_price_of tx = (if sg_type tx \<in> {TxLegacy, TxEip2930} then the (sg_gas_price tx) else sg_max_fee_per_gas tx)"

definition lacks_gas_price :: "(tx_type, 'sa) signed_tx \<Rightarrow> bool" where
  "lacks_gas_price tx \<longleftrightarrow> sg_type tx \<in> {TxLegacy, TxEip2930} \<and> sg_gas_price tx = None"

lemma eth_get_tx_env_eq:
  "eth_get_tx_env type_byte tx =
     (if lacks_gas_price tx then Inl MissingGasPrice else Inr (base_tx_env type_byte tx (gas_price_of tx)))"
  by (auto simp: eth_get_tx_env_def get_ethereum_gas_price_def lacks_gas_price_def gas_price_of_def split: option.splits)

lemma eth_chain_sel [simp]:
  "co_get_block_spec (eth_chain P type_byte) header = Inr (eth_get_block_spec header)"
  "co_into_spec (eth_chain P type_byte) spec = spec"
  "co_is_eip_161_enabled (eth_chain P type_byte) spec = eth_is_eip_161_enabled spec"
  by (simp_all add: eth_chain_def)

lemma rise_chain_sel [simp]:
  "co_get_block_spec (rise_chain P Q into_spec) header = Inr JOVIAN"
  "co_into_spec (rise_chain P Q into_spec) spec = into_spec spec"
  "co_get_tx_env (rise_chain P Q into_spec) = rise_parse Q"
  "co_is_eip_161_enabled (rise_chain P Q into_spec) spec"
  by (simp_all add: rise_chain_def rise_get_block_spec_def rise_is_eip_161_enabled_def)

lemma collect_tx_envs:
  "collect_all (map (co_get_tx_env (eth_chain P type_byte)) ts) =
     (if \<exists>tx \<in> set ts. lacks_gas_price tx then Inl ''Missing gas price''
      else Inr (map (\<lambda>tx. base_tx_env type_byte tx (gas_price_of tx)) ts))"
  by (induction ts) (auto simp: eth_chain_def eth_get_tx_env_eq)


text \<open>RISE executes every block of full transactions with gas prices; deposits need none.\<close>

lemma rise_parses: "sg_type tx \<notin> {OpLegacy, OpEip2930} \<or> sg_gas_price tx \<noteq> None \<Longrightarrow> \<not> isl (rise_parse Q tx)"
  by (cases "sg_type tx") (auto simp: rise_parse_def rise_get_tx_env_def get_gas_price_def)

lemma rise_collects:
  assumes "\<forall>tx \<in> set ts. sg_type tx \<notin> {OpLegacy, OpEip2930} \<or> sg_gas_price tx \<noteq> None"
  shows "\<exists>etxs. collect_all (map (rise_parse Q) ts) = Inr etxs"
proof (cases "collect_all (map (rise_parse Q) ts)")
  case (Inl e)
  from collect_all_error [OF this] obtain tx where "tx \<in> set ts" "rise_parse Q tx = Inl e" by auto
  with assms rise_parses [of tx Q] show ?thesis by auto
qed simp

lemma rise_block_executes:
  assumes "\<forall>tx \<in> set ts. sg_type tx \<notin> {OpLegacy, OpEip2930} \<or> sg_gas_price tx \<noteq> None"
    and env: "env = get_block_env B header (into_spec JOVIAN)"
  shows "\<exists>etxs. map (rise_parse Q) ts = map Inr etxs \<and>
    pevm_execute P S B (rise_chain P Q into_spec) blob_gas build_evm rs workers header (FullTransactions ts) n force =
      (if force \<or> length etxs < n \<or> hd_gas_used header < 4000000
       then execute_revm_sequential P (fst (build_evm JOVIAN env)) True (snd (build_evm JOVIAN env)) etxs
       else execute_revm_parallel P S (rise_chain P Q into_spec) blob_gas (fst (build_evm JOVIAN env)) (snd (build_evm JOVIAN env))
              rs workers JOVIAN env etxs)"
proof -
  obtain etxs where etxs: "collect_all (map (rise_parse Q) ts) = Inr etxs" using rise_collects [OF assms(1)] by blast
  moreover have "map (rise_parse Q) ts = map Inr etxs" using etxs by (simp add: collect_all_ok)
  ultimately show ?thesis
    by (intro exI [of _ etxs] conjI) (simp_all add: pevm_execute_def Let_def env split: prod.splits)
qed

section \<open>Deposits\<close>



end
