(* ===== verification/Lifecycle.thy ===== *)
theory Lifecycle
  imports Scheduler
begin

text \<open>
  The life cycle of a transaction that \<^verbatim>\<open>crates/pevm/src/lib.rs\<close> documents above
  \<^verbatim>\<open>IncarnationStatus\<close>, as an abstract protocol: a transaction is ready, is claimed by one worker,
  and either finishes (executed, then validated), is aborted by a failed validation, or waits in
  the dependents list of a lower transaction. What a worker holds is explicit: the version it runs
  and the aborted transactions it is about to make ready again. \<open>Scheduler_Steps\<close> shows that every
  step of the interleaved workers is a step of this protocol.
\<close>

section \<open>States and steps\<close>

record lifecycle =
  lc_status :: "tx_status list"
  lc_deps :: "tx_idx list list"
  lc_run :: "nat \<Rightarrow> tx_version option"
  lc_tok :: "nat \<Rightarrow> tx_idx list"
  lc_lock :: "tx_idx \<Rightarrow> nat option"

abbreviation lc_st :: "lifecycle \<Rightarrow> tx_idx \<Rightarrow> incarnation_status" where
  "lc_st l i \<equiv> status (lc_status l ! i)"

definition idle :: "lifecycle \<Rightarrow> nat \<Rightarrow> bool" where
  "idle l w \<longleftrightarrow> lc_run l w = None \<and> lc_tok l w = [] \<and> (\<forall>i. lc_lock l i \<noteq> Some w)"

definition move :: "lifecycle \<Rightarrow> tx_idx \<Rightarrow> incarnation_status \<Rightarrow> lifecycle" where
  "move l i st = l\<lparr>lc_status := (lc_status l)[i := (lc_status l ! i)\<lparr>status := st\<rparr>]\<rparr>"

definition renew :: "lifecycle \<Rightarrow> tx_idx \<Rightarrow> lifecycle" where
  "renew l i =
     l\<lparr>lc_status := (lc_status l)[i := \<lparr>incarnation = incarnation (lc_status l ! i) + 1,
                                        status = ReadyToExecute\<rparr>]\<rparr>"

inductive lstep :: "lifecycle \<Rightarrow> lifecycle \<Rightarrow> bool" where
  start: "i < length (lc_status l) \<Longrightarrow> lc_st l i = ReadyToExecute \<Longrightarrow> idle l w \<Longrightarrow>
     lstep l ((move l i Executing)
       \<lparr>lc_run := (lc_run l)(w := Some \<lparr>tx_idx = i, tx_incarnation = incarnation (lc_status l ! i)\<rparr>)\<rparr>)"
| hold: "lc_run l w = Some v \<Longrightarrow> b < tx_idx v \<Longrightarrow> lc_lock l b = None \<Longrightarrow> \<not> is_executed (lc_st l b) \<Longrightarrow>
     lstep l (l\<lparr>lc_lock := (lc_lock l)(b := Some w)\<rparr>)"
| block: "lc_run l w = Some v \<Longrightarrow> lc_lock l b = Some w \<Longrightarrow> b \<noteq> tx_idx v \<Longrightarrow> lc_lock l (tx_idx v) = None \<Longrightarrow>
     lstep l ((move l (tx_idx v) Aborting)
       \<lparr>lc_deps := (lc_deps l)[b := lc_deps l ! b @ [tx_idx v]],
        lc_run := (lc_run l)(w := None), lc_lock := (lc_lock l)(b := None)\<rparr>)"
| drain: "lc_run l w = Some v \<Longrightarrow> lc_tok l w = [] \<Longrightarrow> lc_lock l (tx_idx v) = None \<Longrightarrow>
     lstep l (l\<lparr>lc_deps := (lc_deps l)[tx_idx v := []],
                lc_tok := (lc_tok l)(w := lc_deps l ! tx_idx v),
                lc_lock := (lc_lock l)(tx_idx v := Some w)\<rparr>)"
| resume: "lc_tok l w = d # ds \<Longrightarrow>
     lstep l ((renew l d)\<lparr>lc_tok := (lc_tok l)(w := ds)\<rparr>)"
| finish: "lc_run l w = Some v \<Longrightarrow> lc_tok l w = [] \<Longrightarrow> lc_lock l (tx_idx v) = Some w \<Longrightarrow>
     is_executed st \<Longrightarrow> lk = lc_lock l \<or> lk = (lc_lock l)(tx_idx v := None) \<Longrightarrow>
     lstep l ((move l (tx_idx v) st)\<lparr>lc_run := (lc_run l)(w := None), lc_lock := lk\<rparr>)"
| confirm: "i < length (lc_status l) \<Longrightarrow> lc_st l i = Executed \<Longrightarrow> lstep l (move l i Validated)"
| abort: "i < length (lc_status l) \<Longrightarrow> is_executed (lc_st l i) \<Longrightarrow> lc_lock l i = None \<Longrightarrow> idle l w \<Longrightarrow>
     lstep l ((move l i Aborting)\<lparr>lc_tok := (lc_tok l)(w := [i])\<rparr>)"
| unlock: "lc_lock l i = Some w \<Longrightarrow> lc_run l w = None \<Longrightarrow>
     lstep l (l\<lparr>lc_lock := (lc_lock l)(i := None)\<rparr>)"
| drop: "lstep l (l\<lparr>lc_run := (lc_run l)(w := None)\<rparr>)"

section \<open>Tokens\<close>

text \<open>
  An aborted transaction is in exactly one place: a dependents list (\<open>Inl b\<close>) or the hands of a
  worker (\<open>Inr w\<close>).
\<close>

fun holder :: "lifecycle \<Rightarrow> tx_idx \<Rightarrow> nat + nat \<Rightarrow> bool" where
  "holder l i (Inl b) \<longleftrightarrow> b < length (lc_deps l) \<and> i \<in> set (lc_deps l ! b)"
| "holder l i (Inr w) \<longleftrightarrow> i \<in> set (lc_tok l w)"

definition inv_run :: "lifecycle \<Rightarrow> bool" where
  "inv_run l \<longleftrightarrow>
     (\<forall>w v. lc_run l w = Some v \<longrightarrow> tx_idx v < length (lc_status l) \<and>
        lc_status l ! tx_idx v = \<lparr>incarnation = tx_incarnation v, status = Executing\<rparr>) \<and>
     (\<forall>w w' v v'. lc_run l w = Some v \<longrightarrow> lc_run l w' = Some v' \<longrightarrow> tx_idx v = tx_idx v' \<longrightarrow> w = w')"

definition tok_status :: "lifecycle \<Rightarrow> bool" where
  "tok_status l \<longleftrightarrow> (\<forall>i h. holder l i h \<longrightarrow> i < length (lc_status l) \<and> lc_st l i = Aborting)"

definition tok_unique :: "lifecycle \<Rightarrow> bool" where
  "tok_unique l \<longleftrightarrow> (\<forall>i h h'. holder l i h \<longrightarrow> holder l i h' \<longrightarrow> h = h')"

definition tok_distinct :: "lifecycle \<Rightarrow> bool" where
  "tok_distinct l \<longleftrightarrow>
     (\<forall>b < length (lc_deps l). distinct (lc_deps l ! b)) \<and> (\<forall>w. distinct (lc_tok l w))"

definition inv_tok :: "lifecycle \<Rightarrow> bool" where
  "inv_tok l \<longleftrightarrow> length (lc_deps l) = length (lc_status l) \<and>
     tok_status l \<and> tok_unique l \<and> tok_distinct l"

definition inv_wait :: "lifecycle \<Rightarrow> bool" where
  "inv_wait l \<longleftrightarrow>
     (\<forall>b < length (lc_deps l). \<forall>i \<in> set (lc_deps l ! b). b < i) \<and>
     (\<forall>b < length (lc_deps l). lc_deps l ! b \<noteq> [] \<longrightarrow> \<not> is_executed (lc_st l b)) \<and>
     (\<forall>w v b. lc_run l w = Some v \<longrightarrow> lc_lock l b = Some w \<longrightarrow>
        (if b = tx_idx v then lc_deps l ! b = [] else b < tx_idx v \<and> \<not> is_executed (lc_st l b)))"

definition inv_lc :: "lifecycle \<Rightarrow> bool" where
  "inv_lc l \<longleftrightarrow> inv_run l \<and> inv_tok l \<and> inv_wait l"

lemma move_simps [simp]:
  "lc_deps (move l i st) = lc_deps l" "lc_run (move l i st) = lc_run l"
  "lc_tok (move l i st) = lc_tok l" "lc_lock (move l i st) = lc_lock l"
  "length (lc_status (move l i st)) = length (lc_status l)"
  "lc_deps (renew l i) = lc_deps l" "lc_run (renew l i) = lc_run l"
  "lc_tok (renew l i) = lc_tok l" "lc_lock (renew l i) = lc_lock l"
  "length (lc_status (renew l i)) = length (lc_status l)"
  by (simp_all add: move_def renew_def)

lemma nth_move:
  "i < length (lc_status l) \<Longrightarrow> lc_status (move l i st) ! j =
     (if j = i then (lc_status l ! i)\<lparr>status := st\<rparr> else lc_status l ! j)"
  by (simp add: move_def nth_list_update)

lemma nth_renew:
  "i < length (lc_status l) \<Longrightarrow> lc_status (renew l i) ! j =
     (if j = i then \<lparr>incarnation = incarnation (lc_status l ! i) + 1, status = ReadyToExecute\<rparr>
      else lc_status l ! j)"
  by (simp add: renew_def nth_list_update)

lemma inv_runD:
  "inv_run l \<Longrightarrow> lc_run l w = Some v \<Longrightarrow> tx_idx v < length (lc_status l) \<and>
     lc_status l ! tx_idx v = \<lparr>incarnation = tx_incarnation v, status = Executing\<rparr>"
  by (simp add: inv_run_def)

lemma inv_tokD:
  "inv_tok l \<Longrightarrow> holder l i h \<Longrightarrow> i < length (lc_status l) \<and> lc_st l i = Aborting"
  by (auto simp: inv_tok_def tok_status_def)

lemma inv_run_step:
  assumes "lstep l l'" "inv_lc l"
  shows "inv_run l'"
  using assms(1)
proof cases
  case (start i w)
  with assms(2) show ?thesis
    by (auto simp: inv_lc_def inv_run_def nth_move)
next
  case (block w v b)
  with assms(2) show ?thesis
    by (auto simp: inv_lc_def inv_run_def nth_move)
next
  case (resume w d ds)
  with assms(2) have "d < length (lc_status l)" "lc_st l d = Aborting"
    using inv_tokD [of l d "Inr w"] by (auto simp: inv_lc_def)
  with resume assms(2) show ?thesis
    by (auto simp: inv_lc_def inv_run_def nth_renew)
next
  case (finish w v st)
  with assms(2) show ?thesis
    by (auto simp: inv_lc_def inv_run_def nth_move)
next
  case (confirm i)
  with assms(2) show ?thesis
    by (auto simp: inv_lc_def inv_run_def nth_move)
next
  case (abort i w)
  with assms(2) show ?thesis
    by (auto simp: inv_lc_def inv_run_def nth_move is_executed_def)
qed (use assms(2) in \<open>auto simp: inv_lc_def inv_run_def\<close>)


text \<open>
  Who holds which token after a step. Every step moves at most one transaction in or out of the
  aborted set, or moves whole lists between places.
\<close>

lemma holder_cong:
  "lc_deps l' = lc_deps l \<Longrightarrow> lc_tok l' = lc_tok l \<Longrightarrow> holder l' j h \<longleftrightarrow> holder l j h"
  by (cases h) auto

lemma holder_block:
  "b < length (lc_deps l) \<Longrightarrow> lc_deps l' = (lc_deps l)[b := lc_deps l ! b @ [i]] \<Longrightarrow>
   lc_tok l' = lc_tok l \<Longrightarrow> holder l' j h \<longleftrightarrow> holder l j h \<or> j = i \<and> h = Inl b"
  by (cases h) (auto simp: nth_list_update)

lemma holder_drain:
  "i < length (lc_deps l) \<Longrightarrow> lc_tok l w = [] \<Longrightarrow> lc_deps l' = (lc_deps l)[i := []] \<Longrightarrow>
   lc_tok l' = (lc_tok l)(w := lc_deps l ! i) \<Longrightarrow>
   holder l' j h \<longleftrightarrow> holder l j h \<and> h \<noteq> Inl i \<or> holder l j (Inl i) \<and> h = Inr w"
  by (cases h) (auto simp: nth_list_update)

lemma holder_resume:
  "lc_tok l w = d # ds \<Longrightarrow> d \<notin> set ds \<Longrightarrow> lc_deps l' = lc_deps l \<Longrightarrow> lc_tok l' = (lc_tok l)(w := ds) \<Longrightarrow>
   holder l' j h \<longleftrightarrow> holder l j h \<and> \<not> (j = d \<and> h = Inr w)"
  by (cases h) auto

lemma holder_abort:
  "lc_tok l w = [] \<Longrightarrow> lc_deps l' = lc_deps l \<Longrightarrow> lc_tok l' = (lc_tok l)(w := [i]) \<Longrightarrow>
   holder l' j h \<longleftrightarrow> holder l j h \<or> j = i \<and> h = Inr w"
  by (cases h) auto

lemma inv_tokI:
  assumes "length (lc_deps l') = length (lc_status l')"
    and "\<And>j h. holder l' j h \<Longrightarrow> j < length (lc_status l') \<and> lc_st l' j = Aborting"
    and "\<And>j h h'. holder l' j h \<Longrightarrow> holder l' j h' \<Longrightarrow> h = h'"
    and "\<And>b. b < length (lc_deps l') \<Longrightarrow> distinct (lc_deps l' ! b)"
    and "\<And>w. distinct (lc_tok l' w)"
  shows "inv_tok l'"
  using assms unfolding inv_tok_def tok_status_def tok_unique_def tok_distinct_def by blast

lemma inv_tok_uniqueD: "inv_tok l \<Longrightarrow> holder l i h \<Longrightarrow> holder l i h' \<Longrightarrow> h = h'"
  unfolding inv_tok_def tok_unique_def by blast

lemma inv_tok_distinctD:
  "inv_tok l \<Longrightarrow> b < length (lc_deps l) \<Longrightarrow> distinct (lc_deps l ! b)"
  "inv_tok l \<Longrightarrow> distinct (lc_tok l w)"
  "inv_tok l \<Longrightarrow> length (lc_deps l) = length (lc_status l)"
  by (auto simp: inv_tok_def tok_distinct_def)

lemma inv_tok_same:
  assumes "inv_tok l" "lc_deps l' = lc_deps l" "lc_tok l' = lc_tok l"
    and "length (lc_status l') = length (lc_status l)"
    and "\<And>j. j < length (lc_status l) \<Longrightarrow> lc_st l j = Aborting \<Longrightarrow> lc_st l' j = Aborting"
  shows "inv_tok l'"
  using assms inv_tokD [OF assms(1)] inv_tok_uniqueD [OF assms(1)] inv_tok_distinctD [OF assms(1)]
  by (intro inv_tokI) (auto simp: holder_cong [OF assms(2,3)])

lemma inv_tok_block:
  assumes inv: "inv_tok l" and i: "i < length (lc_status l)" "lc_st l i = Executing"
    and b: "b < length (lc_status l)"
  shows "inv_tok ((move l i Aborting)\<lparr>lc_deps := (lc_deps l)[b := lc_deps l ! b @ [i]],
     lc_run := r, lc_lock := lk\<rparr>)" (is "inv_tok ?l")
proof -
  have b': "b < length (lc_deps l)"
    using b inv_tok_distinctD(3) [OF inv] by simp
  have h: "holder ?l j h \<longleftrightarrow> holder l j h \<or> j = i \<and> h = Inl b" for j h
    by (rule holder_block [OF b']) simp_all
  have no: "\<not> holder l i h" for h
    using inv_tokD [OF inv, of i h] i by auto
  show ?thesis
  proof (rule inv_tokI)
    show "j < length (lc_status ?l) \<and> lc_st ?l j = Aborting" if "holder ?l j h" for j h
      using that inv_tokD [OF inv, of j h] i by (auto simp: h nth_move)
    show "h1 = h2" if "holder ?l j h1" "holder ?l j h2" for j h1 h2
      using that no inv_tok_uniqueD [OF inv, of j h1 h2] unfolding h by blast
    show "distinct (lc_deps ?l ! c)" if "c < length (lc_deps ?l)" for c
      using that no [of "Inl b"] b' inv_tok_distinctD(1) [OF inv]
      by (auto simp: nth_list_update)
  qed (use inv_tok_distinctD [OF inv] in auto)
qed

lemma inv_tok_drain:
  assumes inv: "inv_tok l" and i: "i < length (lc_status l)" and w: "lc_tok l w = []"
  shows "inv_tok (l\<lparr>lc_deps := (lc_deps l)[i := []], lc_tok := (lc_tok l)(w := lc_deps l ! i),
     lc_lock := lk\<rparr>)" (is "inv_tok ?l")
proof -
  have i': "i < length (lc_deps l)"
    using i inv_tok_distinctD(3) [OF inv] by simp
  have h: "holder ?l j h \<longleftrightarrow> holder l j h \<and> h \<noteq> Inl i \<or> holder l j (Inl i) \<and> h = Inr w" for j h
    by (rule holder_drain [OF i' w]) simp_all
  show ?thesis
  proof (rule inv_tokI)
    show "j < length (lc_status ?l) \<and> lc_st ?l j = Aborting" if "holder ?l j h" for j h
      using that inv_tokD [OF inv, of j h] inv_tokD [OF inv, of j "Inl i"] unfolding h by auto
    show "h1 = h2" if "holder ?l j h1" "holder ?l j h2" for j h1 h2
      using that inv_tok_uniqueD [OF inv] unfolding h by blast
  qed (use inv_tok_distinctD [OF inv] i' in \<open>auto simp: nth_list_update\<close>)
qed

lemma inv_tok_resume:
  assumes inv: "inv_tok l" and w: "lc_tok l w = d # ds"
  shows "inv_tok ((renew l d)\<lparr>lc_tok := (lc_tok l)(w := ds)\<rparr>)" (is "inv_tok ?l")
proof -
  have hd: "holder l d (Inr w)"
    using w by simp
  have dist: "distinct (d # ds)"
    using inv_tok_distinctD(2) [OF inv, of w] w by simp
  have h: "holder ?l j h \<longleftrightarrow> holder l j h \<and> \<not> (j = d \<and> h = Inr w)" for j h
    by (rule holder_resume [OF w]) (use dist in simp_all)
  show ?thesis
  proof (rule inv_tokI)
    show "j < length (lc_status ?l) \<and> lc_st ?l j = Aborting" if "holder ?l j h" for j h
      using that inv_tokD [OF inv, of j h] inv_tokD [OF inv hd] inv_tok_uniqueD [OF inv hd, of h]
      unfolding h by (auto simp: nth_renew)
    show "h1 = h2" if "holder ?l j h1" "holder ?l j h2" for j h1 h2
      using that inv_tok_uniqueD [OF inv] unfolding h by blast
  qed (use inv_tok_distinctD [OF inv] dist in auto)
qed

lemma inv_tok_abort:
  assumes inv: "inv_tok l" and i: "i < length (lc_status l)" "lc_st l i \<noteq> Aborting"
    and w: "lc_tok l w = []"
  shows "inv_tok ((move l i Aborting)\<lparr>lc_tok := (lc_tok l)(w := [i])\<rparr>)" (is "inv_tok ?l")
proof -
  have h: "holder ?l j h \<longleftrightarrow> holder l j h \<or> j = i \<and> h = Inr w" for j h
    by (rule holder_abort [OF w]) simp_all
  have no: "\<not> holder l i h" for h
    using inv_tokD [OF inv, of i h] i by auto
  show ?thesis
  proof (rule inv_tokI)
    show "j < length (lc_status ?l) \<and> lc_st ?l j = Aborting" if "holder ?l j h" for j h
      using that inv_tokD [OF inv, of j h] i by (auto simp: h nth_move)
    show "h1 = h2" if "holder ?l j h1" "holder ?l j h2" for j h1 h2
      using that no inv_tok_uniqueD [OF inv, of j h1 h2] unfolding h by blast
  qed (use inv_tok_distinctD [OF inv] in auto)
qed

lemma inv_tok_step:
  assumes "lstep l l'" "inv_lc l"
  shows "inv_tok l'"
proof -
  from assms(2) have inv: "inv_tok l" and run: "inv_run l" and wait: "inv_wait l"
    by (auto simp: inv_lc_def)
  from assms(1) show ?thesis
  proof cases
    case (start i w)
    with inv show ?thesis by (auto intro!: inv_tok_same [OF inv] simp: nth_move)
  next
    case (block w v b)
    with wait have "b < tx_idx v" by (auto simp: inv_wait_def)
    with block inv_runD [OF run block(2)] inv show ?thesis by (auto intro!: inv_tok_block)
  next
    case (drain w v)
    with inv_runD [OF run drain(2)] inv show ?thesis by (auto intro!: inv_tok_drain)
  next
    case (resume w d ds)
    with inv show ?thesis by (simp add: inv_tok_resume)
  next
    case (finish w v st lk)
    with inv_runD [OF run finish(2)] show ?thesis
      by (auto intro!: inv_tok_same [OF inv] simp: nth_move)
  next
    case (confirm i)
    then show ?thesis by (auto intro!: inv_tok_same [OF inv] simp: nth_move)
  next
    case (abort i w)
    then show ?thesis
      using inv by (auto intro!: inv_tok_abort simp: idle_def is_executed_def)
  qed (auto intro!: inv_tok_same [OF inv])
qed

section \<open>Waiting\<close>

lemma inv_waitD:
  assumes "inv_wait l"
  shows "b < length (lc_deps l) \<Longrightarrow> i \<in> set (lc_deps l ! b) \<Longrightarrow> b < i"
    and "b < length (lc_deps l) \<Longrightarrow> lc_deps l ! b \<noteq> [] \<Longrightarrow> \<not> is_executed (lc_st l b)"
    and "lc_run l w = Some v \<Longrightarrow> lc_lock l (tx_idx v) = Some w \<Longrightarrow> lc_deps l ! tx_idx v = []"
    and "lc_run l w = Some v \<Longrightarrow> lc_lock l b = Some w \<Longrightarrow> b \<noteq> tx_idx v \<Longrightarrow>
         b < tx_idx v \<and> \<not> is_executed (lc_st l b)"
  using assms unfolding inv_wait_def by fastforce+

lemma inv_waitI:
  assumes "\<And>b i. b < length (lc_deps l) \<Longrightarrow> i \<in> set (lc_deps l ! b) \<Longrightarrow> b < i"
    and "\<And>b. b < length (lc_deps l) \<Longrightarrow> lc_deps l ! b \<noteq> [] \<Longrightarrow> \<not> is_executed (lc_st l b)"
    and "\<And>w v. lc_run l w = Some v \<Longrightarrow> lc_lock l (tx_idx v) = Some w \<Longrightarrow> lc_deps l ! tx_idx v = []"
    and "\<And>w v b. lc_run l w = Some v \<Longrightarrow> lc_lock l b = Some w \<Longrightarrow> b \<noteq> tx_idx v \<Longrightarrow>
         b < tx_idx v \<and> \<not> is_executed (lc_st l b)"
  shows "inv_wait l"
  using assms unfolding inv_wait_def by auto

text \<open>A change of statuses that makes nobody executed keeps the waiting invariant.\<close>

lemma inv_wait_same:
  assumes wait: "inv_wait l" and eq: "lc_deps l' = lc_deps l"
    and run: "\<And>w v. lc_run l' w = Some v \<Longrightarrow> lc_run l w = Some v \<or> (\<forall>b. lc_lock l' b \<noteq> Some w)"
    and lock: "\<And>b w. lc_lock l' b = Some w \<Longrightarrow> lc_lock l b = Some w"
    and st: "\<And>b. is_executed (lc_st l' b) \<Longrightarrow> is_executed (lc_st l b)"
  shows "inv_wait l'"
  by (rule inv_waitI)
    (use inv_waitD [OF wait] eq run lock st in \<open>metis+\<close>)

lemma inv_wait_step:
  assumes "lstep l l'" "inv_lc l"
  shows "inv_wait l'"
proof -
  from assms(2) have tok: "inv_tok l" and run: "inv_run l" and wait: "inv_wait l"
    by (auto simp: inv_lc_def)
  note len = inv_tok_distinctD(3) [OF tok]
  from assms(1) show ?thesis
  proof cases
    case (start i w)
    then show ?thesis
      by (intro inv_wait_same [OF wait]) (auto simp: nth_move idle_def is_executed_def split: if_splits)
  next
    case (hold w v b)
    with inv_waitD [OF wait] show ?thesis
      by (intro inv_waitI) (auto split: if_splits)
  next
    case (block w v b)
    then have v: "tx_idx v < length (lc_status l)" "lc_st l (tx_idx v) = Executing"
      using inv_runD [OF run] by auto
    have b: "b < tx_idx v" "\<not> is_executed (lc_st l b)"
      using inv_waitD(4) [OF wait] block by auto
    show ?thesis
    proof (rule inv_waitI)
      show "c < i" if "c < length (lc_deps l')" "i \<in> set (lc_deps l' ! c)" for c i
        using that block b v len inv_waitD(1) [OF wait, of c i] by (cases "c = b") auto
      show "\<not> is_executed (lc_st l' c)" if "c < length (lc_deps l')" "lc_deps l' ! c \<noteq> []" for c
        using that block b v len inv_waitD(2) [OF wait, of c]
        by (cases "c = b") (auto simp: nth_move is_executed_def)
    qed (use block v inv_waitD(3,4) [OF wait] in
          \<open>auto simp: nth_list_update nth_move is_executed_def split: if_splits\<close>)
  next
    case (drain w v)
    then have v: "tx_idx v < length (lc_status l)" using inv_runD [OF run] by auto
    with drain inv_waitD [OF wait] run show ?thesis
      by (intro inv_waitI) (auto simp: nth_list_update inv_run_def len split: if_splits)
  next
    case (resume w d ds)
    with inv_tokD [OF tok, of d "Inr w"] show ?thesis
      by (intro inv_wait_same [OF wait]) (auto simp: nth_renew is_executed_def split: if_splits)
  next
    case (finish w v st lk)
    then have v: "tx_idx v < length (lc_status l)" and d: "lc_deps l ! tx_idx v = []"
      using inv_runD [OF run] inv_waitD(3) [OF wait] by auto
    show ?thesis
    proof (rule inv_waitI)
      show "\<not> is_executed (lc_st l' c)" if "c < length (lc_deps l')" "lc_deps l' ! c \<noteq> []" for c
        using that finish v d inv_waitD(2) [OF wait, of c] by (auto simp: nth_move)
      show "c < tx_idx u \<and> \<not> is_executed (lc_st l' c)"
        if "lc_run l' x = Some u" "lc_lock l' c = Some x" "c \<noteq> tx_idx u" for x u c
        using that finish v inv_waitD(4) [OF wait, of x u c] by (auto simp: nth_move split: if_splits)
    qed (use finish inv_waitD(1,3) [OF wait] in \<open>auto split: if_splits\<close>)
  next
    case (confirm i)
    then show ?thesis
      by (intro inv_wait_same [OF wait]) (auto simp: nth_move is_executed_def split: if_splits)
  next
    case (abort i w)
    then show ?thesis
      by (intro inv_wait_same [OF wait]) (auto simp: nth_move is_executed_def split: if_splits)
  next
    case (unlock i w)
    then show ?thesis
      by (intro inv_wait_same [OF wait]) (auto split: if_splits)
  next
    case (drop w)
    then show ?thesis
      by (intro inv_wait_same [OF wait]) (auto split: if_splits)
  qed
qed

section \<open>The protocol's guarantees\<close>

definition init_lc :: "lifecycle \<Rightarrow> bool" where
  "init_lc l \<longleftrightarrow> length (lc_deps l) = length (lc_status l) \<and>
     (\<forall>i < length (lc_status l). lc_st l i = ReadyToExecute \<and> lc_deps l ! i = []) \<and> (\<forall>w. idle l w)"

lemma inv_lc_init: "init_lc l \<Longrightarrow> inv_lc l"
proof -
  assume init: "init_lc l"
  then have no: "\<not> holder l i h" for i h
    by (cases h) (auto simp: init_lc_def idle_def)
  have "inv_tok l"
    using init no by (intro inv_tokI) (auto simp: init_lc_def idle_def)
  moreover have "inv_run l" "inv_wait l"
    using init by (auto simp: init_lc_def idle_def inv_run_def inv_wait_def)
  ultimately show ?thesis
    by (simp add: inv_lc_def)
qed

lemma inv_lc_step: "inv_lc l \<Longrightarrow> lstep l l' \<Longrightarrow> inv_lc l'"
  using inv_run_step inv_tok_step inv_wait_step by (auto simp: inv_lc_def)

interpretation protocol: invariant_system init_lc lstep inv_lc
  by unfold_locales (auto intro: inv_lc_init inv_lc_step)

text \<open>
  No transaction is stranded: when nobody holds anything any more and every aborted transaction is
  still somewhere, every transaction has been executed. The proof walks down the chain of
  dependents: a waiting transaction waits for a strictly lower one that is not executed either.
\<close>

lemma lc_all_executed:
  assumes inv: "inv_lc l"
    and tok: "\<And>w. lc_tok l w = []"
    and busy: "\<And>i. i < length (lc_status l) \<Longrightarrow> lc_st l i \<noteq> ReadyToExecute \<and> lc_st l i \<noteq> Executing"
    and ab: "\<And>i. i < length (lc_status l) \<Longrightarrow> lc_st l i = Aborting \<Longrightarrow> \<exists>h. holder l i h"
    and i: "i < length (lc_status l)"
  shows "is_executed (lc_st l i)"
  using i
proof (induction i rule: less_induct)
  case (less i)
  show ?case
  proof (rule ccontr)
    assume "\<not> is_executed (lc_st l i)"
    with busy [OF less.prems] have "lc_st l i = Aborting"
      by (cases "lc_st l i") (auto simp: is_executed_def)
    then obtain h where h: "holder l i h"
      using ab less.prems by blast
    with tok obtain b where b: "b < length (lc_deps l)" "i \<in> set (lc_deps l ! b)"
      by (cases h) auto
    then have "b < i" "\<not> is_executed (lc_st l b)"
      using inv inv_waitD(1,2) [of l b] by (force simp: inv_lc_def)+
    with less show False
      by auto
  qed
qed

end
