(* ===== verification/Scheduler_Steps.thy ===== *)
theory Scheduler_Steps
  imports Lifecycle
begin

text \<open>
  The workers of \<^verbatim>\<open>Pevm::execute_revm_parallel\<close> as an interleaving transition system. Every access
  to an atomic of the scheduler and every section under a status mutex is one step; a worker's
  place in \<^verbatim>\<open>next_task\<close>, \<^verbatim>\<open>try_execute\<close>, \<^verbatim>\<open>add_dependency\<close>, \<^verbatim>\<open>finish_execution\<close>, \<^verbatim>\<open>try_validate\<close> and
  \<^verbatim>\<open>finish_validation\<close> is a program counter. Steps interleave arbitrarily. The outcome of running a
  transaction and the verdict of a read-set validation are left open here (any outcome may occur),
  so everything proved holds whatever the EVM and the multi-version memory answer.

  A status mutex that is held across several steps (by \<^verbatim>\<open>finish_execution\<close> and \<^verbatim>\<open>add_dependency\<close>) is
  explicit in \<open>locks\<close>. The mutex of a dependents list is taken only while the status mutex of the
  same index is held, hence never contended, and needs no entry of its own.
\<close>

section \<open>Program counters\<close>

datatype pc =
    NT_aborted
  | NT_exec
  | NT_val nat
  | NT_num
  | NT_min nat
  | NT_fetch_val
  | NT_lock_val tx_idx
  | NT_fetch_exec
  | NT_lock_exec tx_idx
  | RUN tx_version
  | RUN_retry tx_version
  | RUN_reason
  | AD_lock tx_version tx_idx
  | AD_tx tx_version tx_idx
  | FE_lock tx_version finish_exec_flags
  | FE_resume tx_version finish_exec_flags "tx_idx list"
  | FE_fetch tx_version finish_exec_flags tx_idx "tx_idx list"
  | FE_min tx_version finish_exec_flags
  | FE_val_min tx_version finish_exec_flags nat
  | FE_val tx_version finish_exec_flags
  | FE_val_next tx_version finish_exec_flags
  | FE_between tx_version finish_exec_flags
  | FE_again tx_version finish_exec_flags
  | FE_settle tx_version finish_exec_flags
  | VA tx_version
  | VA_abort tx_version
  | VA_estimate tx_version
  | FV_ready tx_version
  | FV_fetch tx_version
  | FV_exec tx_version
  | FV_try tx_version
  | FV_done tx_version
  | Ret "task option"
  | Exited

fun task_pc :: "task \<Rightarrow> pc" where
  "task_pc (Execution v) = RUN v"
| "task_pc (Validation v) = VA v"

record machine =
  sched :: scheduler
  locks :: "tx_idx \<Rightarrow> nat option"
  reason :: bool
  slots :: "tx_idx \<Rightarrow> bool"
  pcs :: "nat \<Rightarrow> pc"

abbreviation goto :: "machine \<Rightarrow> nat \<Rightarrow> pc \<Rightarrow> machine" where
  "goto m w p \<equiv> m\<lparr>pcs := (pcs m)(w := p)\<rparr>"

abbreviation size_of :: "machine \<Rightarrow> nat" where
  "size_of m \<equiv> block_size (sched m)"

abbreviation unlocked :: "machine \<Rightarrow> tx_idx \<Rightarrow> bool" where
  "unlocked m i \<equiv> locks m i = None"

definition init_machine :: "nat \<Rightarrow> nat \<Rightarrow> machine \<Rightarrow> bool" where
  "init_machine n workers m \<longleftrightarrow>
     sched m = new_scheduler n \<and> locks m = (\<lambda>_. None) \<and> \<not> reason m \<and> slots m = (\<lambda>_. False) \<and>
     0 < workers \<and> pcs m = (\<lambda>w. if w < workers then NT_aborted else Exited)"

section \<open>Steps\<close>

definition after_val :: "scheduler \<Rightarrow> nat \<Rightarrow> pc" where
  "after_val s e =
     (if e \<ge> block_size s \<and> validation_idx s \<ge> block_size s then NT_num
      else if validation_idx s < e then NT_fetch_val else NT_fetch_exec)"

fun after_pick :: "validation_pick \<Rightarrow> pc" where
  "after_pick (PickTask t) = task_pc t"
| "after_pick PickAgain = NT_aborted"
| "after_pick PickExecution = NT_fetch_exec"

definition after_min :: "scheduler \<Rightarrow> tx_version \<Rightarrow> finish_exec_flags \<Rightarrow> nat \<Rightarrow> pc" where
  "after_min s v f mv =
     (if mv < block_size s then
        if tx_idx v < mv then
          (if wrote_new_location f then FE_val_min v f mv else FE_settle v f)
        else FE_val v f
      else FE_settle v f)"

definition after_load_val :: "scheduler \<Rightarrow> tx_version \<Rightarrow> finish_exec_flags \<Rightarrow> pc" where
  "after_load_val s v f =
     (if tx_idx v < validation_idx s then
        (if wrote_new_location f then FE_val_next v f else FE_between v f)
      else FE_settle v f)"

inductive wstep :: "nat \<Rightarrow> machine \<Rightarrow> machine \<Rightarrow> bool" for w where
  nt_aborted: "pcs m w = NT_aborted \<Longrightarrow>
     wstep w m (goto m w (if aborted (sched m) then Exited else NT_exec))"
| nt_exec: "pcs m w = NT_exec \<Longrightarrow> wstep w m (goto m w (NT_val (execution_idx (sched m))))"
| nt_val: "pcs m w = NT_val e \<Longrightarrow> wstep w m (goto m w (after_val (sched m) e))"
| nt_num: "pcs m w = NT_num \<Longrightarrow> wstep w m (goto m w (NT_min (num_validated (sched m))))"
| nt_min: "pcs m w = NT_min nv \<Longrightarrow>
     wstep w m (goto m w (if nv \<ge> size_of m - min_validation_idx (sched m) then Exited else NT_aborted))"
| nt_fetch_val: "pcs m w = NT_fetch_val \<Longrightarrow> fetch_add_validation (sched m) = (i, s') \<Longrightarrow>
     wstep w m (goto (m\<lparr>sched := s'\<rparr>) w (if i < size_of m then NT_lock_val i else NT_fetch_exec))"
| nt_lock_val: "pcs m w = NT_lock_val i \<Longrightarrow> unlocked m i \<Longrightarrow> pick_validation (sched m) i = (p, s') \<Longrightarrow>
     wstep w m (goto (m\<lparr>sched := s'\<rparr>) w (after_pick p))"
| nt_fetch_exec: "pcs m w = NT_fetch_exec \<Longrightarrow> fetch_add_execution (sched m) = (i, s') \<Longrightarrow>
     wstep w m (goto (m\<lparr>sched := s'\<rparr>) w (NT_lock_exec i))"
| nt_lock_exec: "pcs m w = NT_lock_exec i \<Longrightarrow> (i < size_of m \<longrightarrow> unlocked m i) \<Longrightarrow>
     try_execute (sched m) i = (r, s') \<Longrightarrow>
     wstep w m (goto (m\<lparr>sched := s'\<rparr>) w (case r of Some v \<Rightarrow> RUN v | None \<Rightarrow> NT_aborted))"
| ex_ok: "pcs m w = RUN v \<Longrightarrow>
     wstep w m (goto (m\<lparr>slots := (slots m)(tx_idx v := True)\<rparr>) w (FE_lock v f))"
| ex_blocking: "pcs m w = RUN v \<Longrightarrow> b < tx_idx v \<Longrightarrow> wstep w m (goto m w (AD_lock v b))"
| ex_inconsistent: "pcs m w = RUN v \<Longrightarrow> wstep w m (goto m w (RUN_retry v))"
| ex_fatal: "pcs m w = RUN v \<Longrightarrow>
     wstep w m (goto (m\<lparr>sched := scheduler_abort (sched m)\<rparr>) w RUN_reason)"
| ex_retry: "pcs m w = RUN_retry v \<Longrightarrow> wstep w m (goto m w (if reason m then Ret None else RUN v))"
| ex_reason: "pcs m w = RUN_reason \<Longrightarrow> wstep w m (goto (m\<lparr>reason := True\<rparr>) w (Ret None))"
| ad_race: "pcs m w = AD_lock v b \<Longrightarrow> unlocked m b \<Longrightarrow> is_executed (status_of (sched m) b) \<Longrightarrow>
     wstep w m (goto m w (RUN_retry v))"
| ad_lock: "pcs m w = AD_lock v b \<Longrightarrow> unlocked m b \<Longrightarrow> \<not> is_executed (status_of (sched m) b) \<Longrightarrow>
     wstep w m (goto (m\<lparr>locks := (locks m)(b := Some w)\<rparr>) w (AD_tx v b))"
| ad_tx: "pcs m w = AD_tx v b \<Longrightarrow> unlocked m (tx_idx v) \<Longrightarrow>
     wstep w m (goto (m\<lparr>sched := block_on (sched m) (tx_idx v) b, locks := (locks m)(b := None)\<rparr>)
       w (Ret None))"
| fe_lock: "pcs m w = FE_lock v f \<Longrightarrow> unlocked m (tx_idx v) \<Longrightarrow>
     drain_dependents (sched m) (tx_idx v) = (ds, s') \<Longrightarrow>
     wstep w m (goto (m\<lparr>sched := s', locks := (locks m)(tx_idx v := Some w)\<rparr>) w (FE_resume v f ds))"
| fe_resume: "pcs m w = FE_resume v f (d # ds) \<Longrightarrow> unlocked m d \<Longrightarrow>
     wstep w m (goto (m\<lparr>sched := set_ready_status (sched m) d\<rparr>) w (FE_fetch v f d ds))"
| fe_fetch: "pcs m w = FE_fetch v f d ds \<Longrightarrow>
     wstep w m (goto (m\<lparr>sched := fetch_min_execution (sched m) d\<rparr>) w (FE_resume v f ds))"
| fe_resumed: "pcs m w = FE_resume v f [] \<Longrightarrow> wstep w m (goto m w (FE_min v f))"
| fe_min: "pcs m w = FE_min v f \<Longrightarrow> decide_min_validation (sched m) (tx_idx v) f = (mv, s') \<Longrightarrow>
     wstep w m (goto (m\<lparr>sched := s'\<rparr>) w (after_min s' v f mv))"
| fe_val_min: "pcs m w = FE_val_min v f mv \<Longrightarrow>
     wstep w m (goto (m\<lparr>sched := fetch_min_validation (sched m) mv\<rparr>) w (FE_settle v f))"
| fe_val: "pcs m w = FE_val v f \<Longrightarrow> wstep w m (goto m w (after_load_val (sched m) v f))"
| fe_val_next: "pcs m w = FE_val_next v f \<Longrightarrow>
     wstep w m (goto (m\<lparr>sched := fetch_min_validation (sched m) (tx_idx v + 1)\<rparr>) w (FE_between v f))"
| fe_between_need: "pcs m w = FE_between v f \<Longrightarrow> needs_validation f \<Longrightarrow>
     wstep w m (goto (m\<lparr>sched := set_status (sched m) (tx_idx v) Executed,
                       locks := (locks m)(tx_idx v := None)\<rparr>) w (Ret (Some (Validation v))))"
| fe_between_lazy: "pcs m w = FE_between v f \<Longrightarrow> \<not> needs_validation f \<Longrightarrow>
     wstep w m (goto (m\<lparr>sched := count_validated (set_status (sched m) (tx_idx v) Validated)\<rparr>)
       w (FE_again v f))"
| fe_again: "pcs m w = FE_again v f \<Longrightarrow>
     wstep w m (goto (m\<lparr>sched := settle_execution (sched m) (tx_idx v) f,
                       locks := (locks m)(tx_idx v := None)\<rparr>) w (Ret None))"
| fe_settle: "pcs m w = FE_settle v f \<Longrightarrow>
     wstep w m (goto (m\<lparr>sched := settle_execution (sched m) (tx_idx v) f,
                       locks := (locks m)(tx_idx v := None)\<rparr>) w (Ret None))"
| va_valid: "pcs m w = VA v \<Longrightarrow> wstep w m (goto m w (FV_done v))"
| va_invalid: "pcs m w = VA v \<Longrightarrow> wstep w m (goto m w (VA_abort v))"
| va_abort: "pcs m w = VA_abort v \<Longrightarrow> unlocked m (tx_idx v) \<Longrightarrow>
     try_validation_abort (sched m) v = (ab, s') \<Longrightarrow>
     wstep w m (goto (m\<lparr>sched := s'\<rparr>) w (if ab then VA_estimate v else FV_done v))"
| va_estimate: "pcs m w = VA_estimate v \<Longrightarrow> wstep w m (goto m w (FV_ready v))"
| fv_ready: "pcs m w = FV_ready v \<Longrightarrow> unlocked m (tx_idx v) \<Longrightarrow>
     wstep w m (goto (m\<lparr>sched := set_ready_status (sched m) (tx_idx v)\<rparr>) w (FV_fetch v))"
| fv_fetch: "pcs m w = FV_fetch v \<Longrightarrow>
     wstep w m (goto (m\<lparr>sched := fetch_min_validation (sched m) (tx_idx v + 1)\<rparr>) w (FV_exec v))"
| fv_exec: "pcs m w = FV_exec v \<Longrightarrow>
     wstep w m (goto m w (if execution_idx (sched m) > tx_idx v then FV_try v else Ret None))"
| fv_try: "pcs m w = FV_try v \<Longrightarrow> unlocked m (tx_idx v) \<Longrightarrow>
     try_execute (sched m) (tx_idx v) = (r, s') \<Longrightarrow>
     wstep w m (goto (m\<lparr>sched := s'\<rparr>) w (Ret (map_option Execution r)))"
| fv_done: "pcs m w = FV_done v \<Longrightarrow> unlocked m (tx_idx v) \<Longrightarrow>
     wstep w m (goto (m\<lparr>sched := confirm_validation (sched m) (tx_idx v)\<rparr>) w (Ret None))"
| ret_stop: "pcs m w = Ret t \<Longrightarrow> reason m \<Longrightarrow> wstep w m (goto m w Exited)"
| ret_go: "pcs m w = Ret t \<Longrightarrow> \<not> reason m \<Longrightarrow>
     wstep w m (goto m w (case t of Some t' \<Rightarrow> task_pc t' | None \<Rightarrow> NT_aborted))"

definition mstep :: "machine \<Rightarrow> machine \<Rightarrow> bool" where
  "mstep m m' \<longleftrightarrow> (\<exists>w. wstep w m m')"

abbreviation reachable :: "nat \<Rightarrow> nat \<Rightarrow> machine \<Rightarrow> bool" where
  "reachable n workers \<equiv> reaches (init_machine n workers) mstep"

section \<open>What a program counter holds\<close>

text \<open>The version a worker is executing, while its status is \<open>Executing\<close>.\<close>

fun exec_of :: "pc \<Rightarrow> tx_version option" where
  "exec_of (RUN v) = Some v"
| "exec_of (RUN_retry v) = Some v"
| "exec_of (AD_lock v b) = Some v"
| "exec_of (AD_tx v b) = Some v"
| "exec_of (FE_lock v f) = Some v"
| "exec_of (FE_resume v f ds) = Some v"
| "exec_of (FE_fetch v f d ds) = Some v"
| "exec_of (FE_min v f) = Some v"
| "exec_of (FE_val_min v f mv) = Some v"
| "exec_of (FE_val v f) = Some v"
| "exec_of (FE_val_next v f) = Some v"
| "exec_of (FE_between v f) = Some v"
| "exec_of (FE_settle v f) = Some v"
| "exec_of (Ret (Some (Execution v))) = Some v"
| "exec_of _ = None"

text \<open>The transactions whose \<open>Aborting\<close> status a worker is about to turn into \<open>ReadyToExecute\<close>.\<close>

fun abort_of :: "pc \<Rightarrow> tx_idx list" where
  "abort_of (FE_resume v f ds) = ds"
| "abort_of (FE_fetch v f d ds) = ds"
| "abort_of (VA_estimate v) = [tx_idx v]"
| "abort_of (FV_ready v) = [tx_idx v]"
| "abort_of _ = []"

text \<open>The status mutex a worker holds between two of its steps.\<close>

fun lock_of :: "pc \<Rightarrow> tx_idx option" where
  "lock_of (AD_tx v b) = Some b"
| "lock_of (FE_resume v f ds) = Some (tx_idx v)"
| "lock_of (FE_fetch v f d ds) = Some (tx_idx v)"
| "lock_of (FE_min v f) = Some (tx_idx v)"
| "lock_of (FE_val_min v f mv) = Some (tx_idx v)"
| "lock_of (FE_val v f) = Some (tx_idx v)"
| "lock_of (FE_val_next v f) = Some (tx_idx v)"
| "lock_of (FE_between v f) = Some (tx_idx v)"
| "lock_of (FE_again v f) = Some (tx_idx v)"
| "lock_of (FE_settle v f) = Some (tx_idx v)"
| "lock_of _ = None"

text \<open>Every transaction index a worker may pass to an unchecked access.\<close>

fun extra_indices :: "pc \<Rightarrow> tx_idx list" where
  "extra_indices (NT_lock_val i) = [i]"
| "extra_indices (AD_lock v b) = [b]"
| "extra_indices (AD_tx v b) = [b]"
| "extra_indices (FE_fetch v f d ds) = d # ds"
| "extra_indices (FE_resume v f ds) = ds"
| "extra_indices (FE_again v f) = [tx_idx v]"
| "extra_indices (VA v) = [tx_idx v]"
| "extra_indices (VA_abort v) = [tx_idx v]"
| "extra_indices (VA_estimate v) = [tx_idx v]"
| "extra_indices (FV_ready v) = [tx_idx v]"
| "extra_indices (FV_fetch v) = [tx_idx v]"
| "extra_indices (FV_exec v) = [tx_idx v]"
| "extra_indices (FV_try v) = [tx_idx v]"
| "extra_indices (FV_done v) = [tx_idx v]"
| "extra_indices (Ret (Some (Validation v))) = [tx_idx v]"
| "extra_indices _ = []"

definition indices_of :: "pc \<Rightarrow> tx_idx list" where
  "indices_of p = (case exec_of p of Some v \<Rightarrow> [tx_idx v] | None \<Rightarrow> []) @ extra_indices p"

end
