(* ===== verification/Worker_Protocol.thy ===== *)
theory Worker_Protocol
  imports Scheduler_Steps
begin

text \<open>
  The interleaved workers implement the life-cycle protocol: \<open>abs_lc\<close> maps a state of the workers
  to a state of the protocol, and every step of a worker is a step of the protocol or leaves the
  abstract state unchanged. The invariants of the protocol, together with the lock bookkeeping and
  the index bounds shown here, therefore hold in every reachable state of the workers.
\<close>

section \<open>The workers follow the protocol\<close>

definition abs_lc :: "machine \<Rightarrow> lifecycle" where
  "abs_lc m =
     \<lparr>lc_status = transactions_status (sched m), lc_deps = transactions_dependents (sched m),
      lc_run = (\<lambda>w. exec_of (pcs m w)), lc_tok = (\<lambda>w. abort_of (pcs m w)), lc_lock = locks m\<rparr>"

lemma abs_lc_sel [simp]:
  "lc_status (abs_lc m) = transactions_status (sched m)"
  "lc_deps (abs_lc m) = transactions_dependents (sched m)"
  "lc_run (abs_lc m) = (\<lambda>w. exec_of (pcs m w))"
  "lc_tok (abs_lc m) = (\<lambda>w. abort_of (pcs m w))"
  "lc_lock (abs_lc m) = locks m"
  by (simp_all add: abs_lc_def)

fun wf_pc :: "pc \<Rightarrow> bool" where
  "wf_pc (AD_lock v b) = (b < tx_idx v)"
| "wf_pc (AD_tx v b) = (b < tx_idx v)"
| "wf_pc (FE_resume v f ds) = (\<forall>d \<in> set ds. tx_idx v < d)"
| "wf_pc (FE_fetch v f d ds) = (\<forall>d \<in> set ds. tx_idx v < d)"
| "wf_pc (FE_again v f) = (\<not> needs_validation f)"
| "wf_pc p = True"

definition inv_shape :: "machine \<Rightarrow> bool" where
  "inv_shape m \<longleftrightarrow>
     length (transactions_status (sched m)) = size_of m \<and>
     min_validation_idx (sched m) \<le> size_of m \<and>
     (\<forall>w. wf_pc (pcs m w) \<and> (\<forall>i \<in> set (extra_indices (pcs m w)). i < size_of m))"

definition inv_lock :: "machine \<Rightarrow> bool" where
  "inv_lock m \<longleftrightarrow> (\<forall>w i. locks m i = Some w \<longleftrightarrow> lock_of (pcs m w) = Some i)"

definition inv_again :: "machine \<Rightarrow> bool" where
  "inv_again m \<longleftrightarrow> (\<forall>w v f. pcs m w = FE_again v f \<longrightarrow> status_of (sched m) (tx_idx v) = Validated)"

definition inv_m :: "machine \<Rightarrow> bool" where
  "inv_m m \<longleftrightarrow> inv_shape m \<and> inv_lock m \<and> inv_again m \<and> inv_lc (abs_lc m)"

lemmas index_defs =
  fetch_add_execution_def fetch_add_validation_def fetch_min_execution_def fetch_min_validation_def
  fetch_min_min_validation_def decide_min_validation_def count_validated_def scheduler_abort_def

lemmas status_defs =
  push_dependent_def block_on_def set_status_def set_ready_status_def drain_dependents_def
  settle_execution_def confirm_validation_def try_execute_def pick_validation_def
  try_validation_abort_def

lemmas branch_defs = after_val_def after_min_def after_load_val_def


lemma task_pc_simps [simp]:
  "lock_of (task_pc t) = None" "abort_of (task_pc t) = []"
  "exec_of (task_pc t) = exec_of (Ret (Some t))" "wf_pc (task_pc t)"
  "extra_indices (task_pc t) = extra_indices (Ret (Some t))"
  by (cases t; simp)+

lemma after_pick_simps [simp]:
  "lock_of (after_pick p) = None" "abort_of (after_pick p) = []" "wf_pc (after_pick p)"
  by (cases p; simp)+

lemma lock_of_branches [simp]:
  "lock_of (after_val s e) = None"
  "lock_of (after_min s v f mv) = Some (tx_idx v)" "lock_of (after_load_val s v f) = Some (tx_idx v)"
  by (simp_all add: branch_defs)

lemma exec_of_branches [simp]:
  "exec_of (after_val s e) = None" "exec_of (after_min s v f mv) = Some v"
  "exec_of (after_load_val s v f) = Some v"
  by (simp_all add: branch_defs)

lemma abort_of_branches [simp]:
  "abort_of (after_val s e) = []" "abort_of (after_min s v f mv) = []"
  "abort_of (after_load_val s v f) = []"
  by (simp_all add: branch_defs)

lemma wstep_frame: "wstep w m m' \<Longrightarrow> x \<noteq> w \<Longrightarrow> pcs m' x = pcs m x"
  by (cases rule: wstep.cases) auto

lemma inv_lockD: "inv_lock m \<Longrightarrow> locks m i = Some x \<longleftrightarrow> lock_of (pcs m x) = Some i"
  by (simp add: inv_lock_def)

lemma inv_lock_keep:
  assumes "inv_lock m" "\<And>x. x \<noteq> w \<Longrightarrow> pcs m' x = pcs m x"
    and "locks m' = locks m" "lock_of (pcs m' w) = lock_of (pcs m w)"
  shows "inv_lock m'"
  unfolding inv_lock_def using assms by (metis inv_lockD)

lemma inv_lock_acquire:
  assumes inv: "inv_lock m" and frame: "\<And>x. x \<noteq> w \<Longrightarrow> pcs m' x = pcs m x"
    and "lock_of (pcs m w) = None" "locks m i = None"
    and "locks m' = (locks m)(i := Some w)" "lock_of (pcs m' w) = Some i"
  shows "inv_lock m'"
  unfolding inv_lock_def
proof (intro allI)
  fix x j
  show "locks m' j = Some x \<longleftrightarrow> lock_of (pcs m' x) = Some j"
    using assms(3-) frame [of x] inv_lockD [OF inv, of j x] inv_lockD [OF inv, of j w]
    by (cases "x = w"; cases "j = i") auto
qed

lemma inv_lock_release:
  assumes inv: "inv_lock m" and frame: "\<And>x. x \<noteq> w \<Longrightarrow> pcs m' x = pcs m x"
    and "lock_of (pcs m w) = Some i"
    and "locks m' = (locks m)(i := None)" "lock_of (pcs m' w) = None"
  shows "inv_lock m'"
  unfolding inv_lock_def
proof (intro allI)
  fix x j
  show "locks m' j = Some x \<longleftrightarrow> lock_of (pcs m' x) = Some j"
    using assms(3-) frame [of x] inv_lockD [OF inv, of j x] inv_lockD [OF inv, of i w] 
       inv_lockD [OF inv, of j w]
    by (cases "x = w"; cases "j = i") auto
qed

lemma inv_lock_step:
  assumes step: "wstep w m m'" and inv: "inv_lock m"
  shows "inv_lock m'"
proof -
  note keep = inv_lock_keep [where w = w, OF inv wstep_frame [OF step]]
  note acquire = inv_lock_acquire [where w = w, OF inv wstep_frame [OF step]]
  note release = inv_lock_release [where w = w, OF inv wstep_frame [OF step]]
  from step show ?thesis
  proof cases
    case (ad_lock v b)
    then show ?thesis by (intro acquire [where i = "b"]) simp_all
  next
    case (fe_lock v f ds s')
    then show ?thesis by (intro acquire [where i = "tx_idx v"]) simp_all
  next
    case (ad_tx v b)
    then show ?thesis by (intro release [where i = "b"]) simp_all
  next
    case (fe_between_need v f)
    then show ?thesis by (intro release [where i = "tx_idx v"]) simp_all
  next
    case (fe_again v f)
    then show ?thesis by (intro release [where i = "tx_idx v"]) simp_all
  next
    case (fe_settle v f)
    then show ?thesis by (intro release [where i = "tx_idx v"]) simp_all
  qed (rule keep; simp split: option.splits)+
qed

text \<open>Steps that touch neither statuses, dependents nor locks leave the abstract state alone.\<close>

lemma abs_lc_keep:
  assumes "\<And>x. x \<noteq> w \<Longrightarrow> pcs m' x = pcs m x"
    and "transactions_status (sched m') = transactions_status (sched m)"
    and "transactions_dependents (sched m') = transactions_dependents (sched m)"
    and "locks m' = locks m"
    and "exec_of (pcs m' w) = exec_of (pcs m w)" and "abort_of (pcs m' w) = abort_of (pcs m w)"
  shows "abs_lc m' = abs_lc m"
proof -
  have "exec_of (pcs m' x) = exec_of (pcs m x)" "abort_of (pcs m' x) = abort_of (pcs m x)" for x
    using assms(1,5,6) by (cases "x = w"; simp)+
  then show ?thesis
    using assms(2-4) by (simp add: abs_lc_def)
qed

lemma inv_m_idle:
  "inv_lock m \<Longrightarrow> exec_of (pcs m w) = None \<Longrightarrow> abort_of (pcs m w) = [] \<Longrightarrow> lock_of (pcs m w) = None \<Longrightarrow>
   idle (abs_lc m) w"
  by (auto simp: idle_def inv_lock_def)

lemma lstep_eq: "lstep l l2 \<Longrightarrow> l2 = l' \<Longrightarrow> lstep l l'"
  by simp

lemma abs_lc_eq:
  assumes "\<And>x. x \<noteq> w \<Longrightarrow> pcs m' x = pcs m x"
    and "lc_status l = transactions_status (sched m')" "lc_deps l = transactions_dependents (sched m')"
    and "lc_run l = (lc_run (abs_lc m))(w := exec_of (pcs m' w))"
    and "lc_tok l = (lc_tok (abs_lc m))(w := abort_of (pcs m' w))" "lc_lock l = locks m'"
  shows "l = abs_lc m'"
  using assms by (intro lifecycle.equality) (auto simp: abs_lc_def fun_eq_iff)

text \<open>Claiming a ready transaction, as every one of the three call sites does it.\<close>

lemma sim_start:
  assumes "wstep w m m'" and "inv_m m" "i < size_of m" "status_of (sched m) i = ReadyToExecute"
    and "exec_of (pcs m w) = None" "abort_of (pcs m w) = []" "lock_of (pcs m w) = None"
    and "sched m' = set_status (sched m) i Executing" "locks m' = locks m"
    and "exec_of (pcs m' w) = Some (version_of (sched m) i)" "abort_of (pcs m' w) = []"
  shows "lstep (abs_lc m) (abs_lc m')"
proof (rule lstep_eq [OF lstep.start [of i "abs_lc m" w]])
  show "idle (abs_lc m) w"
    using assms by (simp add: inv_m_idle inv_m_def)
qed (use assms in \<open>auto simp: inv_m_def inv_shape_def move_def set_status_def fun_eq_iff
       intro!: abs_lc_eq [OF wstep_frame [OF assms(1)]]\<close>)


lemma exec_of_bound:
  assumes "inv_m m" "exec_of (pcs m w) = Some v"
  shows "tx_idx v < size_of m" "status_of (sched m) (tx_idx v) = Executing"
    and "transactions_status (sched m) ! tx_idx v = \<lparr>incarnation = tx_incarnation v, status = Executing\<rparr>"
  using assms inv_runD [of "abs_lc m" w v] by (auto simp: inv_m_def inv_lc_def inv_shape_def)

lemma abort_of_bound:
  assumes "inv_m m" "i \<in> set (abort_of (pcs m w))"
  shows "i < size_of m" "status_of (sched m) i = Aborting"
  using assms inv_tokD [of "abs_lc m" i "Inr w"] by (auto simp: inv_m_def inv_lc_def inv_shape_def)

lemma inv_shapeD:
  assumes "inv_shape m"
  shows "wf_pc (pcs m w)" "i \<in> set (extra_indices (pcs m w)) \<Longrightarrow> i < size_of m"
    and "length (transactions_status (sched m)) = size_of m" "min_validation_idx (sched m) \<le> size_of m"
  using assms by (auto simp: inv_shape_def)

text \<open>Every step of a worker is a step of the protocol, or invisible to it.\<close>

lemma wstep_sim:
  assumes step: "wstep w m m'" and inv: "inv_m m"
  shows "abs_lc m' = abs_lc m \<or> lstep (abs_lc m) (abs_lc m')"
proof -
  from inv have lk: "inv_lock m" and shape: "inv_shape m" and ag: "inv_again m"
    by (auto simp: inv_m_def)
  note keep = disjI1 [OF abs_lc_keep [where w = w, OF wstep_frame [OF step]]]
  note start = disjI2 [OF sim_start [OF step inv]]
  note eq = abs_lc_eq [where w = w, OF wstep_frame [OF step]]
  note idle = inv_m_idle [OF lk]
  note wf = inv_shapeD(1) [OF shape, of w]
  note ix = inv_shapeD(2) [OF shape, where w = w]
  note len = inv_shapeD(3) [OF shape]
  note run = exec_of_bound [OF inv, of w]
  note held = inv_lockD [OF lk]
  from step show ?thesis
  proof cases
    case (nt_lock_val i p s')
    with ix have i: "i < size_of m" by simp
    show ?thesis
    proof (cases "status_of (sched m) i = ReadyToExecute")
      case True
      then show ?thesis
        using nt_lock_val i by (intro start [of i]) (auto simp: pick_validation_def)
    next
      case False
      then show ?thesis
        using nt_lock_val by (intro keep) (auto simp: pick_validation_def split: incarnation_status.splits)
    qed
  next
    case (nt_lock_exec i r s')
    show ?thesis
    proof (cases r)
      case None
      then show ?thesis
        using nt_lock_exec by (intro keep) (auto simp: try_execute_def split: if_splits)
    next
      case (Some v)
      then show ?thesis
        using nt_lock_exec by (intro start [of i]) (auto simp: try_execute_def split: if_splits)
    qed
  next
    case (fv_try v r s')
    show ?thesis
    proof (cases r)
      case None
      then show ?thesis
        using fv_try by (intro keep) (auto simp: try_execute_def split: if_splits)
    next
      case (Some u)
      then show ?thesis
        using fv_try by (intro start [of "tx_idx v"]) (auto simp: try_execute_def split: if_splits)
    qed
  next
    case (ad_lock v b)
    with wf show ?thesis
      by (intro disjI2 lstep_eq [OF lstep.hold [of "abs_lc m" w v b] eq]) (auto simp: fun_eq_iff)
  next
    case (ad_tx v b)
    with wf held [of b w] show ?thesis
      by (intro disjI2 lstep_eq [OF lstep.block [of "abs_lc m" w v b] eq])
        (auto simp: fun_eq_iff status_defs move_def)
  next
    case (fe_lock v f ds s')
    then show ?thesis
      by (intro disjI2 lstep_eq [OF lstep.drain [of "abs_lc m" w v] eq])
        (auto simp: fun_eq_iff drain_dependents_def)
  next
    case (fe_resume v f d ds)
    then show ?thesis
      by (intro disjI2 lstep_eq [OF lstep.resume [of "abs_lc m" w d ds] eq])
        (auto simp: fun_eq_iff set_ready_status_def renew_def)
  next
    case (fv_ready v)
    then show ?thesis
      by (intro disjI2 lstep_eq [OF lstep.resume [of "abs_lc m" w "tx_idx v" "[]"] eq])
        (auto simp: fun_eq_iff set_ready_status_def renew_def)
  next
    case (fe_between_need v f)
    with held [of "tx_idx v" w] show ?thesis
      by (intro disjI2 lstep_eq [OF lstep.finish [of "abs_lc m" w v Executed "(locks m)(tx_idx v := None)"] eq])
        (auto simp: fun_eq_iff set_status_def move_def is_executed_def)
  next
    case (fe_between_lazy v f)
    with held [of "tx_idx v" w] show ?thesis
      by (intro disjI2 [OF lstep_eq [OF lstep.finish [of "abs_lc m" w v Validated "locks m"] eq]])
        (simp_all add: set_status_def move_def is_executed_def count_validated_def fun_upd_idem)
  next
    case (fe_settle v f)
    with held [of "tx_idx v" w] show ?thesis
      by (intro disjI2 lstep_eq [OF lstep.finish [of "abs_lc m" w v
            "if needs_validation f then Executed else Validated" "(locks m)(tx_idx v := None)"] eq])
        (auto simp: fun_eq_iff settle_execution_def set_status_def move_def is_executed_def count_validated_def)
  next
    case (fe_again v f)
    then have st: "status_of (sched m) (tx_idx v) = Validated" and nf: "\<not> needs_validation f"
      using ag wf by (auto simp: inv_again_def)
    have "(transactions_status (sched m) ! tx_idx v)\<lparr>status := Validated\<rparr> =
        transactions_status (sched m) ! tx_idx v"
      unfolding st [symmetric] by simp
    then have "transactions_status (settle_execution (sched m) (tx_idx v) f) = transactions_status (sched m)"
      using nf by (simp add: settle_execution_def set_status_def count_validated_def)
    with fe_again held [of "tx_idx v" w] show ?thesis
      by (intro disjI2 lstep_eq [OF lstep.unlock [of "abs_lc m" "tx_idx v" w] eq])
        (auto simp: fun_eq_iff settle_execution_def set_status_def count_validated_def)
  next
    case (va_abort v ab s')
    show ?thesis
    proof (cases "is_executed (status_of (sched m) (tx_idx v))")
      case True
      with va_abort ix len show ?thesis
        by (intro disjI2 lstep_eq [OF lstep.abort [of "tx_idx v" "abs_lc m" w] eq])
          (auto simp: fun_eq_iff try_validation_abort_def Let_def set_status_def move_def idle)
    next
      case False
      with va_abort show ?thesis
        by (intro keep) (auto simp: try_validation_abort_def Let_def is_executed_def)
    qed
  next
    case (fv_done v)
    show ?thesis
    proof (cases "status_of (sched m) (tx_idx v) = Executed")
      case True
      with fv_done ix len show ?thesis
        by (intro disjI2 lstep_eq [OF lstep.confirm [of "tx_idx v" "abs_lc m"] eq])
          (auto simp: fun_eq_iff confirm_validation_def set_status_def move_def count_validated_def)
    next
      case False
      with fv_done show ?thesis
        by (intro keep) (auto simp: confirm_validation_def)
    qed
  next
    case (ex_fatal v)
    then show ?thesis
      by (intro disjI2 lstep_eq [OF lstep.drop [of "abs_lc m" w] eq])
        (auto simp: fun_eq_iff scheduler_abort_def)
  next
    case (ex_retry v)
    show ?thesis
    proof (cases "reason m")
      case True
      with ex_retry show ?thesis
        by (intro disjI2 lstep_eq [OF lstep.drop [of "abs_lc m" w] eq]) (auto simp: fun_eq_iff)
    next
      case False
      with ex_retry show ?thesis by (intro keep) auto
    qed
  next
    case (ret_stop t)
    then show ?thesis
      by (intro disjI2 lstep_eq [OF lstep.drop [of "abs_lc m" w] eq]) (auto simp: fun_eq_iff)
  next
    case (fe_min v f mv s')
    then show ?thesis
      by (intro keep) (auto simp: index_defs split: if_splits)
  qed (intro keep; auto simp: index_defs split: option.splits)+
qed


section \<open>The invariant is kept\<close>

lemma wstep_size:
  assumes "wstep w m m'"
  shows "size_of m' = size_of m"
    and "length (transactions_status (sched m')) = length (transactions_status (sched m))"
  using assms
  by (cases rule: wstep.cases;
      auto simp: index_defs status_defs Let_def split: if_splits incarnation_status.splits)+

lemma wstep_min:
  assumes "wstep w m m'"
  shows "min_validation_idx (sched m') \<le> min_validation_idx (sched m)"
  using assms
  by (cases rule: wstep.cases)
    (auto simp: index_defs status_defs Let_def split: if_splits incarnation_status.splits)

text \<open>A status whose mutex another worker holds does not change.\<close>

lemma wstep_locked:
  assumes step: "wstep w m m'" and lk: "inv_lock m" and i: "locks m i = Some x" "x \<noteq> w"
  shows "transactions_status (sched m') ! i = transactions_status (sched m) ! i"
proof -
  have neq: "i \<noteq> j" if "locks m j = None \<or> lock_of (pcs m w) = Some j" for j
    using that i inv_lockD [OF lk, of j w] by auto
  have free: "xs[j := y] ! i = xs ! i" if "locks m j = None" for j y and xs :: "tx_status list"
    using neq [of j] that by simp
  have own: "xs[j := y] ! i = xs ! i" if "lock_of (pcs m w) = Some j" for j y and xs :: "tx_status list"
    using neq [of j] that by simp
  from step show ?thesis
    by (cases rule: wstep.cases)
      (auto simp: free own index_defs status_defs Let_def split: if_splits incarnation_status.splits)
qed

lemma inv_again_step:
  assumes step: "wstep w m m'" and inv: "inv_m m"
  shows "inv_again m'"
  unfolding inv_again_def
proof (intro allI impI)
  fix x v f
  assume x: "pcs m' x = FE_again v f"
  from inv have lk: "inv_lock m" and ag: "inv_again m"
    by (auto simp: inv_m_def)
  show "status_of (sched m') (tx_idx v) = Validated"
  proof (cases "x = w")
    case False
    with x wstep_frame [OF step] have "pcs m x = FE_again v f" by simp
    with inv_lockD [OF lk, of "tx_idx v" x] False ag wstep_locked [OF step lk, of "tx_idx v" x]
    show ?thesis by (auto simp: inv_again_def)
  next
    case True
    have "pcs m w = FE_between v f \<and> sched m' = count_validated (set_status (sched m) (tx_idx v) Validated)"
      using step x True
      by (cases rule: wstep.cases)
        (auto simp: branch_defs split: if_splits option.splits dest!: arg_cong [of _ _ lock_of])
    with exec_of_bound [OF inv, of w v] inv show ?thesis
      by (auto simp: count_validated_def set_status_def inv_m_def inv_shape_def)
  qed
qed

lemma inv_shape_step:
  assumes step: "wstep w m m'" and inv: "inv_m m"
  shows "inv_shape m'"
proof -
  from inv have shape: "inv_shape m" by (simp add: inv_m_def)
  note ix = inv_shapeD(2) [OF shape, where w = w]
  have pc: "wf_pc (pcs m' w) \<and> (\<forall>i \<in> set (extra_indices (pcs m' w)). i < size_of m)"
    using step
  proof cases
    case (nt_lock_val i p s')
    with ix show ?thesis
      by (auto simp: pick_validation_def split: incarnation_status.splits)
  next
    case (nt_lock_exec i r s')
    then show ?thesis
      by (auto simp: try_execute_def split: if_splits)
  next
    case (fe_lock v f ds s')
    have "tx_idx v < i \<and> i < size_of m" if "i \<in> set (transactions_dependents (sched m) ! tx_idx v)" for i
      using that inv inv_tokD [of "abs_lc m" i "Inl (tx_idx v)"] exec_of_bound [OF inv, of w v] fe_lock
        inv_tok_distinctD(3) [of "abs_lc m"] inv_waitD(1) [of "abs_lc m" "tx_idx v" i]
      by (auto simp: inv_m_def inv_lc_def inv_shape_def)
    with fe_lock show ?thesis
      by (auto simp: drain_dependents_def)
  next
    case (ad_lock v b)
    with ix inv_shapeD(1) [OF shape, of w] show ?thesis by auto
  next
    case (fv_try v r s')
    then show ?thesis by (cases r) auto
  next
    case (ex_blocking v b)
    with exec_of_bound(1) [OF inv, of w v] show ?thesis by auto
  next
    case (fe_between_need v f)
    with exec_of_bound(1) [OF inv, of w v] show ?thesis by auto
  next
    case (fe_between_lazy v f)
    with exec_of_bound(1) [OF inv, of w v] show ?thesis by auto
  qed (use ix inv_shapeD(1) [OF shape, of w] in \<open>auto simp: branch_defs split: option.splits if_splits\<close>)
  have "wf_pc (pcs m' x) \<and> (\<forall>i \<in> set (extra_indices (pcs m' x)). i < size_of m)" for x
    using pc inv_shapeD(1,2) [OF shape, where w = x] wstep_frame [OF step, of x] by (cases "x = w") auto
  with shape wstep_min [OF step] show ?thesis
    by (auto simp: inv_shape_def wstep_size [OF step])
qed

lemma inv_m_step: "inv_m m \<Longrightarrow> mstep m m' \<Longrightarrow> inv_m m'"
  unfolding mstep_def
  using inv_shape_step inv_lock_step inv_again_step wstep_sim inv_lc_step
  by (metis inv_m_def)

lemma inv_m_init: "init_machine n workers m \<Longrightarrow> inv_m m"
proof -
  assume init: "init_machine n workers m"
  have "init_lc (abs_lc m)"
    using init by (auto simp: init_lc_def idle_def init_machine_def new_scheduler_def)
  then have "inv_lc (abs_lc m)" by (rule inv_lc_init)
  with init show ?thesis
    by (auto simp: inv_m_def inv_shape_def inv_lock_def inv_again_def init_machine_def new_scheduler_def)
qed

interpretation workers: invariant_system "init_machine n k" mstep inv_m for n k
  by unfold_locales (auto intro: inv_m_init inv_m_step)

end
