(* ===== verification/Worker_Completion.thy ===== *)
theory Worker_Completion
  imports Worker_Protocol
begin

text \<open>
  What holds of a whole parallel run: no transaction is left behind (every ready transaction is
  ahead of the execution index or about to be looked at, every executing or aborted one has an
  owner), every executed transaction has stored its result, the validation counter never
  underflows, a lock is only ever awaited by workers that hold lower locks, and the status of a
  transaction only moves along the diagram of \<^verbatim>\<open>lib.rs\<close>.
\<close>

section \<open>Nothing is left behind\<close>

text \<open>Ready transactions are either still ahead of the execution index or a worker is about to look.\<close>

fun looks_at :: "pc \<Rightarrow> tx_idx \<Rightarrow> bool" where
  "looks_at (NT_lock_exec j) i = (i = j)"
| "looks_at (FE_fetch v f d ds) i = (i = d)"
| "looks_at (FV_fetch v) i = (i = tx_idx v)"
| "looks_at (FV_exec v) i = (i = tx_idx v)"
| "looks_at (FV_try v) i = (i = tx_idx v)"
| "looks_at _ i = False"

definition inv_ready :: "machine \<Rightarrow> bool" where
  "inv_ready m \<longleftrightarrow> (\<forall>i < size_of m. status_of (sched m) i = ReadyToExecute \<longrightarrow>
     execution_idx (sched m) \<le> i \<or> (\<exists>w. looks_at (pcs m w) i))"

text \<open>A worker that will load the execution index again before it may exit.\<close>

fun live :: "nat \<Rightarrow> pc \<Rightarrow> bool" where
  "live n Exited = False"
| "live n (NT_val e) = (e < n)"
| "live n NT_num = False"
| "live n (NT_min nv) = False"
| "live n _ = True"

definition inv_live :: "machine \<Rightarrow> bool" where
  "inv_live m \<longleftrightarrow> aborted (sched m) \<or> size_of m \<le> execution_idx (sched m) \<or>
     (\<exists>w. live (size_of m) (pcs m w))"

definition inv_reason :: "machine \<Rightarrow> bool" where
  "inv_reason m \<longleftrightarrow> (reason m \<longrightarrow> aborted (sched m)) \<and> (\<forall>w. pcs m w = RUN_reason \<longrightarrow> aborted (sched m)) \<and>
     (aborted (sched m) \<longrightarrow> reason m \<or> (\<exists>w. pcs m w = RUN_reason))"

fun has_result :: "pc \<Rightarrow> bool" where
  "has_result (FE_lock v f) = True"
| "has_result (FE_resume v f ds) = True"
| "has_result (FE_fetch v f d ds) = True"
| "has_result (FE_min v f) = True"
| "has_result (FE_val_min v f mv) = True"
| "has_result (FE_val v f) = True"
| "has_result (FE_val_next v f) = True"
| "has_result (FE_between v f) = True"
| "has_result (FE_settle v f) = True"
| "has_result _ = False"

definition inv_slots :: "machine \<Rightarrow> bool" where
  "inv_slots m \<longleftrightarrow>
     (\<forall>i < size_of m. is_executed (status_of (sched m) i) \<longrightarrow> slots m i) \<and>
     (\<forall>w v. has_result (pcs m w) \<longrightarrow> exec_of (pcs m w) = Some v \<longrightarrow> slots m (tx_idx v))"

lemma task_pc_neq [simp]: "task_pc t \<noteq> RUN_reason" "task_pc t \<noteq> Exited" "live n (task_pc t)" "\<not> looks_at (task_pc t) i"
  "\<not> has_result (task_pc t)"
  by (cases t; simp)+

lemma wstep_aborted:
  assumes "wstep w m m'"
  shows "aborted (sched m') \<longleftrightarrow> aborted (sched m) \<or> (\<exists>v. pcs m w = RUN v \<and> pcs m' w = RUN_reason)"
    and "reason m' \<longleftrightarrow> reason m \<or> pcs m w = RUN_reason"
    and "pcs m' w = RUN_reason \<Longrightarrow> \<exists>v. pcs m w = RUN v"
  using assms
  by (cases; auto simp: index_defs status_defs branch_defs Let_def
        split: if_splits option.splits incarnation_status.splits validation_pick.splits)+

lemma inv_reason_step:
  assumes step: "wstep w m m'" and inv: "inv_reason m"
  shows "inv_reason m'"
proof -
  note ab = wstep_aborted [OF step] and frame = wstep_frame [OF step]
  have "aborted (sched m')" if "reason m' \<or> pcs m' x = RUN_reason" for x
    using that ab frame [of x] inv by (cases "x = w") (auto simp: inv_reason_def)
  moreover have "reason m' \<or> (\<exists>x. pcs m' x = RUN_reason)" if "aborted (sched m')"
    using that inv ab frame unfolding inv_reason_def by metis
  ultimately show ?thesis
    unfolding inv_reason_def by blast
qed

lemma inv_ready_step:
  assumes step: "wstep w m m'" and inv: "inv_m m" and rd: "inv_ready m"
  shows "inv_ready m'"
  unfolding inv_ready_def
proof (intro allI impI)
  fix i
  assume i: "i < size_of m'" and st: "status_of (sched m') i = ReadyToExecute"
  have i': "i < length (transactions_status (sched m))" "i < size_of m"
    using i inv wstep_size [OF step] by (auto simp: inv_m_def inv_shape_def)
  note sp = index_defs status_defs Let_def nth_upd [OF i'(1)]
  have "status_of (sched m) i = ReadyToExecute \<or> looks_at (pcs m' w) i"
    using step st by cases (auto simp: sp split: if_splits incarnation_status.splits)
  moreover have "execution_idx (sched m') \<le> i \<or> looks_at (pcs m' w) i"
    if "execution_idx (sched m) \<le> i"
    using step that by cases (auto simp: sp split: if_splits incarnation_status.splits)
  moreover have "execution_idx (sched m') \<le> i \<or> looks_at (pcs m' w) i"
    if "looks_at (pcs m w) i" "status_of (sched m) i = ReadyToExecute"
    using step that st i' by cases (auto simp: sp split: if_splits incarnation_status.splits)
  ultimately show "execution_idx (sched m') \<le> i \<or> (\<exists>x. looks_at (pcs m' x) i)"
    using rd i' wstep_frame [OF step] unfolding inv_ready_def by metis
qed

lemma inv_live_step:
  assumes step: "wstep w m m'" and rs: "inv_reason m" and lv: "inv_live m"
  shows "inv_live m'"
proof (rule ccontr)
  assume "\<not> inv_live m'"
  then have ab: "\<not> aborted (sched m')" and ex: "execution_idx (sched m') < size_of m"
    and no: "\<And>x. \<not> live (size_of m) (pcs m' x)"
    by (auto simp: inv_live_def wstep_size [OF step])
  have ab': "\<not> aborted (sched m)" "\<not> reason m"
    using ab wstep_aborted(1) [OF step] rs by (auto simp: inv_reason_def)
  note sp = index_defs status_defs branch_defs Let_def
  note spl = if_splits incarnation_status.splits option.splits
  have "execution_idx (sched m) < size_of m"
    using step ex no [of w] by cases (auto simp: sp split: spl)
  then obtain x where x: "live (size_of m) (pcs m x)"
    using lv ab' by (auto simp: inv_live_def)
  with no [of x] wstep_frame [OF step, of x] have "x = w" by metis
  with x have lw: "live (size_of m) (pcs m w)" by simp
  have "live (size_of m) (pcs m' w)"
    using step lw ab' ex
    by cases (auto simp: sp split: spl validation_pick.splits)
  with no show False by blast
qed

text \<open>Where an executed status and a worker with a result come from.\<close>

lemma executed_origin:
  assumes step: "wstep w m m'" and inv: "inv_m m" and i: "i < size_of m'" "is_executed (status_of (sched m') i)"
  shows "is_executed (status_of (sched m) i) \<or> (\<exists>v. has_result (pcs m w) \<and> exec_of (pcs m w) = Some v \<and> tx_idx v = i)"
proof -
  note sp = index_defs status_defs branch_defs Let_def
  note spl = if_splits incarnation_status.splits option.splits validation_pick.splits
  have i': "i < length (transactions_status (sched m))"
    using i(1) inv wstep_size [OF step] by (auto simp: inv_m_def inv_shape_def)
  have "is_executed (status_of (sched m) i) \<or>
      (\<exists>v. has_result (pcs m w) \<and> exec_of (pcs m w) = Some v \<and> tx_idx v = i) \<or>
      (\<exists>v f. pcs m w = FE_again v f \<and> tx_idx v = i)"
    using step i(2) by cases (auto simp: sp nth_upd [OF i'] is_executed_def split: spl)
  moreover have "is_executed (status_of (sched m) (tx_idx v))" if "pcs m w = FE_again v f" for v f
    using inv that by (auto simp: inv_m_def inv_again_def is_executed_def)
  ultimately show ?thesis by blast
qed

lemma result_origin:
  assumes step: "wstep w m m'" and r: "has_result (pcs m' x)" "exec_of (pcs m' x) = Some v"
  shows "has_result (pcs m x) \<and> exec_of (pcs m x) = Some v \<or>
    x = w \<and> pcs m w = RUN v \<and> (\<exists>f. m' = goto (m\<lparr>slots := (slots m)(tx_idx v := True)\<rparr>) w (FE_lock v f))"
proof (cases "x = w")
  case False
  with r wstep_frame [OF step, of x] show ?thesis by auto
next
  case True
  show ?thesis
    using step r [unfolded True] unfolding True
    by cases (auto simp: index_defs status_defs branch_defs Let_def
        split: if_splits incarnation_status.splits option.splits validation_pick.splits)
qed

lemma inv_slots_step:
  assumes step: "wstep w m m'" and inv: "inv_m m" and sl: "inv_slots m"
  shows "inv_slots m'"
proof -
  have mono: "slots m i \<Longrightarrow> slots m' i" for i
    using step by cases auto
  have "slots m' i" if "i < size_of m'" "is_executed (status_of (sched m') i)" for i
    using executed_origin [OF step inv that] sl that mono unfolding inv_slots_def wstep_size [OF step] by blast
  moreover have "slots m' (tx_idx v)" if r: "has_result (pcs m' x)" "exec_of (pcs m' x) = Some v" for x v
    using result_origin [OF step r] sl mono by (auto simp: inv_slots_def)
  ultimately show ?thesis
    unfolding inv_slots_def by blast
qed


section \<open>Owners\<close>

definition lc_owner :: "lifecycle \<Rightarrow> bool" where
  "lc_owner l \<longleftrightarrow> (\<forall>i < length (lc_status l).
     (lc_st l i = Executing \<longrightarrow> (\<exists>w v. lc_run l w = Some v \<and> tx_idx v = i)) \<and>
     (lc_st l i = Aborting \<longrightarrow> (\<exists>h. holder l i h)))"

lemma holder_simps [simp]:
  "holder (move l i st) j h \<longleftrightarrow> holder l j h" "holder (l\<lparr>lc_run := r\<rparr>) j h \<longleftrightarrow> holder l j h"
  "holder (l\<lparr>lc_lock := lk\<rparr>) j h \<longleftrightarrow> holder l j h"
  by (cases h; simp add: move_def)+

lemma lc_ownerI:
  assumes "\<And>i. i < length (lc_status l) \<Longrightarrow> lc_st l i = Executing \<Longrightarrow> \<exists>w v. lc_run l w = Some v \<and> tx_idx v = i"
    and "\<And>i. i < length (lc_status l) \<Longrightarrow> lc_st l i = Aborting \<Longrightarrow> \<exists>h. holder l i h"
  shows "lc_owner l"
  using assms by (auto simp: lc_owner_def)

lemma lc_ownerD:
  assumes "lc_owner l" "i < length (lc_status l)"
  shows "lc_st l i = Executing \<Longrightarrow> \<exists>w v. lc_run l w = Some v \<and> tx_idx v = i"
    and "lc_st l i = Aborting \<Longrightarrow> \<exists>h. holder l i h"
  using assms by (auto simp: lc_owner_def)

text \<open>Only a worker that abandons its transaction leaves a transaction without an owner.\<close>

lemma lc_owner_step:
  assumes step: "lstep l l'" and inv: "inv_lc l" and own: "lc_owner l"
  shows "lc_owner l' \<or>
    (\<exists>w. lc_run l w \<noteq> None \<and> lc_run l' w = None \<and> lc_status l' = lc_status l)"
proof -
  from inv have tok: "inv_tok l" and run: "inv_run l" and wait: "inv_wait l"
    by (auto simp: inv_lc_def)
  note len = inv_tok_distinctD(3) [OF tok]
  note ex = lc_ownerD(1) [OF own] and ab = lc_ownerD(2) [OF own]
  from step show ?thesis
  proof cases
    case (start i w)
    have "lc_owner l'"
    proof (rule lc_ownerI)
      fix j assume j: "j < length (lc_status l')" and st: "lc_st l' j = Executing"
      show "\<exists>w v. lc_run l' w = Some v \<and> tx_idx v = j"
      proof (cases "j = i")
        case True
        then show ?thesis using start by auto
      next
        case False
        with start st j have "j < length (lc_status l)" "lc_st l j = Executing"
          by (auto simp: nth_move)
        then obtain x u where "lc_run l x = Some u" "tx_idx u = j" using ex by blast
        moreover from this start have "x \<noteq> w" by (auto simp: idle_def)
        ultimately show ?thesis using start by auto
      qed
    next
      fix j assume j: "j < length (lc_status l')" and "lc_st l' j = Aborting"
      then show "\<exists>h. holder l' j h"
        using start ab [of j] by (auto simp: nth_move split: if_splits)
    qed
    then show ?thesis ..
  next
    case (block w v b)
    then have v: "tx_idx v < length (lc_status l)" and b: "b < length (lc_deps l)"
      using inv_runD [OF run, of w v] inv_waitD(4) [OF wait, of w v b] len by auto
    have h: "holder l' j h \<longleftrightarrow> holder l j h \<or> j = tx_idx v \<and> h = Inl b" for j h
      using block by (intro holder_block [OF b]) auto
    have "lc_owner l'"
    proof (rule lc_ownerI)
      fix j assume j: "j < length (lc_status l')" and st: "lc_st l' j = Executing"
      with block v have ne: "j \<noteq> tx_idx v" and "lc_st l j = Executing" by (auto simp: nth_move split: if_splits)
      with ex [of j] j block obtain x u where "lc_run l x = Some u" "tx_idx u = j" by auto
      moreover from this ne block have "x \<noteq> w" by auto
      ultimately show "\<exists>w v. lc_run l' w = Some v \<and> tx_idx v = j"
        using block by auto
    next
      fix j assume j: "j < length (lc_status l')" and "lc_st l' j = Aborting"
      then show "\<exists>h. holder l' j h"
        using block v ab [of j] unfolding h by (cases "j = tx_idx v") (auto simp: nth_move)
    qed
    then show ?thesis ..
  next
    case (drain w v)
    then have v: "tx_idx v < length (lc_deps l)"
      using inv_runD [OF run] len by auto
    have h: "holder l' j h \<longleftrightarrow> holder l j h \<and> h \<noteq> Inl (tx_idx v) \<or> holder l j (Inl (tx_idx v)) \<and> h = Inr w" for j h
      using drain by (intro holder_drain [OF v]) auto
    have "lc_owner l'"
    proof (rule lc_ownerI)
      fix j assume j: "j < length (lc_status l')" and "lc_st l' j = Executing"
      with drain ex [of j] show "\<exists>w v. lc_run l' w = Some v \<and> tx_idx v = j" by simp
    next
      fix j assume j: "j < length (lc_status l')" and "lc_st l' j = Aborting"
      with drain ab [of j] obtain h0 where "holder l j h0" by auto
      then show "\<exists>h. holder l' j h" unfolding h by (cases "h0 = Inl (tx_idx v)") blast+
    qed
    then show ?thesis ..
  next
    case (resume w d ds)
    have d: "d < length (lc_status l)" using inv_tokD [OF tok, of d "Inr w"] resume by simp
    have "d \<notin> set ds" using inv_tok_distinctD(2) [OF tok, of w] resume by simp
    then have h: "holder l' j h \<longleftrightarrow> holder l j h \<and> \<not> (j = d \<and> h = Inr w)" for j h
      using resume by (intro holder_resume) auto
    have "lc_owner l'"
    proof (rule lc_ownerI)
      fix j assume j: "j < length (lc_status l')" and "lc_st l' j = Executing"
      with resume d ex [of j] show "\<exists>w v. lc_run l' w = Some v \<and> tx_idx v = j"
        by (auto simp: nth_renew split: if_splits)
    next
      fix j assume j: "j < length (lc_status l')" and "lc_st l' j = Aborting"
      with resume d ab [of j] show "\<exists>h. holder l' j h"
        unfolding h by (auto simp: nth_renew split: if_splits)
    qed
    then show ?thesis ..
  next
    case (finish w v st lk)
    then have v: "tx_idx v < length (lc_status l)"
      using inv_runD [OF run] by auto
    have "lc_owner l'"
    proof (rule lc_ownerI)
      fix j assume j: "j < length (lc_status l')" and st: "lc_st l' j = Executing"
      with finish v have ne: "j \<noteq> tx_idx v" and "lc_st l j = Executing"
        by (auto simp: nth_move is_executed_def split: if_splits)
      with ex [of j] j finish obtain x u where "lc_run l x = Some u" "tx_idx u = j" by auto
      moreover from this ne finish have "x \<noteq> w" by auto
      ultimately show "\<exists>w v. lc_run l' w = Some v \<and> tx_idx v = j"
        using finish by auto
    next
      fix j assume j: "j < length (lc_status l')" and "lc_st l' j = Aborting"
      then show "\<exists>h. holder l' j h"
        using finish v ab [of j] by (auto simp: nth_move is_executed_def split: if_splits)
    qed
    then show ?thesis ..
  next
    case (confirm i)
    have "lc_owner l'"
      using confirm ex ab by (intro lc_ownerI) (auto simp: nth_move split: if_splits)
    then show ?thesis ..
  next
    case (abort i w)
    have h: "holder l' j h \<longleftrightarrow> holder l j h \<or> j = i \<and> h = Inr w" for j h
      using abort by (intro holder_abort) (auto simp: idle_def)
    have "lc_owner l'"
    proof (rule lc_ownerI)
      fix j assume j: "j < length (lc_status l')" and "lc_st l' j = Executing"
      with abort ex [of j] show "\<exists>w v. lc_run l' w = Some v \<and> tx_idx v = j"
        by (auto simp: nth_move split: if_splits)
    next
      fix j assume j: "j < length (lc_status l')" and "lc_st l' j = Aborting"
      with abort ab [of j] show "\<exists>h. holder l' j h"
        unfolding h by (auto simp: nth_move split: if_splits)
    qed
    then show ?thesis ..
  next
    case (drop w)
    show ?thesis
    proof (cases "lc_run l w")
      case None
      then have "l' = l" using drop by (auto simp: fun_upd_idem)
      with own show ?thesis by simp
    next
      case (Some v)
      with drop show ?thesis by (intro disjI2 exI [of _ w]) simp
    qed
  next
    case (hold w v b)
    have "lc_owner l'"
      using hold ex ab by (intro lc_ownerI) auto
    then show ?thesis ..
  next
    case (unlock i w)
    have "lc_owner l'"
      using unlock ex ab by (intro lc_ownerI) auto
    then show ?thesis ..
  qed
qed

lemma wstep_drop:
  assumes step: "wstep w m m'" and inv: "inv_m m" and rs: "inv_reason m"
    and "exec_of (pcs m x) \<noteq> None" "exec_of (pcs m' x) = None"
    and "transactions_status (sched m') = transactions_status (sched m)"
  shows "aborted (sched m')"
proof -
  from assms(4,5) wstep_frame [OF step, of x] have x: "x = w" by metis
  then obtain v where v: "exec_of (pcs m w) = Some v" using assms(4) by auto
  note b = exec_of_bound [OF inv v] 
  have len: "tx_idx v < length (transactions_status (sched m))"
    using b inv by (simp add: inv_m_def inv_shape_def)
  have st: "status_of (sched m') (tx_idx v) = Executing"
    using b assms(6) by simp
  have "pcs m' w = RUN_reason \<or> reason m"
    using step st assms(5) [unfolded x] v len
    by cases (auto simp: index_defs status_defs split: if_splits option.splits)
  then show ?thesis
    using wstep_aborted [OF step] rs unfolding inv_reason_def by metis
qed


text \<open>Unless the block is being abandoned, every busy or aborted transaction has a holder.\<close>

definition inv_owner :: "machine \<Rightarrow> bool" where
  "inv_owner m \<longleftrightarrow> aborted (sched m) \<or> lc_owner (abs_lc m)"

lemma inv_owner_step:
  assumes step: "wstep w m m'" and inv: "inv_m m" and rs: "inv_reason m" and own: "inv_owner m"
  shows "inv_owner m'"
proof (cases "aborted (sched m)")
  case True
  then show ?thesis using wstep_aborted(1) [OF step] by (simp add: inv_owner_def)
next
  case False
  with own have own': "lc_owner (abs_lc m)" by (simp add: inv_owner_def)
  from inv have lc: "inv_lc (abs_lc m)" by (simp add: inv_m_def)
  from wstep_sim [OF step inv] show ?thesis
  proof
    assume "abs_lc m' = abs_lc m"
    with own' show ?thesis by (simp add: inv_owner_def)
  next
    assume "lstep (abs_lc m) (abs_lc m')"
    from lc_owner_step [OF this lc own'] wstep_drop [OF step inv rs] show ?thesis
      by (auto simp: inv_owner_def)
  qed
qed

section \<open>Counting validated transactions\<close>

definition validated_total :: "scheduler \<Rightarrow> nat" where
  "validated_total s = count_list (map status (transactions_status s)) Validated"

definition inv_count :: "machine \<Rightarrow> bool" where
  "inv_count m \<longleftrightarrow> validated_total (sched m) \<le> num_validated (sched m)"

lemma validated_total_upd:
  assumes "i < length (transactions_status s)"
  shows "count_list (map status ((transactions_status s)[i := x])) Validated +
      (if status_of s i = Validated then 1 else 0) =
    validated_total s + (if status x = Validated then 1 else 0)"
  using count_list_upd [of i "map status (transactions_status s)" "status x" Validated] assms
  by (simp add: validated_total_def map_update)

lemma validated_total_pos:
  "i < length (transactions_status s) \<Longrightarrow> status_of s i = Validated \<Longrightarrow> 0 < validated_total s"
  using validated_total_upd [of i s "\<lparr>incarnation = 0, status = Executed\<rparr>"] by simp

lemma inv_count_step:
  assumes step: "wstep w m m'" and inv: "inv_m m" and cnt: "inv_count m"
  shows "inv_count m'"
proof -
  have same: "inv_count m'" if "transactions_status (sched m') = transactions_status (sched m)"
     "num_validated (sched m) \<le> num_validated (sched m')"
    using that cnt by (simp add: inv_count_def validated_total_def)
  from inv have len: "length (transactions_status (sched m)) = size_of m" by (simp add: inv_m_def inv_shape_def)
  have upd: "inv_count m'" if "transactions_status (sched m') = (transactions_status (sched m))[i := x]"
     "i < size_of m"
     "num_validated (sched m) + (if status x = Validated then 1 else 0) \<le>
      num_validated (sched m') + (if status_of (sched m) i = Validated then 1 else 0)" for i x
    using that cnt validated_total_upd [of i "sched m" x] len
    by (simp add: inv_count_def validated_total_def split: if_splits)
  note run = exec_of_bound(1) [OF inv, where w = w] and ix = inv_shapeD(2) [where w = w and m = m]
  have shape: "inv_shape m" and ag: "inv_again m" using inv by (auto simp: inv_m_def)
  note defs = status_defs index_defs Let_def
  from step show ?thesis
  proof cases
    case (nt_lock_val i p s')
    then have i: "i < size_of m" using inv_shapeD(2) [OF shape, of i w] by simp
    show ?thesis
    proof (cases "status_of (sched m) i = ReadyToExecute")
      case True
      with nt_lock_val i show ?thesis
        by (intro upd [of i]) (auto simp: pick_validation_def set_status_def)
    next
      case False
      with nt_lock_val show ?thesis
        by (intro same) (auto simp: pick_validation_def split: incarnation_status.splits)
    qed
  next
    case (nt_lock_exec i r s')
    show ?thesis
    proof (cases r)
      case None
      with nt_lock_exec show ?thesis
        by (intro same) (auto simp: try_execute_def split: if_splits)
    next
      case (Some v)
      with nt_lock_exec show ?thesis
        by (intro upd [of i]) (auto simp: try_execute_def set_status_def split: if_splits)
    qed
  next
    case (ad_tx v b)
    with exec_of_bound [OF inv, of w v] show ?thesis
      by (intro upd [of "tx_idx v"]) (auto simp: block_on_def push_dependent_def set_status_def)
  next
    case (fe_resume v f d ds)
    with abort_of_bound [OF inv, of d w] show ?thesis
      by (intro upd [of d]) (auto simp: set_ready_status_def)
  next
    case (fe_between_need v f)
    with exec_of_bound [OF inv, of w v] show ?thesis
      by (intro upd [of "tx_idx v"]) (auto simp: set_status_def)
  next
    case (fe_between_lazy v f)
    with exec_of_bound [OF inv, of w v] show ?thesis
      by (intro upd [of "tx_idx v"]) (auto simp: set_status_def count_validated_def)
  next
    case (fe_again v f)
    with inv_shapeD(1,2) [OF shape, where w = w] ag show ?thesis
      by (intro upd [of "tx_idx v"]) (auto simp: settle_execution_def set_status_def count_validated_def inv_again_def)
  next
    case (fe_settle v f)
    with exec_of_bound [OF inv, of w v] show ?thesis
      by (cases "needs_validation f"; intro upd [of "tx_idx v"])
        (auto simp: settle_execution_def set_status_def count_validated_def)
  next
    case (va_abort v ab s')
    have i: "tx_idx v < size_of m" using inv_shapeD(2) [OF shape, of "tx_idx v" w] va_abort by simp
    with cnt len validated_total_pos [of "tx_idx v" "sched m"]
    have pos: "status_of (sched m) (tx_idx v) = Validated \<Longrightarrow> 0 < num_validated (sched m)"
      by (simp add: inv_count_def)
    show ?thesis
    proof (cases "is_executed (status_of (sched m) (tx_idx v))")
      case True
      with va_abort i pos show ?thesis
        by (intro upd [of "tx_idx v"])
          (auto simp: try_validation_abort_def Let_def set_status_def split: if_splits)
    next
      case False
      with va_abort show ?thesis
        by (intro same) (auto simp: try_validation_abort_def Let_def is_executed_def)
    qed
  next
    case (fv_ready v)
    with abort_of_bound [OF inv, of "tx_idx v" w] show ?thesis
      by (intro upd [of "tx_idx v"]) (auto simp: set_ready_status_def)
  next
    case (fv_try v r s')
    show ?thesis
    proof (cases r)
      case None
      with fv_try show ?thesis
        by (intro same) (auto simp: try_execute_def split: if_splits)
    next
      case (Some u)
      with fv_try show ?thesis
        by (intro upd [of "tx_idx v"]) (auto simp: try_execute_def set_status_def split: if_splits)
    qed
  next
    case (fv_done v)
    then have i: "tx_idx v < size_of m" using inv_shapeD(2) [OF shape, of "tx_idx v" w] by simp
    show ?thesis
    proof (cases "status_of (sched m) (tx_idx v) = Executed")
      case True
      with fv_done i show ?thesis
        by (intro upd [of "tx_idx v"])
          (auto simp: confirm_validation_def count_validated_def set_status_def)
    next
      case False
      with fv_done show ?thesis
        by (intro same) (auto simp: confirm_validation_def)
    qed
  qed (rule same; auto simp: index_defs drain_dependents_def split: if_splits)+
qed


section \<open>The whole invariant\<close>

definition inv_workers :: "nat \<Rightarrow> machine \<Rightarrow> bool" where
  "inv_workers n m \<longleftrightarrow> size_of m = n \<and> inv_m m \<and> inv_reason m \<and> inv_ready m \<and> inv_live m \<and>
     inv_owner m \<and> inv_slots m \<and> inv_count m"

lemma inv_workers_init: "init_machine n k m \<Longrightarrow> inv_workers n m"
proof -
  assume init: "init_machine n k m"
  then have "live n (pcs m 0)"
    by (simp add: init_machine_def)
  then have "inv_live m"
    using init by (auto simp: inv_live_def init_machine_def new_scheduler_def)
  moreover have "lc_owner (abs_lc m)" "inv_slots m"
    using init by (auto simp: lc_owner_def inv_slots_def init_machine_def new_scheduler_def is_executed_def
        split: if_splits)
  moreover have "inv_count m"
    using init by (simp add: inv_count_def validated_total_def init_machine_def new_scheduler_def count_list_0_iff)
  ultimately show ?thesis
    using init inv_m_init [OF init]
    by (auto simp: inv_workers_def inv_owner_def inv_reason_def inv_ready_def init_machine_def new_scheduler_def
        split: if_splits)
qed

lemma inv_workers_step: "inv_workers n m \<Longrightarrow> mstep m m' \<Longrightarrow> inv_workers n m'"
  unfolding inv_workers_def
  by (auto simp: mstep_def wstep_size(1) intro: inv_m_step [unfolded mstep_def] inv_reason_step inv_ready_step
      inv_live_step inv_owner_step inv_slots_step inv_count_step)

interpretation block_run: invariant_system "init_machine n k" mstep "inv_workers n" for n k
  by unfold_locales (auto intro: inv_workers_init inv_workers_step)

lemmas reachable_inv = block_run.inv_reaches

section \<open>Progress\<close>

text \<open>The mutex a worker needs for its next step, if any.\<close>

fun wants_lock :: "nat \<Rightarrow> pc \<Rightarrow> tx_idx option" where
  "wants_lock n (NT_lock_val i) = Some i"
| "wants_lock n (NT_lock_exec i) = (if i < n then Some i else None)"
| "wants_lock n (AD_lock v b) = Some b"
| "wants_lock n (AD_tx v b) = Some (tx_idx v)"
| "wants_lock n (FE_lock v f) = Some (tx_idx v)"
| "wants_lock n (FE_resume v f (d # ds)) = Some d"
| "wants_lock n (VA_abort v) = Some (tx_idx v)"
| "wants_lock n (FV_ready v) = Some (tx_idx v)"
| "wants_lock n (FV_try v) = Some (tx_idx v)"
| "wants_lock n (FV_done v) = Some (tx_idx v)"
| "wants_lock n _ = None"

lemma can_step:
  assumes "pcs m w \<noteq> Exited" and "\<And>i. wants_lock (size_of m) (pcs m w) = Some i \<Longrightarrow> unlocked m i"
  shows "\<exists>m'. wstep w m m'"
proof (cases "pcs m w")
  case (FE_resume v f ds)
  with assms show ?thesis by (cases ds) (force intro: wstep.intros)+
next
  case (AD_lock v b)
  with assms show ?thesis
    by (cases "is_executed (status_of (sched m) b)") (force intro: wstep.intros)+
next
  case (FE_between v f)
  then show ?thesis by (cases "needs_validation f") (force intro: wstep.intros)+
next
  case (Ret t)
  then show ?thesis by (cases "reason m") (force intro: wstep.intros)+
next
  case (NT_lock_exec i)
  with assms show ?thesis
    by (cases "try_execute (sched m) i") (force intro!: wstep.nt_lock_exec)
next
  case (NT_lock_val i)
  with assms show ?thesis
    by (cases "pick_validation (sched m) i") (force intro!: wstep.nt_lock_val)
next
  case NT_fetch_val
  then show ?thesis
    by (cases "fetch_add_validation (sched m)") (force intro!: wstep.nt_fetch_val)
next
  case NT_fetch_exec
  then show ?thesis
    by (cases "fetch_add_execution (sched m)") (force intro!: wstep.nt_fetch_exec)
next
  case (FE_lock v f)
  with assms show ?thesis
    by (cases "drain_dependents (sched m) (tx_idx v)") (force intro!: wstep.fe_lock)
next
  case (FE_min v f)
  then show ?thesis
    by (cases "decide_min_validation (sched m) (tx_idx v) f") (force intro!: wstep.fe_min)
next
  case (VA_abort v)
  with assms show ?thesis
    by (cases "try_validation_abort (sched m) v") (force intro!: wstep.va_abort)
next
  case (FV_try v)
  with assms show ?thesis
    by (cases "try_execute (sched m) (tx_idx v)") (force intro!: wstep.fv_try)
qed (use assms in \<open>force intro: wstep.intros\<close>)+

text \<open>A worker that holds a mutex only ever waits for one of a higher transaction.\<close>

lemma lock_order:
  assumes inv: "inv_m m" and "lock_of (pcs m w) = Some i" "wants_lock (size_of m) (pcs m w) = Some j"
  shows "i < j"
proof (cases "pcs m w")
  case (AD_tx v b)
  with inv assms show ?thesis
    using inv_shapeD(1) [of m w] by (auto simp: inv_m_def)
next
  case (FE_resume v f ds)
  with assms obtain ds' where ds: "ds = j # ds'" and i: "i = tx_idx v"
    by (cases ds) auto
  with FE_resume inv show ?thesis
    using inv_shapeD(1) [of m w] by (auto simp: inv_m_def)
qed (use assms in auto)


lemma lock_of_indices: "lock_of p = Some i \<Longrightarrow> i \<in> set (indices_of p)"
  by (cases p) (auto simp: indices_of_def)

lemma indices_of_bound:
  assumes "inv_m m" "i \<in> set (indices_of (pcs m w))"
  shows "i < size_of m"
  using assms exec_of_bound(1) [OF assms(1), of w] inv_shapeD(2) [of m i w]
  by (auto simp: indices_of_def inv_m_def split: option.splits)

lemma no_deadlock:
  assumes inv: "inv_m m" and w: "pcs m w \<noteq> Exited"
  shows "\<exists>m'. mstep m m'"
proof (cases "\<exists>i. locks m i \<noteq> None")
  case False
  then have "\<exists>m'. wstep w m m'" by (intro can_step [OF w]) auto
  then show ?thesis by (auto simp: mstep_def)
next
  case True
  let ?L = "{i. locks m i \<noteq> None}"
  have lk: "inv_lock m" using inv by (simp add: inv_m_def)
  have "i < size_of m" if "locks m i \<noteq> None" for i
    using that inv_lockD [OF lk, of i] lock_of_indices indices_of_bound [OF inv] by blast
  then have fin: "finite ?L"
    by (intro finite_subset [of ?L "{..<size_of m}"]) auto
  from Max_in [OF fin] True have "Max ?L \<in> ?L" by blast
  then obtain x where x: "lock_of (pcs m x) = Some (Max ?L)"
    using inv_lockD [OF lk] by auto
  have "unlocked m j" if "wants_lock (size_of m) (pcs m x) = Some j" for j
    using lock_order [OF inv x that] Max_ge [OF fin, of j] by (cases "locks m j") auto
  moreover have "pcs m x \<noteq> Exited" using x by auto
  ultimately show ?thesis
    using can_step [of m x] by (auto simp: mstep_def)
qed

section \<open>The status diagram\<close>

text \<open>The transitions of the diagram in \<^verbatim>\<open>lib.rs\<close>, with the incarnation counter.\<close>

fun diagram :: "tx_status \<Rightarrow> tx_status \<Rightarrow> bool" where
  "diagram t u =
     (case status t of
        ReadyToExecute \<Rightarrow> status u = Executing \<and> incarnation u = incarnation t
      | Executing \<Rightarrow> (status u = Executed \<or> status u = Validated \<or> status u = Aborting) \<and> incarnation u = incarnation t
      | Executed \<Rightarrow> (status u = Validated \<or> status u = Aborting) \<and> incarnation u = incarnation t
      | Validated \<Rightarrow> status u = Aborting \<and> incarnation u = incarnation t
      | Aborting \<Rightarrow> status u = ReadyToExecute \<and> incarnation u = incarnation t + 1)"

lemma lstep_diagram:
  assumes "lstep l l'" "inv_lc l" "i < length (lc_status l)"
  shows "lc_status l' ! i = lc_status l ! i \<or> diagram (lc_status l ! i) (lc_status l' ! i)"
  using assms(1)
proof cases
  case (block w v b)
  then show ?thesis using assms inv_runD [of l w v]
    by (cases "i = tx_idx v") (auto simp: move_def inv_lc_def)
next
  case (finish w v st lk)
  then show ?thesis using assms inv_runD [of l w v]
    by (cases "i = tx_idx v") (auto simp: move_def inv_lc_def is_executed_def)
next
  case (resume w d ds)
  then show ?thesis using assms inv_tokD [of l d "Inr w"]
    by (cases "i = d") (auto simp: renew_def inv_lc_def)
next
  case (start j w)
  then show ?thesis using assms
    by (cases "i = j") (auto simp: move_def)
next
  case (confirm j)
  then show ?thesis using assms
    by (cases "i = j") (auto simp: move_def)
next
  case (abort j w)
  then show ?thesis using assms
    by (cases "i = j") (auto simp: move_def is_executed_def)
qed auto

lemma mstep_diagram:
  assumes "mstep m m'" "inv_m m" "i < size_of m"
  shows "transactions_status (sched m') ! i = transactions_status (sched m) ! i \<or>
    diagram (transactions_status (sched m) ! i) (transactions_status (sched m') ! i)"
proof -
  from assms obtain w where w: "wstep w m m'" by (auto simp: mstep_def)
  from assms have "inv_lc (abs_lc m)" "i < length (lc_status (abs_lc m))"
    by (auto simp: inv_m_def inv_shape_def)
  with wstep_sim [OF w assms(2)] show ?thesis
    using lstep_diagram [of "abs_lc m" "abs_lc m'" i] by (auto dest: arg_cong [of _ _ lc_status])
qed

end
