(* ===== verification/Worker_Runs.thy ===== *)
theory Worker_Runs
  imports Scheduler_Steps
begin

text \<open>
  The same steps as a function: the worker and, where the step is not determined, the outcome are
  given. A run is a list of such choices. Concrete interleavings are evaluated with it.
\<close>

datatype outcome =
    Go
  | Finished finish_exec_flags
  | BlockedBy tx_idx
  | Inconsistent
  | Fatal
  | ReadsValid bool

definition run_pc :: "nat \<Rightarrow> outcome \<Rightarrow> machine \<Rightarrow> tx_version \<Rightarrow> machine option" where
  "run_pc w oc m v =
     (case oc of
        Finished f \<Rightarrow> Some (goto (m\<lparr>slots := (slots m)(tx_idx v := True)\<rparr>) w (FE_lock v f))
      | BlockedBy b \<Rightarrow> if b < tx_idx v then Some (goto m w (AD_lock v b)) else None
      | Inconsistent \<Rightarrow> Some (goto m w (RUN_retry v))
      | Fatal \<Rightarrow> Some (goto (m\<lparr>sched := scheduler_abort (sched m)\<rparr>) w RUN_reason)
      | _ \<Rightarrow> None)"

definition add_dependency_pc :: "nat \<Rightarrow> machine \<Rightarrow> tx_version \<Rightarrow> tx_idx \<Rightarrow> machine option" where
  "add_dependency_pc w m v b =
     (if locks m b \<noteq> None then None
      else if is_executed (status_of (sched m) b) then Some (goto m w (RUN_retry v))
      else Some (goto (m\<lparr>locks := (locks m)(b := Some w)\<rparr>) w (AD_tx v b)))"

definition next_task_pc :: "nat \<Rightarrow> machine \<Rightarrow> machine option" where
  "next_task_pc w m =
     (case pcs m w of
        NT_aborted \<Rightarrow> Some (goto m w (if aborted (sched m) then Exited else NT_exec))
      | NT_exec \<Rightarrow> Some (goto m w (NT_val (execution_idx (sched m))))
      | NT_val e \<Rightarrow> Some (goto m w (after_val (sched m) e))
      | NT_num \<Rightarrow> Some (goto m w (NT_min (num_validated (sched m))))
      | NT_min nv \<Rightarrow>
          Some (goto m w (if nv \<ge> size_of m - min_validation_idx (sched m) then Exited else NT_aborted))
      | NT_fetch_val \<Rightarrow>
          (case fetch_add_validation (sched m) of
             (i, s') \<Rightarrow> Some (goto (m\<lparr>sched := s'\<rparr>) w (if i < size_of m then NT_lock_val i else NT_fetch_exec)))
      | NT_lock_val i \<Rightarrow>
          if locks m i \<noteq> None then None
          else (case pick_validation (sched m) i of
                  (p, s') \<Rightarrow> Some (goto (m\<lparr>sched := s'\<rparr>) w (after_pick p)))
      | NT_fetch_exec \<Rightarrow>
          (case fetch_add_execution (sched m) of (i, s') \<Rightarrow> Some (goto (m\<lparr>sched := s'\<rparr>) w (NT_lock_exec i)))
      | NT_lock_exec i \<Rightarrow>
          if i < size_of m \<and> locks m i \<noteq> None then None
          else (case try_execute (sched m) i of
                  (r, s') \<Rightarrow> Some (goto (m\<lparr>sched := s'\<rparr>) w (case r of Some v \<Rightarrow> RUN v | None \<Rightarrow> NT_aborted)))
      | _ \<Rightarrow> None)"

definition finish_execution_pc :: "nat \<Rightarrow> machine \<Rightarrow> machine option" where
  "finish_execution_pc w m =
     (case pcs m w of
        FE_lock v f \<Rightarrow>
          if locks m (tx_idx v) \<noteq> None then None
          else (case drain_dependents (sched m) (tx_idx v) of
                  (ds, s') \<Rightarrow> Some (goto (m\<lparr>sched := s', locks := (locks m)(tx_idx v := Some w)\<rparr>) w (FE_resume v f ds)))
      | FE_resume v f [] \<Rightarrow> Some (goto m w (FE_min v f))
      | FE_resume v f (d # ds) \<Rightarrow>
          if locks m d \<noteq> None then None
          else Some (goto (m\<lparr>sched := set_ready_status (sched m) d\<rparr>) w (FE_fetch v f d ds))
      | FE_fetch v f d ds \<Rightarrow> Some (goto (m\<lparr>sched := fetch_min_execution (sched m) d\<rparr>) w (FE_resume v f ds))
      | FE_min v f \<Rightarrow>
          (case decide_min_validation (sched m) (tx_idx v) f of
             (mv, s') \<Rightarrow> Some (goto (m\<lparr>sched := s'\<rparr>) w (after_min s' v f mv)))
      | FE_val_min v f mv \<Rightarrow> Some (goto (m\<lparr>sched := fetch_min_validation (sched m) mv\<rparr>) w (FE_settle v f))
      | FE_val v f \<Rightarrow> Some (goto m w (after_load_val (sched m) v f))
      | FE_val_next v f \<Rightarrow>
          Some (goto (m\<lparr>sched := fetch_min_validation (sched m) (tx_idx v + 1)\<rparr>) w (FE_between v f))
      | FE_between v f \<Rightarrow>
          if needs_validation f then
            Some (goto (m\<lparr>sched := set_status (sched m) (tx_idx v) Executed,
                          locks := (locks m)(tx_idx v := None)\<rparr>) w (Ret (Some (Validation v))))
          else Some (goto (m\<lparr>sched := count_validated (set_status (sched m) (tx_idx v) Validated)\<rparr>) w (FE_again v f))
      | FE_again v f \<Rightarrow>
          Some (goto (m\<lparr>sched := settle_execution (sched m) (tx_idx v) f,
                        locks := (locks m)(tx_idx v := None)\<rparr>) w (Ret None))
      | FE_settle v f \<Rightarrow>
          Some (goto (m\<lparr>sched := settle_execution (sched m) (tx_idx v) f,
                        locks := (locks m)(tx_idx v := None)\<rparr>) w (Ret None))
      | _ \<Rightarrow> None)"

definition validate_pc :: "nat \<Rightarrow> outcome \<Rightarrow> machine \<Rightarrow> machine option" where
  "validate_pc w oc m =
     (case pcs m w of
        VA v \<Rightarrow>
          (case oc of ReadsValid ok \<Rightarrow> Some (goto m w (if ok then FV_done v else VA_abort v)) | _ \<Rightarrow> None)
      | VA_abort v \<Rightarrow>
          if locks m (tx_idx v) \<noteq> None then None
          else (case try_validation_abort (sched m) v of
                  (ab, s') \<Rightarrow> Some (goto (m\<lparr>sched := s'\<rparr>) w (if ab then VA_estimate v else FV_done v)))
      | VA_estimate v \<Rightarrow> Some (goto m w (FV_ready v))
      | FV_ready v \<Rightarrow>
          if locks m (tx_idx v) \<noteq> None then None
          else Some (goto (m\<lparr>sched := set_ready_status (sched m) (tx_idx v)\<rparr>) w (FV_fetch v))
      | FV_fetch v \<Rightarrow> Some (goto (m\<lparr>sched := fetch_min_validation (sched m) (tx_idx v + 1)\<rparr>) w (FV_exec v))
      | FV_exec v \<Rightarrow> Some (goto m w (if execution_idx (sched m) > tx_idx v then FV_try v else Ret None))
      | FV_try v \<Rightarrow>
          if locks m (tx_idx v) \<noteq> None then None
          else (case try_execute (sched m) (tx_idx v) of
                  (r, s') \<Rightarrow> Some (goto (m\<lparr>sched := s'\<rparr>) w (Ret (map_option Execution r))))
      | FV_done v \<Rightarrow>
          if locks m (tx_idx v) \<noteq> None then None
          else Some (goto (m\<lparr>sched := confirm_validation (sched m) (tx_idx v)\<rparr>) w (Ret None))
      | _ \<Rightarrow> None)"

definition do_step :: "nat \<Rightarrow> outcome \<Rightarrow> machine \<Rightarrow> machine option" where
  "do_step w oc m =
     (case pcs m w of
        RUN v \<Rightarrow> run_pc w oc m v
      | RUN_retry v \<Rightarrow> Some (goto m w (if reason m then Ret None else RUN v))
      | RUN_reason \<Rightarrow> Some (goto (m\<lparr>reason := True\<rparr>) w (Ret None))
      | AD_lock v b \<Rightarrow> add_dependency_pc w m v b
      | AD_tx v b \<Rightarrow>
          if locks m (tx_idx v) \<noteq> None then None
          else Some (goto (m\<lparr>sched := block_on (sched m) (tx_idx v) b, locks := (locks m)(b := None)\<rparr>) w (Ret None))
      | Ret t \<Rightarrow>
          if reason m then Some (goto m w Exited)
          else Some (goto m w (case t of Some t' \<Rightarrow> task_pc t' | None \<Rightarrow> NT_aborted))
      | Exited \<Rightarrow> None
      | _ \<Rightarrow> (case next_task_pc w m of
                Some m' \<Rightarrow> Some m'
              | None \<Rightarrow> (case finish_execution_pc w m of Some m' \<Rightarrow> Some m' | None \<Rightarrow> validate_pc w oc m)))"

fun run_steps :: "(nat \<times> outcome) list \<Rightarrow> machine \<Rightarrow> machine option" where
  "run_steps [] m = Some m"
| "run_steps ((w, oc) # rest) m =
     (case do_step w oc m of None \<Rightarrow> None | Some m' \<Rightarrow> run_steps rest m')"

text \<open>Every executable step is a step of the relation.\<close>

lemma run_pc_wstep: "run_pc w oc m v = Some m' \<Longrightarrow> pcs m w = RUN v \<Longrightarrow> wstep w m m'"
  by (simp add: wstep.simps [of w m m'] run_pc_def split: outcome.split_asm if_split_asm) auto

lemma add_dependency_pc_wstep:
  "add_dependency_pc w m v b = Some m' \<Longrightarrow> pcs m w = AD_lock v b \<Longrightarrow> wstep w m m'"
  by (simp add: wstep.simps [of w m m'] add_dependency_pc_def split: if_split_asm)

lemma next_task_pc_wstep: "next_task_pc w m = Some m' \<Longrightarrow> wstep w m m'"
  unfolding next_task_pc_def
  by (cases "pcs m w"; simp add: wstep.simps [of w m m'] split: if_split_asm prod.split_asm) auto

lemma finish_execution_pc_wstep: "finish_execution_pc w m = Some m' \<Longrightarrow> wstep w m m'"
  unfolding finish_execution_pc_def
  by (cases "pcs m w"; simp add: wstep.simps [of w m m'] split: if_split_asm prod.split_asm list.split_asm)

lemma validate_pc_wstep: "validate_pc w oc m = Some m' \<Longrightarrow> wstep w m m'"
  unfolding validate_pc_def
  by (cases "pcs m w"; simp add: wstep.simps [of w m m'] split: if_split_asm prod.split_asm outcome.split_asm)
    auto

lemma other_pc_wstep:
  "(case next_task_pc w m of
      Some m1 \<Rightarrow> Some m1
    | None \<Rightarrow> (case finish_execution_pc w m of Some m1 \<Rightarrow> Some m1 | None \<Rightarrow> validate_pc w oc m)) = Some m' \<Longrightarrow>
   wstep w m m'"
  by (auto split: option.split_asm dest: next_task_pc_wstep finish_execution_pc_wstep validate_pc_wstep)

lemma do_step_wstep:
  assumes "do_step w oc m = Some m'"
  shows "wstep w m m'"
proof (cases "pcs m w")
  case (RUN v)
  with assms run_pc_wstep show ?thesis by (simp add: do_step_def)
next
  case (AD_lock v b)
  with assms add_dependency_pc_wstep show ?thesis by (simp add: do_step_def)
next
  case (RUN_retry v)
  with assms show ?thesis by (auto simp: do_step_def wstep.simps [of w m m'])
next
  case RUN_reason
  with assms show ?thesis by (simp add: do_step_def wstep.simps [of w m m'])
next
  case (AD_tx v b)
  with assms show ?thesis by (simp add: do_step_def wstep.simps [of w m m'] split: if_split_asm)
next
  case (Ret t)
  with assms show ?thesis by (simp add: do_step_def wstep.simps [of w m m'] split: if_split_asm)
qed (use assms in \<open>auto simp: do_step_def intro: other_pc_wstep\<close>)

lemma run_steps_reachable: "run_steps cs m = Some m' \<Longrightarrow> reachable n k m \<Longrightarrow> reachable n k m'"
proof (induction cs arbitrary: m)
  case (Cons c cs)
  obtain w oc where c: "c = (w, oc)" by (cases c)
  with Cons.prems obtain m1 where m1: "do_step w oc m = Some m1" "run_steps cs m1 = Some m'"
    by (auto split: option.splits)
  from do_step_wstep [OF m1(1)] have "mstep m m1" by (auto simp: mstep_def)
  with Cons.prems(2) have "reachable n k m1" by (rule reaches_step)
  with Cons.IH m1(2) show ?case by blast
qed simp

definition start_machine :: "nat \<Rightarrow> nat \<Rightarrow> machine" where
  "start_machine n workers =
     \<lparr>sched = new_scheduler n, locks = (\<lambda>_. None), reason = False, slots = (\<lambda>_. False),
      pcs = (\<lambda>w. if w < workers then NT_aborted else Exited)\<rparr>"

lemma start_machine_reachable: "0 < k \<Longrightarrow> reachable n k (start_machine n k)"
  by (rule reaches_init) (simp add: init_machine_def start_machine_def)

end
