(* ===== verification/Worker_Properties.thy ===== *)
theory Worker_Properties
  imports Worker_Completion Worker_Runs
begin

text \<open>
  The guarantees of the parallel workers that \<^verbatim>\<open>Pevm::execute_revm_parallel\<close> and the unchecked
  accesses of the crate rely on, as facts about every reachable state of the interleaving model,
  and concrete interleavings at which each of them applies.
\<close>

section \<open>Sample interleavings\<close>

lemma do_step_frame: "do_step w oc m = Some m' \<Longrightarrow> x \<noteq> w \<Longrightarrow> pcs m' x = pcs m x"
  by (rule wstep_frame [OF do_step_wstep])

lemma run_steps_frame:
  "run_steps cs m = Some m' \<Longrightarrow> x \<notin> fst ` set cs \<Longrightarrow> pcs m' x = pcs m x"
proof (induction cs arbitrary: m)
  case (Cons c cs)
  obtain w oc where c: "c = (w, oc)" by (cases c)
  with Cons.prems obtain m1 where "do_step w oc m = Some m1" "run_steps cs m1 = Some m'"
    by (auto split: option.splits)
  with Cons.IH [of m1] Cons.prems c do_step_frame show ?case by force
qed simp

text \<open>One worker executes the only transaction of a block and exits.\<close>

definition solo_steps :: "(nat \<times> outcome) list" where
  "solo_steps = map (Pair 0) (replicate 5 Go @ [Finished flags_empty] @ replicate 10 Go)"

definition solo_end :: machine where
  "solo_end = the (run_steps solo_steps (start_machine 1 1))"

lemma sample_run:
  assumes "(run_steps cs m = None) = False"
  shows "run_steps cs m = Some (the (run_steps cs m))"
    and "reachable n k m \<Longrightarrow> reachable n k (the (run_steps cs m))"
  using assms by (auto intro: run_steps_reachable)

lemma solo_end_run: "run_steps solo_steps (start_machine 1 1) = Some solo_end"
  unfolding solo_end_def by (rule sample_run(1)) (unfold solo_steps_def, code_simp)

lemma solo_end_reachable: "reachable 1 1 solo_end"
  by (rule run_steps_reachable [OF solo_end_run start_machine_reachable]) simp

lemma solo_end_exited: "pcs solo_end w = Exited"
proof (cases "w = 0")
  case True
  have "pcs solo_end 0 = Exited"
    unfolding solo_end_def solo_steps_def by code_simp
  with True show ?thesis by simp
next
  case False
  then have "w \<notin> fst ` set solo_steps" by (auto simp: solo_steps_def)
  from run_steps_frame [OF solo_end_run this] False show ?thesis
    by (simp add: start_machine_def)
qed

text \<open>
  Two workers on two transactions: both execute; the second transaction needs validation, the
  validation fails, and its worker is about to make it ready again.
\<close>

definition duo_begin :: "(nat \<times> outcome) list" where
  "duo_begin = map (Pair 0) (replicate 5 Go) @ map (Pair 1) (replicate 5 Go)"

definition duo_fail :: "(nat \<times> outcome) list" where
  "duo_fail = map (Pair 1) ([Finished NeedValidation] @ replicate 6 Go @ [ReadsValid False, Go])"

definition duo_start :: machine where
  "duo_start = the (run_steps duo_begin (start_machine 2 2))"

definition duo_abort :: machine where
  "duo_abort = the (run_steps duo_fail duo_start)"

lemma duo_start_reachable: "reachable 2 2 duo_start"
  unfolding duo_start_def
  by (rule sample_run(2) [OF _ start_machine_reachable]) (unfold duo_begin_def, code_simp, simp)

lemma duo_abort_reachable: "reachable 2 2 duo_abort"
  unfolding duo_abort_def
  by (rule sample_run(2) [OF _ duo_start_reachable])
    (unfold duo_start_def duo_begin_def duo_fail_def, code_simp)

section \<open>Safety of a parallel run\<close>

lemma joined_workers_executed:
  assumes "reachable n k m" and "\<forall>w. pcs m w = Exited" and "\<not> reason m"
  shows "\<forall>i < n. is_executed (status_of (sched m) i) \<and> slots m i"
proof (intro allI impI)
  fix i assume i: "i < n"
  from reachable_inv [OF assms(1)] have inv: "inv_m m" "inv_owner m" "inv_ready m" "inv_live m"
    "inv_reason m" "inv_slots m" and n: "size_of m = n"
    by (auto simp: inv_workers_def)
  have ab: "\<not> aborted (sched m)"
    using inv(5) assms(2,3) by (auto simp: inv_reason_def)
  have len: "length (transactions_status (sched m)) = n"
    using inv(1) n by (simp add: inv_m_def inv_shape_def)
  have own: "lc_owner (abs_lc m)"
    using inv(2) ab by (simp add: inv_owner_def)
  have ready: "status_of (sched m) j \<noteq> ReadyToExecute" if "j < n" for j
    using that inv(3,4) assms(2) ab n by (force simp: inv_ready_def inv_live_def)
  have "is_executed (lc_st (abs_lc m) i)"
  proof (rule lc_all_executed)
    show "inv_lc (abs_lc m)" using inv(1) by (simp add: inv_m_def)
    show "lc_st (abs_lc m) j \<noteq> ReadyToExecute \<and> lc_st (abs_lc m) j \<noteq> Executing"
      if "j < length (lc_status (abs_lc m))" for j
      using that ready lc_ownerD(1) [OF own that] len assms(2) by auto
  qed (use lc_ownerD(2) [OF own] assms(2) i len in auto)
  then show "is_executed (status_of (sched m) i) \<and> slots m i"
    using inv(6) i n by (simp add: inv_slots_def)
qed

text \<open>
  C3: When every worker has left the scope and no abort reason was recorded, every transaction of
  the block has been executed and its execution result is in its slot.
\<close>

theorem all_transactions_executed:
  assumes "reachable n k m" and "\<forall>w. pcs m w = Exited" and "\<not> reason m"
  shows "\<forall>i < n. is_executed (status_of (sched m) i) \<and> slots m i"
  using assms by (rule joined_workers_executed)

theorem all_transactions_executed_witness:
  "is_executed (status_of (sched solo_end) 0) \<and> slots solo_end 0"
proof -
  have "\<not> reason solo_end"
    unfolding solo_end_def solo_steps_def by code_simp
  from all_transactions_executed [OF solo_end_reachable _ this] solo_end_exited
  show ?thesis by auto
qed

text \<open>
  C13: No two workers ever execute the same transaction at the same time. The per-transaction
  result slots and the read and write logs are mutated without further locking under exactly this
  condition.
\<close>

theorem exclusive_execution:
  assumes "reachable n k m" "exec_of (pcs m w) = Some v" "exec_of (pcs m x) = Some u" "w \<noteq> x"
  shows "tx_idx v \<noteq> tx_idx u"
proof
  assume "tx_idx v = tx_idx u"
  moreover have "inv_run (abs_lc m)"
    using workers.inv_reaches [OF assms(1)] by (simp add: inv_m_def inv_lc_def)
  ultimately show False
    using assms(2-4) unfolding inv_run_def abs_lc_sel by blast
qed

theorem exclusive_execution_witness:
  "pcs duo_start 0 = RUN \<lparr>tx_idx = 0, tx_incarnation = 0\<rparr> \<and>
   pcs duo_start 1 = RUN \<lparr>tx_idx = 1, tx_incarnation = 0\<rparr> \<and>
   tx_idx (the (exec_of (pcs duo_start 0))) \<noteq> tx_idx (the (exec_of (pcs duo_start 1)))"
proof -
  have pc: "pcs duo_start 0 = RUN \<lparr>tx_idx = 0, tx_incarnation = 0\<rparr>"
    "pcs duo_start 1 = RUN \<lparr>tx_idx = 1, tx_incarnation = 0\<rparr>"
    unfolding duo_start_def duo_begin_def by code_simp+
  then have "exec_of (pcs duo_start 0) = Some \<lparr>tx_idx = 0, tx_incarnation = 0\<rparr>"
    "exec_of (pcs duo_start 1) = Some \<lparr>tx_idx = 1, tx_incarnation = 0\<rparr>" by simp_all
  with exclusive_execution [OF duo_start_reachable this] pc show ?thesis by simp
qed

text \<open>
  C14: Every index a worker is about to pass to \<^verbatim>\<open>index_mutex!\<close> (which indexes unchecked) is below the
  block size, and so are the entries of every dependents list; both vectors keep the block's length.
\<close>

theorem unchecked_indices_in_bounds:
  assumes "reachable n k m"
  shows "length (transactions_status (sched m)) = n \<and> length (transactions_dependents (sched m)) = n \<and>
    (\<forall>w. \<forall>i \<in> set (indices_of (pcs m w)). i < n) \<and>
    (\<forall>b < n. \<forall>i \<in> set (transactions_dependents (sched m) ! b). b < i \<and> i < n)"
proof -
  from reachable_inv [OF assms] have inv: "inv_m m" and n: "size_of m = n"
    by (auto simp: inv_workers_def)
  then have tok: "inv_tok (abs_lc m)" and wait: "inv_wait (abs_lc m)"
    and len: "length (transactions_status (sched m)) = n"
    by (auto simp: inv_m_def inv_lc_def inv_shape_def)
  moreover have deps: "length (transactions_dependents (sched m)) = n"
    using inv_tok_distinctD(3) [OF tok] len by simp
  moreover have "b < i \<and> i < n" if "b < n" "i \<in> set (transactions_dependents (sched m) ! b)" for b i
    using that inv_tokD [OF tok, of i "Inl b"] inv_waitD(1) [OF wait, of b i] len deps by auto
  moreover have "i < n" if "i \<in> set (indices_of (pcs m w))" for w i
    using indices_of_bound [OF inv that] n by simp
  ultimately show ?thesis by blast
qed

theorem unchecked_indices_in_bounds_witness:
  "length (transactions_status (sched duo_abort)) = 2 \<and> set (indices_of (pcs duo_abort 1)) = {1}"
proof -
  have "indices_of (pcs duo_abort 1) = [1]"
    unfolding duo_abort_def duo_start_def duo_begin_def duo_fail_def by code_simp
  with unchecked_indices_in_bounds [OF duo_abort_reachable] show ?thesis by simp
qed

text \<open>
  C30: The debug assertions of the scheduler never fail: a transaction that is being finished, or
  made to wait, is \<open>Executing\<close> with the version's incarnation, and one that is made ready again is
  \<open>Aborting\<close>.
\<close>

theorem debug_assertions_hold:
  assumes "reachable n k m"
  shows "(pcs m w = AD_tx v b \<longrightarrow> status_of (sched m) (tx_idx v) = Executing) \<and>
    (pcs m w = FE_lock v f \<longrightarrow>
       transactions_status (sched m) ! tx_idx v = \<lparr>incarnation = tx_incarnation v, status = Executing\<rparr>) \<and>
    (pcs m w = FE_resume v f (d # ds) \<longrightarrow> status_of (sched m) d = Aborting) \<and>
    (pcs m w = FV_ready v \<longrightarrow> status_of (sched m) (tx_idx v) = Aborting)"
proof -
  note inv = workers.inv_reaches [OF assms]
  show ?thesis
    using exec_of_bound(2,3) [OF inv, of w v] abort_of_bound(2) [OF inv, where w = w] by auto
qed

theorem debug_assertions_hold_witness:
  "pcs duo_abort 1 = VA_estimate \<lparr>tx_idx = 1, tx_incarnation = 0\<rparr> \<and>
   status_of (sched (the (do_step 1 Go duo_abort))) 1 = Aborting"
proof -
  let ?v = "\<lparr>tx_idx = 1, tx_incarnation = 0\<rparr>" and ?m = "the (do_step 1 Go duo_abort)"
  have 1: "pcs duo_abort 1 = VA_estimate ?v" and 2: "pcs ?m 1 = FV_ready ?v"
    and 3: "(run_steps [(1, Go)] duo_abort = None) = False"
    unfolding duo_abort_def duo_start_def duo_begin_def duo_fail_def by code_simp+
  have "reachable 2 2 (the (run_steps [(1, Go)] duo_abort))"
    by (rule sample_run(2) [OF 3 duo_abort_reachable])
  moreover have "the (run_steps [(1, Go)] duo_abort) = ?m"
    using 3 by (auto split: option.splits)
  ultimately have "reachable 2 2 ?m" by simp
  from debug_assertions_hold [OF this, of 1 ?v] 1 2 show ?thesis by simp
qed

text \<open>
  C15: The workers never deadlock on the status mutexes: as long as some worker has not exited,
  some worker can take a step.
\<close>

theorem workers_never_deadlock:
  assumes "reachable n k m" "pcs m w \<noteq> Exited"
  shows "\<exists>x m'. wstep x m m'"
  using no_deadlock [OF workers.inv_reaches [OF assms(1)] assms(2)] by (auto simp: mstep_def)

theorem workers_never_deadlock_witness:
  "pcs duo_start 0 \<noteq> Exited \<and> (\<exists>x m'. wstep x duo_start m')"
proof -
  have "(pcs duo_start 0 = Exited) = False"
    unfolding duo_start_def duo_begin_def by code_simp
  with workers_never_deadlock [OF duo_start_reachable, of 0] show ?thesis by simp
qed

text \<open>
  C31: The validation counter is never below the number of transactions that are \<open>Validated\<close>, and
  \<^verbatim>\<open>min_validation_idx\<close> never exceeds the block size. So neither \<^verbatim>\<open>num_validated.fetch_sub(1)\<close> in
  \<^verbatim>\<open>try_validation_abort\<close> nor \<^verbatim>\<open>block_size - min_validation_idx\<close> in \<^verbatim>\<open>next_task\<close> wraps around.
\<close>

theorem counters_never_underflow:
  assumes "reachable n k m"
  shows "validated_total (sched m) \<le> num_validated (sched m) \<and> min_validation_idx (sched m) \<le> n \<and>
    (\<forall>i < n. status_of (sched m) i = Validated \<longrightarrow> 0 < num_validated (sched m))"
proof -
  from reachable_inv [OF assms] have cnt: "validated_total (sched m) \<le> num_validated (sched m)"
    and shape: "inv_shape m" and n: "size_of m = n"
    by (auto simp: inv_workers_def inv_count_def inv_m_def)
  have "0 < num_validated (sched m)" if "i < n" "status_of (sched m) i = Validated" for i
    using that validated_total_pos [of i "sched m"] inv_shapeD(3) [OF shape] n cnt by linarith
  with cnt inv_shapeD(4) [OF shape] n show ?thesis by simp
qed

theorem counters_never_underflow_witness:
  "validated_total (sched solo_end) = 1 \<and> 0 < num_validated (sched solo_end)"
proof -
  have "validated_total (sched solo_end) = 1" "status_of (sched solo_end) 0 = Validated"
    unfolding solo_end_def solo_steps_def by code_simp+
  with counters_never_underflow [OF solo_end_reachable] show ?thesis by simp
qed

section \<open>Refinement of the life cycle\<close>

lemma abs_lc_init: "init_machine n k m \<Longrightarrow> init_lc (abs_lc m)"
  by (auto simp: init_lc_def idle_def init_machine_def new_scheduler_def)

text \<open>
  C12: The interleaved workers refine the life-cycle protocol: the abstraction of every reachable
  state is reachable in the protocol, and each worker step is a protocol step or is invisible.
\<close>

theorem workers_refine_lifecycle:
  assumes "reachable n k m"
  shows "reaches init_lc lstep (abs_lc m) \<and>
    (\<forall>w m'. wstep w m m' \<longrightarrow> abs_lc m' = abs_lc m \<or> lstep (abs_lc m) (abs_lc m'))"
proof -
  have sim: "abs_lc m' = abs_lc m \<or> lstep (abs_lc m) (abs_lc m')" if "reachable n k m" "wstep w m m'" for w m m'
    using wstep_sim [OF that(2) workers.inv_reaches [OF that(1)]] .
  from assms have "reaches init_lc lstep (abs_lc m)"
  proof induction
    case (reaches_step m m')
    from reaches_step.hyps(2) obtain w where "wstep w m m'" by (auto simp: mstep_def)
    with sim [OF reaches_step.hyps(1)] reaches_step.IH show ?case
      by (metis reaches.reaches_step)
  qed (rule reaches.reaches_init, rule abs_lc_init)
  with sim [OF assms] show ?thesis by blast
qed

theorem workers_refine_lifecycle_witness:
  "reaches init_lc lstep (abs_lc duo_abort) \<and> lc_st (abs_lc duo_abort) 1 = Aborting"
proof -
  have "status_of (sched duo_abort) 1 = Aborting"
    unfolding duo_abort_def duo_start_def duo_begin_def duo_fail_def by code_simp
  with workers_refine_lifecycle [OF duo_abort_reachable] show ?thesis by simp
qed



text \<open>
  Only one failing validation per version leads to a successful abort: once a transaction is
  \<open>Aborting\<close>, it stays so, with every further abort refused, until its incarnation has grown.
\<close>

theorem one_abort_per_version:
  assumes "reachable n k m" "mstep\<^sup>*\<^sup>* m m'" "i < n" "status_of (sched m) i = Aborting"
  shows "incarnation_of (sched m) i < incarnation_of (sched m') i \<or>
    transactions_status (sched m') ! i = transactions_status (sched m) ! i \<and>
    (\<forall>v. tx_idx v = i \<longrightarrow> \<not> fst (try_validation_abort (sched m') v))"
proof -
  from assms(2) have "reachable n k m' \<and> (incarnation_of (sched m) i < incarnation_of (sched m') i \<or>
      transactions_status (sched m') ! i = transactions_status (sched m) ! i)"
  proof induction
    case (step m1 m2)
    from step have r: "reachable n k m2" by (auto intro: reaches.reaches_step)
    from step reachable_inv [of n k m1] have inv: "inv_m m1" "size_of m1 = n" by (auto simp: inv_workers_def)
    from mstep_diagram [OF step.hyps(2) inv(1), of i] inv(2) assms(3)
    have "transactions_status (sched m2) ! i = transactions_status (sched m1) ! i \<or>
      diagram (transactions_status (sched m1) ! i) (transactions_status (sched m2) ! i)" by simp
    then have "incarnation_of (sched m1) i \<le> incarnation_of (sched m2) i"
      "status_of (sched m1) i = Aborting \<Longrightarrow>
       incarnation_of (sched m1) i < incarnation_of (sched m2) i \<or>
       transactions_status (sched m2) ! i = transactions_status (sched m1) ! i"
      by (auto split: incarnation_status.splits)
    with step.IH r assms(4) show ?case by force
  qed (use assms(1) in auto)
  with assms(4) show ?thesis
    by (auto simp: try_validation_abort_def Let_def is_executed_def)
qed

theorem one_abort_per_version_witness:
  "status_of (sched duo_abort) 1 = Aborting \<and>
   \<not> fst (try_validation_abort (sched duo_abort) \<lparr>tx_idx = 1, tx_incarnation = 0\<rparr>)"
proof -
  have "status_of (sched duo_abort) 1 = Aborting"
    unfolding duo_abort_def duo_start_def duo_begin_def duo_fail_def by code_simp
  with one_abort_per_version [OF duo_abort_reachable rtranclp.rtrancl_refl, of 1] show ?thesis by auto
qed

end
