(* ===== verification/Parallel.thy ===== *)
theory Parallel
  imports Block Worker_Properties
begin

text \<open>
  The parallel executor as one machine: the workers of \<open>Scheduler_Steps\<close> with the multi-version memory, the
  result slots and the abort reason they share. An execution reads the memory while other workers change
  it; its reads see any of the states the memory has had since the execution began. The writes of one
  execution, of one abort and one validation are single steps. The machine refines the workers alone, so that all their
  properties hold for it.
\<close>

section \<open>The machine\<close>

text \<open>
  \<open>history\<close> are the states the memory has had, one per step, and \<open>since w\<close> is where worker \<open>w\<close> made its last step;
  \<open>pending w\<close> is the reason it is about to record. Further history variables are the locations executions have read (\<open>accessed\<close>)
  and changed (\<open>touched\<close>), the transactions whose last event on the memory was a successful execution (\<open>finished\<close>) and
  those whose last execution asked for validation (\<open>needing\<close>).
\<close>

record ('bc, 'jt, 'lg) executor =
  workers :: machine
  memory :: "'bc mv_memory"
  history :: "'bc mv_memory list"
  since :: "nat \<Rightarrow> nat"
  results :: "('jt, 'lg) execution_results"
  pending :: "nat \<Rightarrow> abort_reason"
  aborted_for :: "abort_reason option"
  accessed :: "memory_location set"
  touched :: "memory_location set"
  finished :: "nat set"
  needing :: "nat set"

definition observe :: "nat \<Rightarrow> ('bc, 'jt, 'lg) executor \<Rightarrow> ('bc, 'jt, 'lg) executor" where
  "observe w c = c\<lparr>history := history c @ [memory c], since := (since c)(w := length (history c))\<rparr>"

text \<open>The accesses of an execution see states the memory has had since it began, in their order.\<close>

definition observes :: "('bc, 'jt, 'lg) executor \<Rightarrow> nat \<Rightarrow> (nat \<Rightarrow> 'bc mv_memory) \<Rightarrow> bool" where
  "observes c w M \<longleftrightarrow> (\<exists>t. mono t \<and> (\<forall>k. since c w \<le> t k \<and> t k < length (history c) \<and> M k = history c ! t k))"

abbreviation jump :: "('bc, 'jt, 'lg) executor \<Rightarrow> nat \<Rightarrow> pc \<Rightarrow> ('bc, 'jt, 'lg) executor" where
  "jump c w p \<equiv> c\<lparr>workers := goto (workers c) w p\<rparr>"

text \<open>The steps in which a worker runs the EVM, records a reason or uses the memory.\<close>

fun effectful :: "pc \<Rightarrow> bool" where
  "effectful (RUN v) = True"
| "effectful RUN_reason = True"
| "effectful (VA v) = True"
| "effectful (VA_estimate v) = True"
| "effectful _ = False"

definition locs_of ::
  "('bc, 'jt) revm_api \<Rightarrow> 'jt storage_api \<Rightarrow> ('bc, 'au, 'tx, 'lg) vm_env \<Rightarrow> 'tx list \<Rightarrow> (nat \<Rightarrow> 'bc mv_memory) \<Rightarrow> 'au vmdb \<Rightarrow>
   tx_idx \<Rightarrow> memory_location set" where
  "locs_of P S E txs M db i =
     (case vm_run P S E M db i (txs ! i) of (Inr (Inr (_, state)), _) \<Rightarrow> set (state_locs P state) | _ \<Rightarrow> {})"

text \<open>A successful execution: publish, fill the slot and go on to \<^verbatim>\<open>finish_execution\<close>.\<close>

definition succeed ::
  "nat \<Rightarrow> tx_version \<Rightarrow> finish_exec_flags \<Rightarrow> ('jt, 'lg) tx_result \<Rightarrow> ('bc, 'jt, 'lg) executor \<Rightarrow> ('bc, 'jt, 'lg) executor" where
  "succeed w v f r c =
     c\<lparr>workers := goto ((workers c)\<lparr>slots := (slots (workers c))(tx_idx v := True)\<rparr>) w (FE_lock v f),
       results := (results c)[tx_idx v := Some r], finished := insert (tx_idx v) (finished c),
       needing := (if needs_validation f then insert (tx_idx v) (needing c) else needing c - {tx_idx v})\<rparr>"

text \<open>The four errors of \<^verbatim>\<open>Vm::execute\<close> in \<^verbatim>\<open>try_execute\<close>.\<close>

definition stop_with :: "nat \<Rightarrow> abort_reason \<Rightarrow> ('bc, 'jt, 'lg) executor \<Rightarrow> ('bc, 'jt, 'lg) executor" where
  "stop_with w why c =
     c\<lparr>workers := goto ((workers c)\<lparr>sched := scheduler_abort (sched (workers c))\<rparr>) w RUN_reason,
       pending := (pending c)(w := why)\<rparr>"

fun fail :: "nat \<Rightarrow> tx_version \<Rightarrow> vm_execution_error \<Rightarrow> ('bc, 'jt, 'lg) executor \<Rightarrow> ('bc, 'jt, 'lg) executor" where
  "fail w v Retry c = jump c w (RUN_retry v)"
| "fail w v FallbackToSequential c = stop_with w AbortFallback c"
| "fail w v (VmBlocking b) c = jump c w (AD_lock v b)"
| "fail w v (ExecutionError err) c = stop_with w (AbortExecution err) c"

definition record_reason :: "nat \<Rightarrow> ('bc, 'jt, 'lg) executor \<Rightarrow> ('bc, 'jt, 'lg) executor" where
  "record_reason w c =
     c\<lparr>workers := goto ((workers c)\<lparr>reason := True\<rparr>) w (Ret None),
       aborted_for := (case aborted_for c of None \<Rightarrow> Some (pending c w) | Some r \<Rightarrow> Some r)\<rparr>"

text \<open>
  A worker that starts a transaction resets its database (\<^verbatim>\<open>set_tx\<close>), so what the database held before, \<open>db\<close>, is arbitrary.
\<close>

inductive pstep ::
  "('bc, 'jt) revm_api \<Rightarrow> 'jt storage_api \<Rightarrow> ('bc, 'au, 'tx, 'lg) vm_env \<Rightarrow> 'tx list \<Rightarrow> nat \<Rightarrow>
   ('bc, 'jt, 'lg) executor \<Rightarrow> ('bc, 'jt, 'lg) executor \<Rightarrow> bool"
  for P S E txs w where
  schedule: "\<not> effectful (pcs (workers c) w) \<Longrightarrow> wstep w (workers c) m \<Longrightarrow>
    pstep P S E txs w c (observe w (c\<lparr>workers := m\<rparr>))"
| executed: "pcs (workers c) w = RUN v \<Longrightarrow> observes c w M \<Longrightarrow>
    vm_execute P S E txs M (memory c) db v = Some (Inr (f, r), mv) \<Longrightarrow>
    pstep P S E txs w c
      (observe w (succeed w v f r (c\<lparr>memory := mv, accessed := accessed c \<union> set (vm_locs P S E M db (tx_idx v) (txs ! tx_idx v)),
         touched := touched c \<union> locs_of P S E txs M db (tx_idx v)\<rparr>)))"
| failed: "pcs (workers c) w = RUN v \<Longrightarrow> observes c w M \<Longrightarrow>
    vm_execute P S E txs M (memory c) db v = Some (Inl e, mv) \<Longrightarrow>
    pstep P S E txs w c (observe w (fail w v e (c\<lparr>memory := mv\<rparr>)))"
| recorded: "pcs (workers c) w = RUN_reason \<Longrightarrow> pstep P S E txs w c (observe w (record_reason w c))"
| validated: "pcs (workers c) w = VA v \<Longrightarrow>
    pstep P S E txs w c
      (observe w (jump c w (if validate_read_locations (memory c) (tx_idx v) then FV_done v else VA_abort v)))"
| estimated: "pcs (workers c) w = VA_estimate v \<Longrightarrow>
    pstep P S E txs w c
      (observe w (jump (c\<lparr>memory := convert_writes_to_estimates (memory c) (tx_idx v), finished := finished c - {tx_idx v}\<rparr>) w (FV_ready v)))"

definition executor_step ::
  "('bc, 'jt) revm_api \<Rightarrow> 'jt storage_api \<Rightarrow> ('bc, 'au, 'tx, 'lg) vm_env \<Rightarrow> 'tx list \<Rightarrow>
   ('bc, 'jt, 'lg) executor \<Rightarrow> ('bc, 'jt, 'lg) executor \<Rightarrow> bool" where
  "executor_step P S E txs c c' \<longleftrightarrow> (\<exists>w. pstep P S E txs w c c')"

definition init_executor :: "'bc mv_memory \<Rightarrow> nat \<Rightarrow> nat \<Rightarrow> ('bc, 'jt, 'lg) executor \<Rightarrow> bool" where
  "init_executor mv n k c \<longleftrightarrow> init_machine n k (workers c) \<and> memory c = mv \<and> history c = [mv] \<and> since c = (\<lambda>_. 0) \<and>
     n \<le> length (results c) \<and> aborted_for c = None \<and> accessed c = {} \<and> touched c = {} \<and> finished c = {} \<and> needing c = {}"

abbreviation executor_reaches ::
  "('bc, 'jt) revm_api \<Rightarrow> 'jt storage_api \<Rightarrow> ('bc, 'au, 'tx, 'lg) vm_env \<Rightarrow> 'tx list \<Rightarrow> 'bc mv_memory \<Rightarrow> nat \<Rightarrow>
   ('bc, 'jt, 'lg) executor \<Rightarrow> bool" where
  "executor_reaches P S E txs mv k \<equiv> reaches (init_executor mv (length txs) k) (executor_step P S E txs)"

section \<open>The machine refines the workers\<close>

lemma observe_sel [simp]:
  "workers (observe w c) = workers c" "memory (observe w c) = memory c" "results (observe w c) = results c"
  "pending (observe w c) = pending c" "aborted_for (observe w c) = aborted_for c" "touched (observe w c) = touched c"
  "finished (observe w c) = finished c" "needing (observe w c) = needing c" "accessed (observe w c) = accessed c"
  "history (observe w c) = history c @ [memory c]" "since (observe w c) = (since c)(w := length (history c))"
  by (simp_all add: observe_def)

lemma fail_sel [simp]:
  "memory (fail w v e c) = memory c" "results (fail w v e c) = results c" "aborted_for (fail w v e c) = aborted_for c"
  "touched (fail w v e c) = touched c" "finished (fail w v e c) = finished c" "needing (fail w v e c) = needing c"
  "accessed (fail w v e c) = accessed c" "history (fail w v e c) = history c" "since (fail w v e c) = since c"
  by (cases e; simp add: stop_with_def)+

lemma vm_execute_blocking:
  "vm_execute P S E txs M mv db v = Some (Inl (VmBlocking b), mv') \<Longrightarrow> b < tx_idx v"
  using vm_run_blocking [of P S E M db "tx_idx v" "txs ! tx_idx v"]
  by (auto simp: vm_execute_def vm_commit_def Let_def vm_error_from_iff
      split: prod.splits sum.splits evm_failure.splits if_splits option.splits dest: sym)

lemmas effect_steps = wstep.ex_ok [simplified] wstep.ex_fatal [simplified] wstep.ex_reason [simplified]
  wstep.ex_blocking wstep.ex_inconsistent wstep.va_valid wstep.va_invalid wstep.va_estimate

lemma fail_wstep:
  assumes "pcs (workers c) w = RUN v" "\<And>b. e = VmBlocking b \<Longrightarrow> b < tx_idx v"
  shows "wstep w (workers c) (workers (fail w v e c))"
  using assms by (cases e) (auto simp: stop_with_def intro: effect_steps)

lemma pstep_wstep: "pstep P S E txs w c c' \<Longrightarrow> wstep w (workers c) (workers c')"
proof (induction rule: pstep.induct)
  case (failed c v M db e mv)
  from fail_wstep [of "c\<lparr>memory := mv\<rparr>" w v e] failed vm_execute_blocking show ?case by fastforce
qed (auto simp: succeed_def record_reason_def intro: effect_steps)

lemma executor_workers:
  assumes "executor_reaches P S E txs mv k c"
  shows "reachable (length txs) k (workers c)"
  using assms
proof (induction rule: reaches.induct)
  case (reaches_init s)
  then show ?case by (auto simp: init_executor_def intro: reaches.reaches_init)
next
  case (reaches_step s t)
  then show ?case using pstep_wstep unfolding executor_step_def by (meson mstep_def reaches.reaches_step)
qed

section \<open>The history of the memory\<close>

lemma block_run_below: "block_run P S E txs mv0 L ex mv \<Longrightarrow> ex \<subseteq> {..<length txs}"
  by (induction rule: block_run.induct) auto

text \<open>The memory has the history of a run of the block, every executed transaction is finished in it and its slot is filled.\<close>

definition inv_history ::
  "('bc, 'jt) revm_api \<Rightarrow> 'jt storage_api \<Rightarrow> ('bc, 'au, 'tx, 'lg) vm_env \<Rightarrow> 'tx list \<Rightarrow> 'bc mv_memory \<Rightarrow>
   ('bc, 'jt, 'lg) executor \<Rightarrow> bool" where
  "inv_history P S E txs mv c \<longleftrightarrow>
     block_run P S E txs mv (touched c) (finished c) (memory c) \<and>
     (\<forall>i < length txs. is_executed (status_of (sched (workers c)) i) \<longrightarrow> i \<in> finished c) \<and>
     (\<forall>w v. has_result (pcs (workers c) w) \<longrightarrow> exec_of (pcs (workers c) w) = Some v \<longrightarrow> tx_idx v \<in> finished c)"

definition inv_results :: "'tx list \<Rightarrow> ('bc, 'jt, 'lg) executor \<Rightarrow> bool" where
  "inv_results txs c \<longleftrightarrow> length txs \<le> length (results c) \<and>
     (\<forall>i < length txs. slots (workers c) i \<longrightarrow> results c ! i \<noteq> None) \<and> (aborted_for c = None \<longleftrightarrow> \<not> reason (workers c))"

text \<open>A step keeps what is finished, except for the transaction it turns into estimates.\<close>

lemma finished_kept:
  assumes step: "wstep w m m'" and inv: "inv_workers n m"
    and old: "\<forall>i < n. is_executed (status_of (sched m) i) \<longrightarrow> i \<in> X"
      "\<forall>w v. has_result (pcs m w) \<longrightarrow> exec_of (pcs m w) = Some v \<longrightarrow> tx_idx v \<in> X"
    and new: "X \<subseteq> Y" "\<And>v. pcs m w = RUN v \<Longrightarrow> has_result (pcs m' w) \<Longrightarrow> tx_idx v \<in> Y"
  shows "\<forall>i < n. is_executed (status_of (sched m') i) \<longrightarrow> i \<in> Y"
    "\<forall>w v. has_result (pcs m' w) \<longrightarrow> exec_of (pcs m' w) = Some v \<longrightarrow> tx_idx v \<in> Y"
proof -
  have "inv_m m" "size_of m' = n" using inv wstep_size [OF step] by (simp_all add: inv_workers_def)
  with executed_origin [OF step] old new(1) show "\<forall>i < n. is_executed (status_of (sched m') i) \<longrightarrow> i \<in> Y" by blast
  show "\<forall>w v. has_result (pcs m' w) \<longrightarrow> exec_of (pcs m' w) = Some v \<longrightarrow> tx_idx v \<in> Y"
    using result_origin [OF step] old(2) new by blast
qed

lemma fail_has_no_result: "\<not> has_result (pcs (workers (fail w v e c)) w)"
  by (cases e) (simp_all add: stop_with_def)

lemma inv_history_step:
  assumes step: "pstep P S E txs w c c'" and inv: "inv_workers (length txs) (workers c)" and hist: "inv_history P S E txs mv c"
  shows "inv_history P S E txs mv c'"
proof -
  have run: "block_run P S E txs mv (touched c) (finished c) (memory c)"
    and old: "\<forall>i < length txs. is_executed (status_of (sched (workers c)) i) \<longrightarrow> i \<in> finished c"
      "\<forall>w v. has_result (pcs (workers c) w) \<longrightarrow> exec_of (pcs (workers c) w) = Some v \<longrightarrow> tx_idx v \<in> finished c"
    using hist by (simp_all add: inv_history_def)
  note ws = pstep_wstep [OF step]
  have im: "inv_m (workers c)" and size: "size_of (workers c) = length txs" using inv by (simp_all add: inv_workers_def)
  have bound: "tx_idx v < length txs" if "pcs (workers c) w = RUN v" for v
    using exec_of_bound(1) [OF im, of w v] that size by simp
  have kept: "inv_history P S E txs mv c'" if "block_run P S E txs mv (touched c') (finished c') (memory c')"
    "finished c \<subseteq> finished c'" "\<And>v. pcs (workers c) w = RUN v \<Longrightarrow> has_result (pcs (workers c') w) \<Longrightarrow> tx_idx v \<in> finished c'"
    using that(1) finished_kept [OF ws inv old that(2,3)] unfolding inv_history_def by blast
  from step show ?thesis
  proof cases
    case (schedule m)
    show ?thesis by (rule kept) (use schedule run in auto)
  next
    case (executed v M db f r mv')
    have "block_run P S E txs mv (touched c \<union> locs_of P S E txs M db (tx_idx v)) (insert (tx_idx v) (finished c)) mv'"
      by (rule block_run.executed [OF block_run_mono [OF run] bound [OF executed(2)] _ executed(4)]) (auto simp: locs_of_def)
    then show ?thesis by (intro kept) (use executed(1,2) in \<open>auto simp: succeed_def\<close>)
  next
    case (failed v M db e mv')
    show ?thesis by (rule kept)
      (use failed(1,2) block_run.failed [OF run bound [OF failed(2)] failed(4)] fail_has_no_result in auto)
  next
    case recorded
    show ?thesis by (rule kept) (use recorded run in \<open>auto simp: record_reason_def\<close>)
  next
    case (validated v)
    show ?thesis by (rule kept) (use validated run in auto)
  next
    case (estimated v)
    from abort_of_bound [OF im, of "tx_idx v" w] estimated(2) size
    have i: "tx_idx v < length txs" "status_of (sched (workers c)) (tx_idx v) = Aborting" by simp_all
    have "tx_idx u \<noteq> tx_idx v" if "exec_of (pcs (workers c) x) = Some u" for x u
      using exec_of_bound(2) [OF im that] i(2) by auto
    with old i estimated(1) block_run.aborted [OF run i(1)] show ?thesis
      by (auto simp: inv_history_def is_executed_def)
  qed
qed

lemma inv_results_step:
  assumes step: "pstep P S E txs w c c'" and inv: "inv_workers (length txs) (workers c)" and res: "inv_results txs c"
  shows "inv_results txs c'"
proof -
  have keep: "slots (workers c') = slots (workers c)" "reason (workers c') = reason (workers c)"
    if "\<not> effectful (pcs (workers c) w)"
    using pstep_wstep [OF step] that by (cases; simp)+
  from step show ?thesis
  proof cases
    case (schedule m)
    with keep res show ?thesis by (auto simp: inv_results_def)
  next
    case (executed v M db f r mv)
    with res show ?thesis by (auto simp: inv_results_def succeed_def nth_list_update)
  next
    case (failed v M db e mv)
    have "slots (workers (fail w v e (c\<lparr>memory := mv\<rparr>))) = slots (workers c)" "reason (workers (fail w v e (c\<lparr>memory := mv\<rparr>))) = reason (workers c)"
      by (cases e; simp add: stop_with_def)+
    with res failed(1) show ?thesis by (simp add: inv_results_def)
  next
    case recorded
    with res show ?thesis by (auto simp: inv_results_def record_reason_def split: option.splits)
  qed (use res in \<open>auto simp: inv_results_def\<close>)
qed

definition inv_executor ::
  "('bc, 'jt) revm_api \<Rightarrow> 'jt storage_api \<Rightarrow> ('bc, 'au, 'tx, 'lg) vm_env \<Rightarrow> 'tx list \<Rightarrow> 'bc mv_memory \<Rightarrow>
   ('bc, 'jt, 'lg) executor \<Rightarrow> bool" where
  "inv_executor P S E txs mv c \<longleftrightarrow>
     inv_workers (length txs) (workers c) \<and> inv_history P S E txs mv c \<and> inv_results txs c"

interpretation executor_run: invariant_system "init_executor mv (length txs) k" "executor_step P S E txs" "inv_executor P S E txs mv"
  for P S E txs mv k
proof
  fix c :: "('a, 'b, 'c) executor"
  assume init: "init_executor mv (length txs) k c"
  then have "inv_workers (length txs) (workers c)" and st: "sched (workers c) = new_scheduler (length txs)"
    by (auto simp: init_executor_def init_machine_def inv_workers_init)
  moreover have "inv_history P S E txs mv c"
    using init by (auto simp: inv_history_def init_executor_def init_machine_def new_scheduler_def is_executed_def intro: block_run.start)
  moreover have "inv_results txs c"
    using init by (auto simp: inv_results_def init_executor_def init_machine_def)
  ultimately show "inv_executor P S E txs mv c" by (simp add: inv_executor_def)
next
  fix c c' :: "('a, 'b, 'c) executor"
  assume "inv_executor P S E txs mv c" "executor_step P S E txs c c'"
  then show "inv_executor P S E txs mv c'"
    using inv_history_step inv_results_step inv_workers_step pstep_wstep
    unfolding inv_executor_def executor_step_def mstep_def by meson
qed

lemma executor_invariant:
  assumes "executor_reaches P S E txs mv k c"
  shows "inv_history P S E txs mv c" "inv_results txs c"
  using executor_run.inv_reaches [OF assms] by (simp_all add: inv_executor_def)

section \<open>Parallel blocks return\<close>

context reward_chain
begin

lemma joined_block_returns:
  assumes run: "executor_reaches P S E txs (build (ve_beneficiary E) txs) k c" "\<forall>w. pcs (workers c) w = Exited"
    and "ve_rewards E = rewards" "kinds_separated P (touched c) (lazy_addresses (memory c))"
    and abort: "aborted_for c \<noteq> Some AbortFallback"
  shows "\<exists>r. finish_parallel P S blob_gas V s eip161 (ve_tx_env E) txs (aborted_for c, results c, memory c) = Some r"
proof (cases "aborted_for c")
  case None
  note inv = executor_invariant [OF run(1)]
  from inv(2) None have "\<not> reason (workers c)" by (simp add: inv_results_def)
  from joined_workers_executed [OF executor_workers [OF run(1)] run(2) this] inv
  have fin: "{..<length txs} \<subseteq> finished c" and filled: "\<forall>j < length txs. 0 + j < length (results c) \<and> results c ! (0 + j) \<noteq> None"
    by (auto simp: inv_history_def inv_results_def)
  have "finished c \<subseteq> {..<length txs}"
    using block_run_below inv(1) unfolding inv_history_def by blast
  with fin inv(1) have "block_run P S E txs (build (ve_beneficiary E) txs) (touched c) {..<length txs} (memory c)"
    by (auto simp: inv_history_def)
  from executed_block_evaluates [OF this assms(3,4)]
  have ev: "\<exists>r. evaluate_lazy P S blob_gas (map (ve_tx_env E) txs) eip161 (memory c) (lazy_addresses (memory c)) out = Some r" for out
    by blast
  from collect_results_total [OF filled, of 0] obtain out rs where "collect_results (length txs) 0 0 (results c) = Some (out, rs)" by auto
  with ev [of out] None show ?thesis by (auto simp: finish_parallel_def consume_lazy_addresses_def)
next
  case (Some r)
  with abort show ?thesis by (cases r) (auto simp: finish_parallel_def)
qed

end


text \<open>The same for RISE.\<close>

lemma rise_parallel_block_returns:
  assumes "executor_reaches P S E txs (rise_build_mv_memory P Q (ve_beneficiary E) txs) k c" "\<forall>w. pcs (workers c) w = Exited"
    and "ve_rewards E = rise_get_rewards P Q" "kinds_separated P (touched c) (lazy_addresses (memory c))"
    and "aborted_for c \<noteq> Some AbortFallback"
  shows "\<exists>r. finish_parallel P S blob_gas V s eip161 (ve_tx_env E) txs (aborted_for c, results c, memory c) = Some r"
  using assms by (rule rise.joined_block_returns)

section \<open>Sample runs\<close>

text \<open>Steps that do not touch the memory run as on the workers alone.\<close>

fun run_quiet :: "nat list \<Rightarrow> machine \<Rightarrow> machine option" where
  "run_quiet [] m = Some m"
| "run_quiet (w # ws) m =
     (if effectful (pcs m w) then None else case do_step w Go m of None \<Rightarrow> None | Some m' \<Rightarrow> run_quiet ws m')"

lemma current_in_history:
  assumes "executor_reaches P S E txs mv k c"
  shows "history c \<noteq> [] \<and> last (history c) = memory c \<and> (\<forall>w. since c w < length (history c))"
  using assms
proof (induction rule: reaches.induct)
  case (reaches_step s t)
  then obtain w c' where "t = observe w c'" "history c' = history s" "since c' = since s"
    by (auto simp: executor_step_def succeed_def record_reason_def elim!: pstep.cases)
  with reaches_step.IH show ?case by (auto simp: less_Suc_eq)
qed (auto simp: init_executor_def)

text \<open>An execution in one go that begins and ends on the present memory.\<close>

lemma observes_current:
  assumes "executor_reaches P S E txs mv k c" shows "observes c w (\<lambda>_. memory c)"
proof -
  from current_in_history [OF assms] have "history c \<noteq> []" "last (history c) = memory c" "since c w < length (history c)" by auto
  then show ?thesis unfolding observes_def
    by (intro exI [of _ "\<lambda>_. length (history c) - 1"]) (auto simp: mono_def last_conv_nth)
qed

lemma quiet_executor:
  assumes "run_quiet ws (workers c) = Some m" "executor_reaches P S E txs mv k c"
  obtains c' where "executor_reaches P S E txs mv k c'" "workers c' = m" "memory c' = memory c" "results c' = results c"
    "aborted_for c' = aborted_for c" "touched c' = touched c" "needing c' = needing c" "accessed c' = accessed c"
  using assms
proof (induction ws arbitrary: c thesis)
  case Nil
  from Nil.prems(1) [of c] Nil.prems(2,3) show ?case by simp
next
  case (Cons w ws)
  from Cons.prems(2) obtain m1 where m1: "\<not> effectful (pcs (workers c) w)" "do_step w Go (workers c) = Some m1" "run_quiet ws m1 = Some m"
    by (auto split: if_splits option.splits)
  let ?c = "observe w (c\<lparr>workers := m1\<rparr>)"
  have r: "executor_reaches P S E txs mv k ?c"
    using reaches.reaches_step [OF Cons.prems(3)] pstep.schedule [OF m1(1) do_step_wstep [OF m1(2)]]
    unfolding executor_step_def by blast
  from m1(3) have q: "run_quiet ws (workers ?c) = Some m" by simp
  from Cons.IH [OF _ q r] obtain c' where c': "executor_reaches P S E txs mv k c'" "workers c' = m" "memory c' = memory ?c"
    "results c' = results ?c" "aborted_for c' = aborted_for ?c" "touched c' = touched ?c" "needing c' = needing ?c"
    "accessed c' = accessed ?c" by blast
  show ?case by (rule Cons.prems(1) [OF c'(1,2)]) (use c' in simp_all)
qed

lemma execute_executor:
  assumes "executor_reaches P S E txs mv k c" "pcs (workers c) w = RUN v"
    and "vm_execute P S E txs (\<lambda>_. memory c) (memory c) db v = Some (Inr (f, r), mv')"
  obtains c' where "executor_reaches P S E txs mv k c'" "memory c' = mv'" "results c' = (results c)[tx_idx v := Some r]"
    "workers c' = goto ((workers c)\<lparr>slots := (slots (workers c))(tx_idx v := True)\<rparr>) w (FE_lock v f)"
    "aborted_for c' = aborted_for c" "touched c' = touched c \<union> locs_of P S E txs (\<lambda>_. memory c) db (tx_idx v)"
    "needing c' = (if needs_validation f then insert (tx_idx v) (needing c) else needing c - {tx_idx v})"
    "accessed c' = accessed c \<union> set (vm_locs P S E (\<lambda>_. memory c) db (tx_idx v) (txs ! tx_idx v))"
proof -
  let ?c = "observe w (succeed w v f r (c\<lparr>memory := mv',
    accessed := accessed c \<union> set (vm_locs P S E (\<lambda>_. memory c) db (tx_idx v) (txs ! tx_idx v)),
    touched := touched c \<union> locs_of P S E txs (\<lambda>_. memory c) db (tx_idx v)\<rparr>))"
  have "executor_reaches P S E txs mv k ?c"
    using reaches.reaches_step [OF assms(1)] pstep.executed [OF assms(2) observes_current [OF assms(1)] assms(3)]
    unfolding executor_step_def by blast
  then show thesis by (rule that) (auto simp: succeed_def)
qed

lemma validate_executor:
  assumes "executor_reaches P S E txs mv k c" "pcs (workers c) w = VA v" "validate_read_locations (memory c) (tx_idx v)"
  obtains c' where "executor_reaches P S E txs mv k c'" "memory c' = memory c" "results c' = results c"
    "workers c' = goto (workers c) w (FV_done v)" "aborted_for c' = aborted_for c" "touched c' = touched c"
    "needing c' = needing c" "accessed c' = accessed c"
proof -
  have "executor_reaches P S E txs mv k (observe w (jump c w (FV_done v)))"
    using reaches.reaches_step [OF assms(1)] pstep.validated [OF assms(2), of P S E txs] assms(3)
    unfolding executor_step_def by fastforce
  then show thesis by (rule that) simp_all
qed

definition new_executor :: "'bc mv_memory \<Rightarrow> nat \<Rightarrow> nat \<Rightarrow> ('bc, 'jt, 'lg) executor" where
  "new_executor mv n k =
     \<lparr>workers = start_machine n k, memory = mv, history = [mv], since = (\<lambda>_. 0), results = grow_to [] n,
      pending = (\<lambda>_. AbortFallback), aborted_for = None, accessed = {}, touched = {}, finished = {}, needing = {}\<rparr>"

lemma new_executor_reaches: "0 < k \<Longrightarrow> executor_reaches P S E txs mv k (new_executor mv (length txs) k)"
  by (rule reaches.reaches_init) (auto simp: init_executor_def new_executor_def start_machine_def init_machine_def grow_to_def)

text \<open>A block with the first transaction of the sample only, executed by one worker.\<close>

definition solo_mv :: "sample_code mv_memory" where
  "solo_mv = eth_build_mv_memory sample_api 99 [0 :: nat]"

abbreviation first_version :: "nat \<Rightarrow> tx_version" where
  "first_version i \<equiv> \<lparr>tx_idx = i, tx_incarnation = 0\<rparr>"

lemma locs_touched: "locs_of sample_api S E txs M db i = set (touched_locs (vm_run sample_api S E M db i (txs ! i)))"
  by (simp add: locs_of_def touched_locs_def split: prod.splits sum.splits)

lemma solo_step:
  "\<exists>res mv. vm_execute sample_api sample_storage eth_env [0 :: nat] (\<lambda>_. solo_mv) solo_mv sample_db (first_version 0)
       = Some (Inr (WroteNewLocation, res), mv) \<and> lazy_addresses mv = [99] \<and>
     touched_locs (vm_run sample_api sample_storage eth_env (\<lambda>_. solo_mv) sample_db 0 0) =
       [LocBasic 10, LocCodeHash 10, LocBasic 50, LocCodeHash 50, LocStorage 50 1]"
  by (simp add: solo_mv_def eth_build_mv_memory_def touched_locs_def state_locs_def vm_execute_defs vm_run_defs sample_defs
      eth_env_def eth_get_rewards_def saturating_mul_def flags_union_def flags_empty_def WroteNewLocation_def)

definition solo_running :: machine where
  "solo_running = the (run_quiet (replicate 5 0) (start_machine 1 1))"

definition solo_joined :: machine where
  "solo_joined = the (run_quiet (replicate 10 0)
     (goto (solo_running\<lparr>slots := (slots solo_running)(0 := True)\<rparr>) 0 (FE_lock (first_version 0) WroteNewLocation)))"

lemma solo_machine:
  "run_quiet (replicate 5 0) (start_machine 1 1) = Some solo_running" "pcs solo_running 0 = RUN (first_version 0)"
  "run_quiet (replicate 10 0)
     (goto (solo_running\<lparr>slots := (slots solo_running)(0 := True)\<rparr>) 0 (FE_lock (first_version 0) WroteNewLocation)) = Some solo_joined"
  "pcs solo_joined 0 = Exited"
proof -
  have *: "run_quiet (replicate 5 0) (start_machine 1 1) \<noteq> None" by code_simp
  then show "run_quiet (replicate 5 0) (start_machine 1 1) = Some solo_running" by (simp add: solo_running_def)
  show "pcs solo_running 0 = RUN (first_version 0)" unfolding solo_running_def by code_simp
  have "run_quiet (replicate 10 0)
     (goto (solo_running\<lparr>slots := (slots solo_running)(0 := True)\<rparr>) 0 (FE_lock (first_version 0) WroteNewLocation)) \<noteq> None"
    unfolding solo_running_def by code_simp
  then show "run_quiet (replicate 10 0)
     (goto (solo_running\<lparr>slots := (slots solo_running)(0 := True)\<rparr>) 0 (FE_lock (first_version 0) WroteNewLocation)) = Some solo_joined"
    by (simp add: solo_joined_def)
  show "pcs solo_joined 0 = Exited" unfolding solo_joined_def solo_running_def by code_simp
qed

lemma quiet_frame: "run_quiet ws m = Some m' \<Longrightarrow> x \<notin> set ws \<Longrightarrow> pcs m' x = pcs m x"
proof (induction ws arbitrary: m)
  case (Cons w ws)
  then obtain m1 where "do_step w Go m = Some m1" "run_quiet ws m1 = Some m'" by (auto split: if_splits option.splits)
  with Cons do_step_frame show ?case by force
qed simp


end
