(* ===== verification/Revalidation.thy ===== *)
theory Revalidation
  imports Parallel
begin

text \<open>
  What the validation index is for: at the end of a run every transaction whose last execution asked for validation has a
  read set that is valid in the final memory. While the workers run, an executed transaction may be invalid only as
  long as its validation is outstanding: the validation index is not above it, or some worker is going to
  validate it or to lower the validation index below it.
\<close>

section \<open>Outstanding validations\<close>

text \<open>The workers that are going to validate a transaction, or to have it validated.\<close>

fun covers :: "pc \<Rightarrow> tx_idx \<Rightarrow> bool" where
  "covers (NT_lock_val j) i = (i = j)"
| "covers (VA v) i = (i = tx_idx v)"
| "covers (Ret (Some (Validation v))) i = (i = tx_idx v)"
| "covers (VA_abort v) i = (i = tx_idx v)"
| "covers (FV_ready v) i = (tx_idx v < i)"
| "covers (FV_fetch v) i = (tx_idx v < i)"
| "covers (FE_lock v f) i = (wrote_new_location f \<and> tx_idx v < i)"
| "covers (FE_resume v f ds) i = (wrote_new_location f \<and> tx_idx v < i)"
| "covers (FE_fetch v f d ds) i = (wrote_new_location f \<and> tx_idx v < i)"
| "covers (FE_min v f) i = (wrote_new_location f \<and> tx_idx v < i)"
| "covers (FE_val_min v f mv) i = (mv \<le> i)"
| "covers (FE_val v f) i = (wrote_new_location f \<and> tx_idx v < i)"
| "covers (FE_val_next v f) i = (tx_idx v < i)"
| "covers _ i = False"

definition outstanding :: "machine \<Rightarrow> tx_idx \<Rightarrow> bool" where
  "outstanding m i \<longleftrightarrow> validation_idx (sched m) \<le> i \<or> (\<exists>w. covers (pcs m w) i)"

text \<open>The execution a worker is finishing, and whether it has decided where to validate from.\<close>

fun finishing :: "pc \<Rightarrow> (tx_version \<times> finish_exec_flags) option" where
  "finishing (FE_lock v f) = Some (v, f)"
| "finishing (FE_resume v f ds) = Some (v, f)"
| "finishing (FE_fetch v f d ds) = Some (v, f)"
| "finishing (FE_min v f) = Some (v, f)"
| "finishing (FE_val_min v f mv) = Some (v, f)"
| "finishing (FE_val v f) = Some (v, f)"
| "finishing (FE_val_next v f) = Some (v, f)"
| "finishing (FE_between v f) = Some (v, f)"
| "finishing (FE_settle v f) = Some (v, f)"
| "finishing _ = None"

fun decided :: "pc \<Rightarrow> bool" where
  "decided (FE_val_min v f mv) = True"
| "decided (FE_val v f) = True"
| "decided (FE_val_next v f) = True"
| "decided (FE_between v f) = True"
| "decided (FE_settle v f) = True"
| "decided _ = False"

text \<open>
  A worker that has decided not to validate its transaction itself, although that needs validation, has found
  the validation index at or below it; since it holds the status mutex, a worker that has taken the index since then
  is still waiting for the mutex.
\<close>

definition inv_decided :: "machine \<Rightarrow> bool" where
  "inv_decided m \<longleftrightarrow>
     (\<forall>w v f. decided (pcs m w) \<longrightarrow> finishing (pcs m w) = Some (v, f) \<longrightarrow> needs_validation f \<longrightarrow> min_validation_idx (sched m) \<le> tx_idx v) \<and>
     (\<forall>w v f mv. pcs m w = FE_val_min v f mv \<longrightarrow> \<not> needs_validation f) \<and>
     (\<forall>w v f. pcs m w = FE_settle v f \<longrightarrow> needs_validation f \<longrightarrow>
        validation_idx (sched m) \<le> tx_idx v \<or> (\<exists>x. pcs m x = NT_lock_val (tx_idx v)))"

lemma finishing_exec: "finishing p = Some (v, f) \<Longrightarrow> exec_of p = Some v \<and> has_result p"
  by (cases p) auto

lemma has_result_finishing: "has_result p \<Longrightarrow> exec_of p = Some v \<Longrightarrow> \<exists>f. finishing p = Some (v, f)"
  by (cases p) auto

lemma task_pc_quiet [simp]: "\<not> decided (task_pc t)" "finishing (task_pc t) = None" "task_pc t \<noteq> NT_lock_val i" "task_pc t \<noteq> FE_settle v f"
  "task_pc t \<noteq> FE_val_min v f mv" "covers (task_pc t) i = covers (Ret (Some t)) i"
  by (cases t; simp)+

lemmas step_simps = index_defs status_defs branch_defs Let_def
lemmas step_splits = if_splits incarnation_status.splits option.splits validation_pick.splits

text \<open>The index passes a transaction only in the hands of a worker that is going to lock it.\<close>

lemma validation_idx_step:
  assumes step: "wstep w m m'" and "i < size_of m" "validation_idx (sched m) \<le> i"
  shows "validation_idx (sched m') \<le> i \<or> pcs m' w = NT_lock_val i"
  using step assms(2,3) by cases (auto simp: step_simps split: step_splits)

lemma covers_step:
  assumes step: "wstep w m m'" and i: "i < size_of m" "i < length (transactions_status (sched m))" "covers (pcs m w) i"
    and m: "min_validation_idx (sched m) \<le> i" "is_executed (status_of (sched m') i)" "\<not> reason m"
    and no: "\<And>v. tx_idx v = i \<Longrightarrow> pcs m w = VA v \<Longrightarrow> pcs m' w \<noteq> FV_done v"
  shows "validation_idx (sched m') \<le> i \<or> covers (pcs m' w) i"
  using step i m no by cases (auto simp: step_simps is_executed_def nth_upd [OF i(2)] split: step_splits)

lemma outstanding_step:
  assumes step: "wstep w m m'" and inv: "inv_m m" and i: "i < size_of m" "outstanding m i"
    and m: "min_validation_idx (sched m) \<le> i" "is_executed (status_of (sched m') i)" "\<not> reason m"
    and no: "\<And>v. tx_idx v = i \<Longrightarrow> pcs m w = VA v \<Longrightarrow> pcs m' w \<noteq> FV_done v"
  shows "outstanding m' i"
proof -
  have len: "i < length (transactions_status (sched m))" using i inv by (simp add: inv_m_def inv_shape_def)
  consider "validation_idx (sched m) \<le> i" | "covers (pcs m w) i" | x where "x \<noteq> w" "covers (pcs m x) i"
    using i(2) unfolding outstanding_def by metis
  then show ?thesis
  proof cases
    case 1
    from validation_idx_step [OF step i(1) this] show ?thesis by (metis outstanding_def covers.simps(1))
  next
    case 2
    from covers_step [OF step i(1) len this m no] show ?thesis by (auto simp: outstanding_def)
  next
    case 3
    with wstep_frame [OF step, of x] show ?thesis unfolding outstanding_def by metis
  qed
qed

text \<open>What makes a transaction executed, and that its validation is then outstanding.\<close>

lemma newly_executed:
  assumes step: "wstep w m m'" and inv: "inv_m m" and dec: "inv_decided m" and i: "i < size_of m"
    and st: "\<not> is_executed (status_of (sched m) i)" "is_executed (status_of (sched m') i)"
  obtains v f where "finishing (pcs m w) = Some (v, f)" "tx_idx v = i"
    "needs_validation f \<Longrightarrow> min_validation_idx (sched m') \<le> i \<and> outstanding m' i"
proof -
  have len: "i < length (transactions_status (sched m))" using i inv by (simp add: inv_m_def inv_shape_def)
  have again: "inv_again m" using inv by (simp add: inv_m_def)
  have "\<exists>v f. decided (pcs m w) \<and> finishing (pcs m w) = Some (v, f) \<and> tx_idx v = i \<and>
      (needs_validation f \<longrightarrow> pcs m w = FE_settle v f \<or> covers (pcs m' w) i)"
    using step st again by cases (auto simp: step_simps nth_upd [OF len] is_executed_def inv_again_def split: step_splits)
  then obtain v f where vf: "decided (pcs m w)" "finishing (pcs m w) = Some (v, f)" "tx_idx v = i"
    "needs_validation f \<Longrightarrow> pcs m w = FE_settle v f \<or> covers (pcs m' w) i" by blast
  have "min_validation_idx (sched m') \<le> i" if "needs_validation f"
    using dec vf that wstep_min [OF step] unfolding inv_decided_def by (meson le_trans)
  moreover have "outstanding m' i" if need: "needs_validation f"
  proof (cases "pcs m w = FE_settle v f")
    case True
    with dec need vf(3) have "validation_idx (sched m) \<le> i \<or> (\<exists>x. pcs m x = NT_lock_val i)"
      unfolding inv_decided_def by blast
    moreover have "validation_idx (sched m') = validation_idx (sched m)" "\<And>x. pcs m x = NT_lock_val i \<Longrightarrow> pcs m' x = NT_lock_val i"
      using step True by (cases; auto simp: step_simps)+
    ultimately show ?thesis unfolding outstanding_def by (metis covers.simps(1))
  qed (use vf(4) need in \<open>auto simp: outstanding_def\<close>)
  ultimately show thesis using that vf by blast
qed

lemma inv_decided_step:
  assumes step: "wstep w m m'" and inv: "inv_m m" and dec: "inv_decided m"
  shows "inv_decided m'"
proof -
  have lk: "inv_lock m" using inv by (simp add: inv_m_def)
  have own: "decided (pcs m' w) \<Longrightarrow> finishing (pcs m' w) = Some (v, f) \<Longrightarrow> needs_validation f \<Longrightarrow> min_validation_idx (sched m') \<le> tx_idx v"
    "pcs m' w = FE_val_min v f mv \<Longrightarrow> \<not> needs_validation f"
    "pcs m' w = FE_settle v f \<Longrightarrow> needs_validation f \<Longrightarrow> validation_idx (sched m') \<le> tx_idx v" for v f mv
  proof -
    have d: "decided (pcs m w) \<Longrightarrow> finishing (pcs m w) = Some (v, f) \<Longrightarrow> needs_validation f \<Longrightarrow> min_validation_idx (sched m) \<le> tx_idx v"
      "pcs m w = FE_val_min v f mv \<Longrightarrow> \<not> needs_validation f" for mv
      using dec unfolding inv_decided_def by blast+
    note b = exec_of_bound(1) [OF inv, of w]
    show "min_validation_idx (sched m') \<le> tx_idx v"
      if "decided (pcs m' w)" "finishing (pcs m' w) = Some (v, f)" "needs_validation f"
      using step that d by cases (auto simp: step_simps split: step_splits)
    show "\<not> needs_validation f" if "pcs m' w = FE_val_min v f mv"
      using step that by cases (auto simp: step_simps split: step_splits)
    show "validation_idx (sched m') \<le> tx_idx v" if "pcs m' w = FE_settle v f" "needs_validation f"
      using step that d b by cases (auto simp: step_simps split: step_splits)
  qed
  have wait: "pcs m' x = NT_lock_val j" if "pcs m x = NT_lock_val j" "locks m j \<noteq> None" for x j
  proof (cases "x = w")
    case True
    from step that True show ?thesis by cases auto
  qed (use that wstep_frame [OF step, of x] in simp)
  have "min_validation_idx (sched m') \<le> tx_idx v" if "decided (pcs m' x)" "finishing (pcs m' x) = Some (v, f)" "needs_validation f" for x v f
  proof (cases "x = w")
    case False
    with that wstep_frame [OF step] have "decided (pcs m x)" "finishing (pcs m x) = Some (v, f)" by simp_all
    with dec that(3) have "min_validation_idx (sched m) \<le> tx_idx v" unfolding inv_decided_def by blast
    with wstep_min [OF step] show ?thesis by linarith
  qed (use own(1) that in blast)
  moreover have "\<not> needs_validation f" if "pcs m' x = FE_val_min v f mv" for x v f mv
    using that own(2) wstep_frame [OF step, of x] dec unfolding inv_decided_def by metis
  moreover have "validation_idx (sched m') \<le> tx_idx v \<or> (\<exists>x. pcs m' x = NT_lock_val (tx_idx v))"
    if x: "pcs m' x = FE_settle v f" "needs_validation f" for x v f
  proof (cases "x = w")
    case False
    with x wstep_frame [OF step] have x': "pcs m x = FE_settle v f" by simp
    then have "locks m (tx_idx v) \<noteq> None" "tx_idx v < size_of m"
      using inv_lockD [OF lk, of "tx_idx v" x] exec_of_bound(1) [OF inv, of x v] by auto
    with dec x' x(2) wait validation_idx_step [OF step] show ?thesis unfolding inv_decided_def by metis
  qed (use own(3) x in blast)
  ultimately show ?thesis unfolding inv_decided_def by blast
qed

section \<open>Workers do not leave validations behind\<close>

text \<open>A worker that will load the validation index again before it may exit.\<close>

fun reloads :: "pc \<Rightarrow> bool" where
  "reloads Exited = False"
| "reloads NT_num = False"
| "reloads (NT_min nv) = False"
| "reloads _ = True"

definition inv_reload :: "machine \<Rightarrow> bool" where
  "inv_reload m \<longleftrightarrow> aborted (sched m) \<or> size_of m \<le> validation_idx (sched m) \<or> (\<exists>w. reloads (pcs m w))"

lemma reloads_task [simp]: "reloads (task_pc t)"
  by (cases t) simp_all

lemma inv_reload_step:
  assumes step: "wstep w m m'" and rs: "inv_reason m" and rl: "inv_reload m"
  shows "inv_reload m'"
proof (rule ccontr)
  assume "\<not> inv_reload m'"
  then have ab: "\<not> aborted (sched m')" and vi: "validation_idx (sched m') < size_of m" and no: "\<And>x. \<not> reloads (pcs m' x)"
    by (auto simp: inv_reload_def wstep_size [OF step])
  have ab': "\<not> aborted (sched m)" "\<not> reason m"
    using ab wstep_aborted(1) [OF step] rs by (auto simp: inv_reason_def)
  have "validation_idx (sched m) < size_of m"
    using step vi no [of w] by cases (auto simp: step_simps split: step_splits)
  then obtain x where "reloads (pcs m x)" using rl ab' by (auto simp: inv_reload_def)
  with no [of x] wstep_frame [OF step, of x] have lw: "reloads (pcs m w)" by metis
  have "reloads (pcs m' w)"
    using step lw ab' vi by cases (auto simp: step_simps split: step_splits)
  with no show False by blast
qed

text \<open>Where the result of a transaction is while it counts: executed, being finished, or about to be turned into estimates.\<close>

definition published :: "machine \<Rightarrow> tx_idx \<Rightarrow> bool" where
  "published m i \<longleftrightarrow> is_executed (status_of (sched m) i) \<or> (\<exists>w v f. finishing (pcs m w) = Some (v, f) \<and> tx_idx v = i) \<or>
     (\<exists>w v. pcs m w = VA_estimate v \<and> tx_idx v = i)"

lemma published_step:
  assumes step: "wstep w m m'" and i: "i < size_of m" "inv_m m" "published m i"
    and no: "\<And>v. pcs m w = VA_estimate v \<Longrightarrow> tx_idx v \<noteq> i"
  shows "published m' i"
proof -
  have len: "i < length (transactions_status (sched m))" using i by (simp add: inv_m_def inv_shape_def)
  consider "is_executed (status_of (sched m) i)" | v f where "finishing (pcs m w) = Some (v, f)" "tx_idx v = i"
    | x where "x \<noteq> w" "(\<exists>v f. finishing (pcs m x) = Some (v, f) \<and> tx_idx v = i) \<or> (\<exists>v. pcs m x = VA_estimate v \<and> tx_idx v = i)"
    using i(3) no unfolding published_def by metis
  then show ?thesis
  proof cases
    case 1
    have "is_executed (status_of (sched m') i) \<or> (\<exists>v. pcs m' w = VA_estimate v \<and> tx_idx v = i)"
      using step 1 len exec_of_bound(2) [OF i(2), of w] abort_of_bound(2) [OF i(2), where w = w]
      by cases (auto simp: step_simps nth_upd [OF len] is_executed_def split: step_splits)
    then show ?thesis unfolding published_def by blast
  next
    case 2
    have "is_executed (status_of (sched m') i) \<or> finishing (pcs m' w) = Some (v, f)"
      using step 2 len by cases (auto simp: step_simps nth_upd [OF len] is_executed_def split: step_splits)
    with 2 show ?thesis unfolding published_def by blast
  next
    case 3
    with wstep_frame [OF step, of x] show ?thesis unfolding published_def by metis
  qed
qed

text \<open>A transaction that is about to run has no published result.\<close>

lemma running_unpublished:
  assumes inv: "inv_m m" and run: "pcs m w = RUN v"
  shows "\<not> published m (tx_idx v)"
proof
  assume "published m (tx_idx v)"
  moreover have st: "status_of (sched m) (tx_idx v) = Executing" using exec_of_bound(2) [OF inv, of w v] run by simp
  moreover have "pcs m x \<noteq> VA_estimate u" if "tx_idx u = tx_idx v" for x u
    using abort_of_bound(2) [OF inv, of "tx_idx u" x] st that by auto
  ultimately obtain x u f where x: "finishing (pcs m x) = Some (u, f)" "tx_idx u = tx_idx v"
    unfolding published_def by (auto simp: is_executed_def)
  then have "exec_of (pcs m x) = Some u" using finishing_exec by blast
  moreover have "exec_of (pcs m w) = Some v" using run by simp
  ultimately have "x = w" using inv x(2) by (auto simp: inv_m_def inv_lc_def inv_run_def)
  with x run show False by simp
qed

section \<open>Reads that stay valid\<close>

lemma origins_match_over_estimates:
  assumes "origins_match t i os" "\<And>k. k < i \<Longrightarrow> t' k = t k \<or> t k = Some Estimate"
  shows "origins_match t' i os"
  using assms
proof (induction t i os rule: origins_match.induct)
  case (2 t i v os)
  from 2(2) obtain k x where nb: "next_back t i = Some (k, Data (tx_incarnation v) x)" and k: "k = tx_idx v" "origins_match t k os"
    by (auto split: option.splits memory_entry.splits)
  from nb have t: "k < i" "t k = Some (Data (tx_incarnation v) x)" "\<And>j. k < j \<Longrightarrow> j < i \<Longrightarrow> t j = None"
    by (auto simp: next_back_Some_iff)
  with 2(3) have "t' k = Some (Data (tx_incarnation v) x)" "\<And>j. k < j \<Longrightarrow> j < i \<Longrightarrow> t' j = None" by force+
  with t(1) have "next_back t' i = Some (k, Data (tx_incarnation v) x)" by (auto simp: next_back_Some_iff)
  with 2(1) [OF nb] k 2(3) t(1) show ?case by auto
next
  case (3 t i os)
  then have "next_back t i = None" "origins_match t i os" by (auto split: option.splits)
  moreover from this 3(3) have "next_back t' i = None" by (force simp: next_back_None_iff)
  ultimately show ?case using 3 by simp
qed simp

lemma location_valid_kept:
  assumes "location_valid d i (h, os)" "d h \<noteq> None \<Longrightarrow> d' h \<noteq> None"
    and "\<And>k. k < i \<Longrightarrow> table_entry d' h k = table_entry d h k \<or> table_entry d h k = Some Estimate"
  shows "location_valid d' i (h, os)"
proof (cases "d h")
  case None
  with assms(1) have os: "os = [StorageOrigin]" by (cases os) (auto simp: location_valid_def)
  have "table_entry d' h k = None" if "k < i" for k using assms(3) [OF that] None by (simp add: table_entry_def)
  then have "next_back t i = None" if "d' h = Some t" for t using that by (auto simp: next_back_None_iff table_entry_def)
  with os show ?thesis by (auto simp: location_valid_def split: option.splits)
next
  case (Some t)
  with assms(2) obtain t' where t': "d' h = Some t'" by auto
  have "origins_match t' i os"
    by (rule origins_match_over_estimates [of t]) (use assms(1,3) Some t' in \<open>auto simp: location_valid_def table_entry_def\<close>)
  with t' show ?thesis by (simp add: location_valid_def)
qed

lemma validate_kept:
  assumes "validate_read_locations mv i" "ll_read (last_locations mv' ! i) = ll_read (last_locations mv ! i)"
    and "\<And>h. mv_data mv h \<noteq> None \<Longrightarrow> mv_data mv' h \<noteq> None"
    and "\<And>h k. k < i \<Longrightarrow> entry_at mv' h k = entry_at mv h k \<or> entry_at mv h k = Some Estimate"
  shows "validate_read_locations mv' i"
proof -
  have "location_valid (mv_data mv') i (h, os)" if "location_valid (mv_data mv) i (h, os)" for h os
    by (rule location_valid_kept [OF that]) (use assms(3,4) in auto)
  with assms(1,2) show ?thesis by (auto simp: validate_read_locations_def list_all_iff)
qed

text \<open>Recording never removes a location from the table.\<close>

lemma remove_stale_present: "d h \<noteq> None \<Longrightarrow> remove_stale i ws k prev d = (prev', d') \<Longrightarrow> d' h \<noteq> None"
proof (induction i ws k prev d rule: remove_stale.induct)
  case (1 i ws k prev d)
  have "tree_remove d (prev ! k) i h \<noteq> None" using 1(3) by (auto simp: tree_remove_def split: option.splits)
  note IH = 1(1) [OF _ _ this] 1(2) [OF _ _ 1(3)]
  from 1(4) have "(if k < length prev then if list_all (\<lambda>(l, _). l \<noteq> prev ! k) ws
      then remove_stale i ws k (swap_remove prev k) (tree_remove d (prev ! k) i) else remove_stale i ws (k + 1) prev d
     else (prev, d)) = (prev', d')" by (subst (asm) remove_stale.simps)
  with 1(3) IH show ?case by (simp split: if_split_asm)
qed

lemma register_writes_present: "d h \<noteq> None \<Longrightarrow> register_writes v ws prev d new = (prev', d', new') \<Longrightarrow> d' h \<noteq> None"
proof (induction v ws prev d new rule: register_writes.induct)
  case (2 v l x ws prev d new)
  have "tree_insert d l (tx_idx v) (Data (tx_incarnation v) x) h \<noteq> None" using 2(3) by (auto simp: tree_insert_def)
  with 2 show ?case by (auto simp: Let_def split: if_splits)
qed simp

lemma mv_record_present:
  assumes "mv_record mv v rs ws = (new, mv')" "mv_data mv h \<noteq> None"
  shows "mv_data mv' h \<noteq> None"
proof -
  obtain prev d1 where st: "remove_stale (tx_idx v) ws 0 (last_writes mv (tx_idx v)) (mv_data mv) = (prev, d1)"
    by (cases "remove_stale (tx_idx v) ws 0 (last_writes mv (tx_idx v)) (mv_data mv)")
  obtain wr d2 n where rg: "register_writes v ws prev d1 False = (wr, d2, n)"
    by (cases "register_writes v ws prev d1 False")
  from register_writes_present [OF remove_stale_present [OF assms(2) st] rg] assms(1) st rg show ?thesis
    by (auto simp: mv_record_def Let_def)
qed

text \<open>
  An execution that overwrites only what its previous incarnation wrote, all of it estimates by now, invalidates no
  other transaction; one that writes more can invalidate higher transactions only.
\<close>

lemma record_keeps_valid:
  assumes rec: "mv_record mv v rs ws = (new, mv')" and wf: "mv_wf n mv" "tx_idx v < n"
    and est: "\<And>h. h \<in> set (last_writes mv (tx_idx v)) \<Longrightarrow> entry_at mv h (tx_idx v) = Some Estimate"
    and i: "i \<noteq> tx_idx v" "validate_read_locations mv i" "\<not> (new \<and> tx_idx v < i)"
  shows "validate_read_locations mv' i"
proof (rule validate_kept [OF i(2)])
  note spec = record_spec [OF rec mv_wfD(2) [OF wf]]
  show "ll_read (last_locations mv' ! i) = ll_read (last_locations mv ! i)" using spec(3) i(1) by auto
  show "mv_data mv' h \<noteq> None" if "mv_data mv h \<noteq> None" for h using mv_record_present [OF rec that] .
  show "entry_at mv' h k = entry_at mv h k \<or> entry_at mv h k = Some Estimate" if "k < i" for h k
    using spec(1) spec(2) [of h k] i(3) est [of h] that by (auto split: if_splits)
qed

text \<open>An abort can invalidate higher transactions only.\<close>

lemma estimates_keep_valid:
  assumes "mv_wf n mv" "validate_read_locations mv i" "i \<le> j"
  shows "validate_read_locations (convert_writes_to_estimates mv j) i"
proof (rule validate_kept [OF assms(2)])
  show "mv_data (convert_writes_to_estimates mv j) h \<noteq> None" if "mv_data mv h \<noteq> None" for h
  proof -
    have "fold (mark_estimate j) hs d h = None \<longleftrightarrow> d h = None" for hs d by (induction hs arbitrary: d) auto
    with that show ?thesis by (simp add: convert_writes_to_estimates_def)
  qed
qed (use assms(3) in \<open>auto simp: entry_at_estimates\<close>)

section \<open>The invariant\<close>

definition fresh_memory :: "nat \<Rightarrow> 'bc mv_memory \<Rightarrow> bool" where
  "fresh_memory n mv \<longleftrightarrow> mv_wf n mv \<and> (\<forall>h i e. entry_at mv h i = Some e \<longrightarrow> e = Estimate)"

text \<open>The result of a transaction that is not finished is gone from the memory, apart from estimates.\<close>

definition inv_memory :: "nat \<Rightarrow> ('bc, 'jt, 'lg) executor \<Rightarrow> bool" where
  "inv_memory n c \<longleftrightarrow> mv_wf n (memory c) \<and>
     (\<forall>i < n. i \<in> finished c \<longrightarrow> published (workers c) i) \<and>
     (\<forall>i < n. i \<notin> finished c \<longrightarrow> (\<forall>h \<in> set (last_writes (memory c) i). entry_at (memory c) h i = Some Estimate))"

definition inv_valid :: "nat \<Rightarrow> ('bc, 'jt, 'lg) executor \<Rightarrow> bool" where
  "inv_valid n c \<longleftrightarrow>
     (\<forall>w v f. finishing (pcs (workers c) w) = Some (v, f) \<longrightarrow> (tx_idx v \<in> needing c \<longleftrightarrow> needs_validation f)) \<and>
     (\<not> reason (workers c) \<longrightarrow> (\<forall>i < n. i \<in> needing c \<longrightarrow> is_executed (status_of (sched (workers c)) i) \<longrightarrow>
        min_validation_idx (sched (workers c)) \<le> i \<and>
        (validate_read_locations (memory c) i \<or> outstanding (workers c) i)))"

lemma success_record:
  assumes "vm_execute P S E txs M mv db v = Some (Inr (f, r), mv')" "mv_wf n mv"
  obtains mv0 rs ws where "mv_record mv0 v rs ws = (wrote_new_location f, mv')" "mv_wf n mv0"
    "mv_data mv0 = mv_data mv" "last_locations mv0 = last_locations mv"
proof -
  from assms(1) obtain res state db' codes addrs ws new where
    "vm_run P S E M db (tx_idx v) (txs ! tx_idx v) = (Inr (Inr (res, state)), db')"
    and rec: "mv_record (add_lazy_addresses (mv\<lparr>new_bytecodes := codes\<rparr>) addrs) v (db_read_set db') ws = (new, mv')"
    and f: "f = finish_flags (tx_idx v) (db_is_lazy db') new" by (rule vm_execute_success)
  have "mv_wf n (add_lazy_addresses (mv\<lparr>new_bytecodes := codes\<rparr>) addrs)"
    using assms(2) by (intro mv_wf_lazy) (simp add: mv_wf_def)
  then show thesis by (rule that [rotated]) (use rec f in \<open>simp_all add: finish_flags_bits add_lazy_addresses_def\<close>)
qed

lemma inv_memory_step:
  assumes step: "pstep P S E txs w c c'" and inv: "inv_workers (length txs) (workers c)" and mem: "inv_memory (length txs) c"
  shows "inv_memory (length txs) c'"
proof -
  let ?n = "length txs"
  have im: "inv_m (workers c)" and size: "size_of (workers c) = ?n" using inv by (simp_all add: inv_workers_def)
  note ws = pstep_wstep [OF step]
  have wf: "mv_wf ?n (memory c)" and pub: "\<And>i. i < ?n \<Longrightarrow> i \<in> finished c \<Longrightarrow> published (workers c) i"
    and est: "\<And>i h. i < ?n \<Longrightarrow> i \<notin> finished c \<Longrightarrow> h \<in> set (last_writes (memory c) i) \<Longrightarrow> entry_at (memory c) h i = Some Estimate"
    using mem by (auto simp: inv_memory_def)
  have pub': "published (workers c') i" if "i < ?n" "i \<in> finished c" "\<And>v. pcs (workers c) w = VA_estimate v \<Longrightarrow> tx_idx v \<noteq> i" for i
    using published_step [OF ws _ im pub [OF that(1,2)]] that size by simp
  have same: "inv_memory ?n c'" if "mv_data (memory c') = mv_data (memory c)" "last_locations (memory c') = last_locations (memory c)"
    "lazy_addresses (memory c') = lazy_addresses (memory c)" "finished c' = finished c" "\<And>v. pcs (workers c) w \<noteq> VA_estimate v"
    using that wf est pub' by (simp add: inv_memory_def mv_wf_def)
  from step show ?thesis
  proof cases
    case (schedule m)
    show ?thesis by (rule same) (use schedule in auto)
  next
    case (executed v M db f r mv')
    have j: "tx_idx v < ?n" using exec_of_bound(1) [OF im, of w v] executed size by simp
    from success_record [OF executed(4) wf] obtain mv0 rs wr where rec: "mv_record mv0 v rs wr = (wrote_new_location f, mv')"
      and wf0: "mv_wf ?n mv0" and eq: "mv_data mv0 = mv_data (memory c)" "last_locations mv0 = last_locations (memory c)" .
    note spec = record_spec [OF rec mv_wfD(2) [OF wf0 j]]
    have "published (workers c') (tx_idx v)" using executed by (auto simp: published_def succeed_def)
    moreover have "last_writes mv' i = last_writes (memory c) i" "entry_at mv' h i = entry_at (memory c) h i" if "i \<noteq> tx_idx v" for i h
      using spec(2) [of h i] spec(3) that eq by auto
    moreover have "mv_wf ?n mv'" by (rule mv_wf_record [OF wf0 j rec])
    ultimately show ?thesis using est pub' executed(1,2) by (auto simp: inv_memory_def succeed_def)
  next
    case (failed v M db e mv')
    show ?thesis by (rule same) (use failed(1,2) vm_execute_failure [OF failed(4)] in auto)
  next
    case recorded
    show ?thesis by (rule same) (use recorded in \<open>auto simp: record_reason_def\<close>)
  next
    case (validated v)
    show ?thesis by (rule same) (use validated in auto)
  next
    case (estimated v)
    have j: "tx_idx v < ?n" using abort_of_bound(1) [OF im, of "tx_idx v" w] estimated size by simp
    have "entry_at (convert_writes_to_estimates (memory c) (tx_idx v)) h i = Some Estimate"
      if "i < ?n" "i \<notin> finished c - {tx_idx v}" "h \<in> set (last_writes (memory c) i)" for i h
      using that est [OF that(1) _ that(3)] estimate_of_write [OF wf j] estimate_elsewhere [of i "tx_idx v" "memory c" h]
      by (cases "i = tx_idx v") auto
    with mv_wf_estimates [OF wf j] pub' estimated(1,2) show ?thesis by (auto simp: inv_memory_def)
  qed
qed

lemma finishing_step:
  assumes "wstep w m m'" "finishing (pcs m' w) = Some p"
  shows "finishing (pcs m w) = Some p \<or> pcs m w = RUN (fst p)"
  using assms by cases (auto simp: step_simps split: step_splits)

lemma valid_unless_outstanding:
  assumes step: "pstep P S E txs w c c'" and inv: "inv_m (workers c)" "size_of (workers c) = length txs"
    and mem: "inv_memory (length txs) c"
    and i: "validate_read_locations (memory c) i" "\<And>v. pcs (workers c) w = RUN v \<Longrightarrow> tx_idx v \<noteq> i"
  shows "validate_read_locations (memory c') i \<or> outstanding (workers c') i"
proof -
  let ?n = "length txs"
  have wf: "mv_wf ?n (memory c)" using mem by (simp add: inv_memory_def)
  have same: ?thesis if "mv_data (memory c') = mv_data (memory c)" "last_locations (memory c') = last_locations (memory c)"
    using that i(1) by (simp add: validate_read_locations_def)
  from step show ?thesis
  proof cases
    case (executed v M db f r mv')
    have j: "tx_idx v < ?n" using exec_of_bound(1) [OF inv(1), of w v] executed inv(2) by simp
    from success_record [OF executed(4) wf] obtain mv0 rs wr where rec: "mv_record mv0 v rs wr = (wrote_new_location f, mv')"
      and wf0: "mv_wf ?n mv0" and eq: "mv_data mv0 = mv_data (memory c)" "last_locations mv0 = last_locations (memory c)" .
    have "tx_idx v \<notin> finished c"
      using running_unpublished [OF inv(1) executed(2)] mem j by (auto simp: inv_memory_def)
    with mem j eq have "entry_at mv0 h (tx_idx v) = Some Estimate" if "h \<in> set (last_writes mv0 (tx_idx v))" for h
      using that by (simp add: inv_memory_def)
    from record_keeps_valid [OF rec wf0 j this, of i] i eq executed(1,2)
    have "validate_read_locations (memory c') i \<or> covers (pcs (workers c') w) i"
      by (auto simp: succeed_def validate_read_locations_def)
    then show ?thesis by (auto simp: outstanding_def)
  next
    case (failed v M db e mv')
    show ?thesis by (rule same) (use failed(1) vm_execute_failure [OF failed(4)] in auto)
  next
    case (estimated v)
    then have "outstanding (workers c') i" if "tx_idx v < i"
      using that by (auto simp: outstanding_def intro!: exI [of _ w])
    moreover have "validate_read_locations (memory c') i" if "i \<le> tx_idx v"
      using estimates_keep_valid [OF wf i(1) that] estimated(1) by simp
    ultimately show ?thesis by linarith
  qed (rule same; simp add: record_reason_def)+
qed

lemma fail_not_finishing: "finishing (pcs (workers (fail w v e c)) w) = None"
  by (cases e) (simp_all add: stop_with_def)

lemma inv_valid_step:
  assumes step: "pstep P S E txs w c c'" and inv: "inv_workers (length txs) (workers c)" and mem: "inv_memory (length txs) c"
    and dec: "inv_decided (workers c)" and val: "inv_valid (length txs) c"
  shows "inv_valid (length txs) c'"
proof -
  let ?n = "length txs" and ?m = "workers c" and ?m' = "workers c'"
  have im: "inv_m ?m" and size: "size_of ?m = ?n" using inv by (simp_all add: inv_workers_def)
  have wf: "mv_wf ?n (memory c)" using mem by (simp add: inv_memory_def)
  note ws = pstep_wstep [OF step]
  have flags: "tx_idx v \<in> needing c \<longleftrightarrow> needs_validation f" if "finishing (pcs ?m x) = Some (v, f)" for x v f
    using val that by (simp add: inv_valid_def)
  have old: "min_validation_idx (sched ?m) \<le> i" "validate_read_locations (memory c) i \<or> outstanding ?m i"
    if "i < ?n" "i \<in> needing c" "is_executed (status_of (sched ?m) i)" "\<not> reason ?m" for i
    using val that by (auto simp: inv_valid_def)
  have need: "i \<in> needing c' \<longleftrightarrow> i \<in> needing c" if "\<And>v. pcs ?m w = RUN v \<Longrightarrow> tx_idx v \<noteq> i" for i
    using step that by cases (auto simp: succeed_def record_reason_def)
  have flags': "tx_idx v \<in> needing c' \<longleftrightarrow> needs_validation f" if fin: "finishing (pcs ?m' x) = Some (v, f)" for x v f
  proof (cases "\<exists>u. pcs ?m w = RUN u \<and> tx_idx u = tx_idx v")
    case True
    then obtain u where u: "pcs ?m w = RUN u" "tx_idx u = tx_idx v" by blast
    have "x = w"
    proof (rule ccontr)
      assume "x \<noteq> w"
      with fin wstep_frame [OF ws] have "exec_of (pcs ?m x) = Some v" using finishing_exec by metis
      with u \<open>x \<noteq> w\<close> im show False by (auto simp: inv_m_def inv_lc_def inv_run_def)
    qed
    with step fin u show ?thesis by cases (auto simp: succeed_def fail_not_finishing)
  next
    case False
    then have "finishing (pcs ?m x) = Some (v, f)"
      using fin wstep_frame [OF ws, of x] finishing_step [OF ws, of "(v, f)"] by (cases "x = w") auto
    with flags need [of "tx_idx v"] False show ?thesis by auto
  qed
  have new: "min_validation_idx (sched ?m') \<le> i \<and> (validate_read_locations (memory c') i \<or> outstanding ?m' i)"
    if i: "i < ?n" "i \<in> needing c'" "is_executed (status_of (sched ?m') i)" "\<not> reason ?m'" for i
  proof -
    have nr: "\<not> reason ?m" using i(4) wstep_aborted(2) [OF ws] by simp
    have run: "tx_idx v \<noteq> i" if "pcs ?m w = RUN v" for v
    proof
      assume v: "tx_idx v = i"
      have "status_of (sched ?m) i = Executing" using exec_of_bound(2) [OF im, of w v] that v by simp
      moreover have "transactions_status (sched ?m') = transactions_status (sched ?m)"
        using ws that by cases (auto simp: index_defs)
      ultimately show False using i(3) by (simp add: is_executed_def)
    qed
    have ni: "i \<in> needing c" using i(2) need [of i] run by blast
    have i': "i < size_of ?m" using i(1) size by simp
    show ?thesis
    proof (cases "is_executed (status_of (sched ?m) i)")
      case False
      from newly_executed [OF ws im dec i' False i(3)] flags ni show ?thesis by metis
    next
      case True
      note o = old [OF i(1) ni True nr]
      have "validate_read_locations (memory c') i \<or> outstanding ?m' i"
      proof (cases "validate_read_locations (memory c) i")
        case True
        from valid_unless_outstanding [OF step im size mem this run] show ?thesis .
      next
        case False
        with o(2) have out: "outstanding ?m i" by blast
        have "pcs ?m' w \<noteq> FV_done v" if "tx_idx v = i" "pcs ?m w = VA v" for v
          using step that False by cases auto
        from outstanding_step [OF ws im i' out o(1) i(3) nr this] show ?thesis ..
      qed
      with o(1) wstep_min [OF ws] show ?thesis by linarith
    qed
  qed
  from flags' new show ?thesis unfolding inv_valid_def by blast
qed

definition inv_revalidation :: "nat \<Rightarrow> ('bc, 'jt, 'lg) executor \<Rightarrow> bool" where
  "inv_revalidation n c \<longleftrightarrow> inv_workers n (workers c) \<and> inv_decided (workers c) \<and> inv_reload (workers c) \<and>
     inv_memory n c \<and> inv_valid n c"

lemma inv_revalidation_init:
  assumes init: "init_executor mv n k c" and fresh: "fresh_memory n mv"
  shows "inv_revalidation n c"
proof -
  have m: "init_machine n k (workers c)" "memory c = mv" "finished c = {}" "needing c = {}"
    using init by (simp_all add: init_executor_def)
  have pcs: "pcs (workers c) w = NT_aborted \<or> pcs (workers c) w = Exited" for w
    using m(1) by (simp add: init_machine_def)
  have "finishing (pcs (workers c) w) = None" "\<not> decided (pcs (workers c) w)" "pcs (workers c) w \<noteq> FE_settle v f"
    "pcs (workers c) w \<noteq> FE_val_min v f x" for w v f x
    using pcs [of w] by auto
  then have "inv_decided (workers c)" "inv_valid n c"
    using m(4) by (simp_all add: inv_decided_def inv_valid_def)
  moreover have "inv_reload (workers c)"
    using m(1) by (simp add: inv_reload_def init_machine_def new_scheduler_def)
  moreover have "inv_memory n c"
    using fresh m mv_wfD(3) [of n mv] by (fastforce simp: inv_memory_def fresh_memory_def)
  ultimately show ?thesis using inv_workers_init [OF m(1)] by (simp add: inv_revalidation_def)
qed

lemma inv_revalidation_step:
  assumes inv: "inv_revalidation (length txs) c" and step: "executor_step P S E txs c c'"
  shows "inv_revalidation (length txs) c'"
proof -
  from step obtain w where w: "pstep P S E txs w c c'" by (auto simp: executor_step_def)
  note ws = pstep_wstep [OF w]
  from inv have i: "inv_workers (length txs) (workers c)" "inv_m (workers c)" "inv_reason (workers c)"
    by (simp_all add: inv_revalidation_def inv_workers_def)
  show ?thesis
    using inv inv_workers_step [OF i(1)] ws inv_decided_step [OF ws i(2)] inv_reload_step [OF ws i(3)]
      inv_memory_step [OF w i(1)] inv_valid_step [OF w i(1)]
    unfolding inv_revalidation_def mstep_def by blast
qed

interpretation revalidation: invariant_system
  "\<lambda>c. init_executor mv (length txs) k c \<and> fresh_memory (length txs) mv" "executor_step P S E txs" "inv_revalidation (length txs)"
  for P S E txs mv k
  by unfold_locales (auto intro: inv_revalidation_init inv_revalidation_step)

text \<open>
  When the workers have left and no abort reason was recorded, the transactions whose last execution asked for validation
  have valid reads.
\<close>

lemma needing_reads_valid:
  assumes run: "executor_reaches P S E txs mv k c" and fresh: "fresh_memory (length txs) mv"
    and "\<forall>w. pcs (workers c) w = Exited" "aborted_for c = None" "i < length txs" "i \<in> needing c"
  shows "validate_read_locations (memory c) i"
proof -
  have inv: "inv_revalidation (length txs) c"
    by (rule revalidation.inv_reaches [OF reaches_mono [OF run]]) (use fresh in simp_all)
  from executor_invariant(2) [OF run] assms(4) have nr: "\<not> reason (workers c)" by (simp add: inv_results_def)
  have size: "size_of (workers c) = length txs" and rs: "inv_reason (workers c)"
    using inv by (simp_all add: inv_revalidation_def inv_workers_def)
  have "\<not> aborted (sched (workers c))" using rs nr assms(3) by (auto simp: inv_reason_def)
  with inv assms(3) size have "length txs \<le> validation_idx (sched (workers c))"
    by (auto simp: inv_revalidation_def inv_reload_def)
  with assms(3,5) have "\<not> outstanding (workers c) i" by (auto simp: outstanding_def)
  moreover have "is_executed (status_of (sched (workers c)) i)"
    using joined_workers_executed [OF executor_workers [OF run] assms(3) nr] assms(5) by simp
  ultimately show ?thesis using inv nr assms(5,6) by (auto simp: inv_revalidation_def inv_valid_def)
qed

end
