(* ===== verification/Traces.thy ===== *)
theory Traces
  imports Revalidation
begin

text \<open>
  Where the contents of the memory and of the result slots come from: every version has one value throughout a run, every
  code hash has its code published, and every finished transaction has a run of the EVM that explains its read set, its entries
  in the memory and its result.
\<close>

section \<open>Published code\<close>

abbreviation new_contract :: "('bc, 'jt) revm_api \<Rightarrow> 'au vmdb \<Rightarrow> address \<Rightarrow> 'bc revm_account \<Rightarrow> bool" where
  "new_contract P db a account \<equiv> \<not> ra_selfdestructed account \<and> ra_touched account \<and> is_new_code P db a account"

text \<open>What the EVM and the storage promise about code: a code hash has one code, and new contracts come with theirs.\<close>

definition consistent_code ::
  "('bc, 'jt) revm_api \<Rightarrow> 'jt storage_api \<Rightarrow> ('bc, 'au, 'tx, 'lg) vm_env \<Rightarrow> 'tx list \<Rightarrow> (b256 \<rightharpoonup> 'bc) \<Rightarrow> bool" where
  "consistent_code P S E txs code_of \<longleftrightarrow>
     (\<forall>M db r state db' a account. \<forall>i < length txs. vm_run P S E M db i (txs ! i) = (Inr (Inr (r, state)), db') \<longrightarrow>
        (a, account) \<in> set state \<longrightarrow> new_contract P db' a account \<longrightarrow>
        ai_code (ra_info account) \<noteq> None \<and> code_of (ai_code_hash (ra_info account)) = ai_code (ra_info account)) \<and>
     (\<forall>a x. st_code_hash S a = Inr (Some x) \<longrightarrow>
        (\<exists>code. st_code_by_hash S x = Inr code \<and> code_of x = map_option (bytecode_from P) code))"

lemma consistent_codeD:
  assumes "consistent_code P S E txs code_of"
  shows "vm_run P S E M db i (txs ! i) = (Inr (Inr (r, state)), db') \<Longrightarrow> i < length txs \<Longrightarrow> (a, account) \<in> set state \<Longrightarrow> new_contract P db' a account \<Longrightarrow>
      ai_code (ra_info account) \<noteq> None \<and> code_of (ai_code_hash (ra_info account)) = ai_code (ra_info account)"
    and "st_code_hash S b = Inr (Some x) \<Longrightarrow>
      \<exists>code. st_code_by_hash S x = Inr code \<and> code_of x = map_option (bytecode_from P) code"
  using assms unfolding consistent_code_def by blast+

definition code_sound :: "(b256 \<rightharpoonup> 'bc) \<Rightarrow> 'bc mv_memory \<Rightarrow> bool" where
  "code_sound code_of mv \<longleftrightarrow> new_bytecodes mv \<subseteq>\<^sub>m code_of \<and>
     (\<forall>h i inc x. entry_at mv h i = Some (Data inc (ValCodeHash x)) \<longrightarrow> new_bytecodes mv x \<noteq> None)"

lemma publish_codes_Cons:
  assumes "publish_codes P db ((a, account) # rest) codes = Some codes'"
  obtains codes1 where "publish_codes P db rest codes1 = Some codes'" "codes \<subseteq>\<^sub>m codes1"
    "new_contract P db a account \<longrightarrow> codes1 (ai_code_hash (ra_info account)) \<noteq> None"
    "\<forall>x y. codes1 x = Some y \<longrightarrow> codes x = Some y \<or>
       new_contract P db a account \<and> ai_code_hash (ra_info account) = x \<and> ai_code (ra_info account) = Some y"
proof (cases "new_contract P db a account \<and> codes (ai_code_hash (ra_info account)) = None")
  case True
  with assms obtain y where "publish_codes P db rest (codes(ai_code_hash (ra_info account) \<mapsto> y)) = Some codes'"
    "ai_code (ra_info account) = Some y" by (auto simp: Let_def split: option.splits)
  with True show thesis by (intro that) (auto simp: map_le_def split: if_splits)
next
  case False
  with assms show thesis by (intro that [of codes]) (auto simp: Let_def)
qed

lemma publish_codes_le: "publish_codes P db state codes = Some codes' \<Longrightarrow> codes \<subseteq>\<^sub>m codes'"
proof (induction state arbitrary: codes)
  case (Cons p rest)
  obtain a account where p: "p = (a, account)" by (cases p)
  from Cons.prems [unfolded p] obtain codes1 where "publish_codes P db rest codes1 = Some codes'" "codes \<subseteq>\<^sub>m codes1"
    by (rule publish_codes_Cons)
  with Cons.IH map_le_trans show ?case by blast
qed simp

lemma publish_codes_new:
  assumes "publish_codes P db state codes = Some codes'" "(a, account) \<in> set state" "new_contract P db a account"
  shows "codes' (ai_code_hash (ra_info account)) \<noteq> None"
  using assms
proof (induction state arbitrary: codes)
  case (Cons p rest)
  obtain b other where p: "p = (b, other)" by (cases p)
  from Cons.prems(1) [unfolded p] obtain codes1 where c: "publish_codes P db rest codes1 = Some codes'"
    "new_contract P db b other \<longrightarrow> codes1 (ai_code_hash (ra_info other)) \<noteq> None" by (rule publish_codes_Cons)
  from publish_codes_le [OF c(1)] c(2) have "new_contract P db b other \<Longrightarrow> codes' (ai_code_hash (ra_info other)) \<noteq> None"
    by (auto simp: map_le_def dom_def)
  with Cons c(1) p show ?case by auto
qed simp

lemma publish_codes_origin:
  assumes "publish_codes P db state codes = Some codes'" "codes' x = Some y"
  shows "codes x = Some y \<or> (\<exists>(a, account) \<in> set state. new_contract P db a account \<and>
    ai_code_hash (ra_info account) = x \<and> ai_code (ra_info account) = Some y)"
  using assms
proof (induction state arbitrary: codes)
  case (Cons p rest)
  obtain b other where p: "p = (b, other)" by (cases p)
  from Cons.prems(1) [unfolded p] obtain codes1 where c: "publish_codes P db rest codes1 = Some codes'"
    "\<forall>x y. codes1 x = Some y \<longrightarrow> codes x = Some y \<or>
       new_contract P db b other \<and> ai_code_hash (ra_info other) = x \<and> ai_code (ra_info other) = Some y"
    by (rule publish_codes_Cons)
  from Cons.IH [OF c(1) Cons.prems(2)] c(2) p show ?case by auto
qed simp

lemma publish_codes_total:
  assumes "\<And>a account. (a, account) \<in> set state \<Longrightarrow> new_contract P db a account \<Longrightarrow> ai_code (ra_info account) \<noteq> None"
  shows "\<exists>codes'. publish_codes P db state codes = Some codes'"
  using assms
proof (induction state arbitrary: codes)
  case (Cons p rest)
  obtain a account where p: "p = (a, account)" by (cases p)
  from Cons.IH Cons.prems have IH: "\<exists>codes'. publish_codes P db rest codes1 = Some codes'" for codes1 by (metis list.set_intros(2))
  with Cons.prems [of a account] p show ?case by (auto simp: Let_def split: option.splits)
qed simp

lemma reward_write_code: "reward_write h x ws = Some ws' \<Longrightarrow> (l, ValCodeHash y) \<in> set ws' \<Longrightarrow> (l, ValCodeHash y) \<in> set ws"
proof (induction ws arbitrary: ws')
  case (Cons p ws)
  obtain k v where p: "p = (k, v)" by (cases p)
  have "credit v x \<noteq> Some (ValCodeHash y)" by (cases v) auto
  with Cons p show ?case by (auto split: if_splits)
qed auto

lemma apply_rewards_code: "apply_rewards rs ws = Some ws' \<Longrightarrow> (l, ValCodeHash y) \<in> set ws' \<Longrightarrow> (l, ValCodeHash y) \<in> set ws"
proof (induction rs arbitrary: ws)
  case (Cons r rs)
  obtain h x where r: "r = (h, x)" by (cases r)
  with Cons.prems obtain ws1 where "reward_write h x ws = Some ws1" "apply_rewards rs ws1 = Some ws'"
    by (auto split: option.splits)
  with Cons.IH Cons.prems(2) reward_write_code show ?case by blast
qed simp

text \<open>A code hash is written for a new contract only.\<close>

lemma code_write_new:
  assumes "write_set_of P E db tx r state = Some ws" "(l, ValCodeHash y) \<in> set ws"
  obtains a account where "(a, account) \<in> set state" "new_contract P db a account" "ai_code_hash (ra_info account) = y"
proof -
  from apply_rewards_code [OF assms(1) [unfolded write_set_of_def] assms(2)]
  obtain a account where "(a, account) \<in> set state" "(l, ValCodeHash y) \<in> set (account_writes P (ve_eip161 E) db (a, account))" by auto
  then show thesis
    by (intro that) (auto simp: account_writes_def basic_writes_def code_writes_def slot_writes_def Let_def split: if_splits)
qed

lemma code_sound_record:
  assumes "mv_record mv v rs ws = (new, mv')" "mv_wf n mv" "tx_idx v < n" "code_sound code_of mv"
    and "\<And>l y. (l, ValCodeHash y) \<in> set ws \<Longrightarrow> new_bytecodes mv y \<noteq> None"
  shows "code_sound code_of mv'"
proof -
  note spec = record_spec [OF assms(1) mv_wfD(2) [OF assms(2,3)]]
  have nb: "new_bytecodes mv' = new_bytecodes mv"
    using assms(1) by (auto simp: mv_record_def Let_def split: prod.splits)
  have "new_bytecodes mv x \<noteq> None" if e: "entry_at mv' h i = Some (Data inc (ValCodeHash x))" for h i inc x
  proof (cases "i = tx_idx v \<and> h \<in> fst ` set ws")
    case True
    with spec(2) [of h i] e have x: "the (map_of (rev ws) h) = ValCodeHash x" by simp
    from True have "map_of (rev ws) h \<noteq> None" by (simp add: map_of_eq_None_iff)
    then obtain y where "map_of (rev ws) h = Some y" by auto
    with x map_of_SomeD [of "rev ws" h y] assms(5) show ?thesis by auto
  next
    case False
    with spec(2) [of h i] e have "entry_at mv h i = Some (Data inc (ValCodeHash x))" by (auto split: if_splits)
    with assms(4) show ?thesis by (auto simp: code_sound_def)
  qed
  with assms(4) nb show ?thesis by (auto simp: code_sound_def)
qed

lemma read_known_code:
  assumes "consistent_code P S E txs code_of" "code_sound code_of mv" "x \<in> known_codes S i mv0"
    and "code_sound code_of mv0" "new_bytecodes mv0 \<subseteq>\<^sub>m new_bytecodes mv"
  shows "read_code P S mv (Some x) = Inr (code_of x)"
proof (cases "new_bytecodes mv x")
  case (Some y)
  with assms(2) show ?thesis by (auto simp: code_sound_def read_code_def map_le_def dom_def)
next
  case None
  with assms(5) have "new_bytecodes mv0 x = None" by (auto simp: map_le_def dom_def)
  with assms(3,4) obtain a where "st_code_hash S a = Inr (Some x)" unfolding known_codes_def code_sound_def by blast
  from consistent_codeD(2) [OF assms(1) this] None show ?thesis by (auto simp: read_code_def)
qed

text \<open>Publishing keeps the code sound, also when the execution fails after its code was published.\<close>

lemma commit_code:
  assumes "vm_commit P E mv db v tx r state = Some (out, mv')" "mv_wf n mv" "tx_idx v < n" "code_sound code_of mv"
    and new: "\<And>a account. (a, account) \<in> set state \<Longrightarrow> new_contract P db a account \<Longrightarrow>
      code_of (ai_code_hash (ra_info account)) = ai_code (ra_info account)"
  shows "code_sound code_of mv' \<and> new_bytecodes mv \<subseteq>\<^sub>m new_bytecodes mv'"
proof -
  obtain codes where codes: "publish_codes P db state (new_bytecodes mv) = Some codes"
    using assms(1) by (auto simp: vm_commit_def split: option.splits)
  have le: "new_bytecodes mv \<subseteq>\<^sub>m codes" by (rule publish_codes_le [OF codes])
  have "code_of x = Some y" if "codes x = Some y" for x y
    using publish_codes_origin [OF codes that]
  proof
    assume "new_bytecodes mv x = Some y"
    with assms(4) show ?thesis by (auto simp: code_sound_def map_le_def dom_def)
  next
    assume "\<exists>(a, account) \<in> set state. new_contract P db a account \<and> ai_code_hash (ra_info account) = x \<and> ai_code (ra_info account) = Some y"
    then obtain a account where "(a, account) \<in> set state" "new_contract P db a account"
      "ai_code_hash (ra_info account) = x" "ai_code (ra_info account) = Some y" by blast
    with new [of a account] show ?thesis by simp
  qed
  then have "codes \<subseteq>\<^sub>m code_of" by (auto simp: map_le_def dom_def)
  moreover have "codes x \<noteq> None" if "entry_at mv h i = Some (Data inc (ValCodeHash x))" for h i inc x
  proof -
    from assms(4) that have "new_bytecodes mv x \<noteq> None" unfolding code_sound_def by blast
    with le show ?thesis by (auto simp: map_le_def dom_def)
  qed
  ultimately have sound: "code_sound code_of (mv\<lparr>new_bytecodes := codes\<rparr>)" by (auto simp: code_sound_def)
  show ?thesis
  proof (cases "write_set_of P E db tx r state")
    case None
    with assms(1) codes sound le show ?thesis by (auto simp: vm_commit_def Let_def)
  next
    case (Some ws)
    with assms(1) codes obtain addrs new where
      rec: "mv_record (add_lazy_addresses (mv\<lparr>new_bytecodes := codes\<rparr>) addrs) v (db_read_set db) ws = (new, mv')"
      by (auto simp: vm_commit_def Let_def split: option.splits prod.splits)
    let ?mv = "add_lazy_addresses (mv\<lparr>new_bytecodes := codes\<rparr>) addrs"
    have "mv_wf n ?mv" using assms(2) by (intro mv_wf_lazy) (simp add: mv_wf_def)
    moreover have "code_sound code_of ?mv" using sound by (simp add: code_sound_def add_lazy_addresses_def)
    moreover have "new_bytecodes ?mv y \<noteq> None" if "(l, ValCodeHash y) \<in> set ws" for l y
    proof -
      from Some that obtain a account where "(a, account) \<in> set state" "new_contract P db a account" "ai_code_hash (ra_info account) = y"
        by (rule code_write_new)
      with publish_codes_new [OF codes, of a account] show ?thesis by (simp add: add_lazy_addresses_def)
    qed
    ultimately have "code_sound code_of mv'" using code_sound_record [OF rec _ assms(3)] by blast
    moreover have "new_bytecodes mv' = codes"
      using rec by (auto simp: mv_record_def Let_def add_lazy_addresses_def split: prod.splits)
    ultimately show ?thesis using le by simp
  qed
qed

lemma execute_code:
  assumes "vm_execute P S E txs M mv db v = Some (out, mv')" "mv_wf (length txs) mv" "tx_idx v < length txs" "code_sound code_of mv"
    and "consistent_code P S E txs code_of"
  shows "code_sound code_of mv' \<and> new_bytecodes mv \<subseteq>\<^sub>m new_bytecodes mv'"
proof (cases "\<exists>r state db'. vm_run P S E M db (tx_idx v) (txs ! tx_idx v) = (Inr (Inr (r, state)), db')")
  case True
  then obtain r state db' where run: "vm_run P S E M db (tx_idx v) (txs ! tx_idx v) = (Inr (Inr (r, state)), db')" by blast
  with assms(1) have co: "vm_commit P E mv db' v (txs ! tx_idx v) r state = Some (out, mv')" by (simp add: vm_execute_def)
  from commit_code [OF co assms(2-4)] consistent_codeD(1) [OF assms(5) run assms(3)] show ?thesis by blast
next
  case False
  with assms(1) have "mv' = mv"
    by (auto simp: vm_execute_def Let_def split: prod.splits sum.splits evm_failure.splits if_splits)
  with assms(4) show ?thesis by simp
qed

section \<open>The history of the memory\<close>

abbreviation code_grows :: "'bc mv_memory \<Rightarrow> 'bc mv_memory \<Rightarrow> bool" where
  "code_grows mv mv' \<equiv> new_bytecodes mv \<subseteq>\<^sub>m new_bytecodes mv'"

definition inv_codes :: "(b256 \<rightharpoonup> 'bc) \<Rightarrow> ('bc, 'jt, 'lg) executor \<Rightarrow> bool" where
  "inv_codes code_of c \<longleftrightarrow> history c \<noteq> [] \<and> last (history c) = memory c \<and>
     sorted_wrt code_grows (history c) \<and> (\<forall>mv \<in> set (history c). code_sound code_of mv)"

lemma pstep_history: "pstep P S E txs w c c' \<Longrightarrow> history c' = history c @ [memory c']"
  by (induction rule: pstep.induct) (simp_all add: succeed_def record_reason_def)

lemma pstep_code:
  assumes step: "pstep P S E txs w c c'" and inv: "inv_m (workers c)" "size_of (workers c) = length txs"
    and mem: "mv_wf (length txs) (memory c)" "code_sound code_of (memory c)" and "consistent_code P S E txs code_of"
  shows "code_sound code_of (memory c') \<and> code_grows (memory c) (memory c')"
  using step
proof cases
  case (executed v M db f r mv)
  have "tx_idx v < length txs" using exec_of_bound(1) [OF inv(1), of w v] executed inv(2) by simp
  from execute_code [OF executed(4) mem(1) this mem(2) assms(6)] executed(1) show ?thesis by (simp add: succeed_def)
next
  case (failed v M db e mv)
  have "tx_idx v < length txs" using exec_of_bound(1) [OF inv(1), of w v] failed inv(2) by simp
  from execute_code [OF failed(4) mem(1) this mem(2) assms(6)] failed(1) show ?thesis by simp
next
  case (estimated v)
  with mem(2) show ?thesis by (auto simp: code_sound_def entry_at_estimates split: if_splits)
qed (use mem in \<open>auto simp: record_reason_def\<close>)

lemma inv_codes_step:
  assumes step: "pstep P S E txs w c c'" and inv: "inv_m (workers c)" "size_of (workers c) = length txs"
    and mem: "mv_wf (length txs) (memory c)" and codes: "inv_codes code_of c" and con: "consistent_code P S E txs code_of"
  shows "inv_codes code_of c'"
proof -
  have last: "memory c \<in> set (history c)" using codes last_in_set by (force simp: inv_codes_def)
  then have "code_sound code_of (memory c)" using codes by (simp add: inv_codes_def)
  note new = pstep_code [OF step inv mem this con]
  have "code_grows mv (memory c)" if "mv \<in> set (history c)" for mv
  proof -
    have h: "history c = butlast (history c) @ [memory c]"
      using codes append_butlast_last_id [of "history c"] by (simp add: inv_codes_def)
    have "sorted_wrt code_grows (butlast (history c) @ [memory c])" using codes unfolding inv_codes_def h [symmetric] by blast
    moreover have "mv \<in> set (butlast (history c)) \<or> mv = memory c" using that h by (metis Un_iff set_append set_ConsD empty_iff empty_set)
    ultimately show ?thesis by (auto simp: sorted_wrt_append)
  qed
  with new have "code_grows mv (memory c')" if "mv \<in> set (history c)" for mv
    using that map_le_trans by blast
  with codes new show ?thesis unfolding inv_codes_def pstep_history [OF step] by (auto simp: sorted_wrt_append)
qed

text \<open>The incarnations a transaction may have written so far are below this number.\<close>

definition spent :: "machine \<Rightarrow> tx_idx \<Rightarrow> nat" where
  "spent m i =
     (let t = transactions_status (sched m) ! i
      in if status t = ReadyToExecute \<or> status t = Executing \<and> \<not> published m i then incarnation t else Suc (incarnation t))"

lemma spent_mono:
  assumes step: "wstep w m m'" and inv: "inv_m m" and i: "i < size_of m"
  shows "spent m i \<le> spent m' i"
proof -
  have "mstep m m'" using step by (auto simp: mstep_def)
  from mstep_diagram [OF this inv i] show ?thesis
  proof
    assume same: "transactions_status (sched m') ! i = transactions_status (sched m) ! i"
    have "published m' i" if "published m i" "status_of (sched m) i = Executing"
    proof (rule published_step [OF step i inv that(1)])
      show "tx_idx v \<noteq> i" if "pcs m w = VA_estimate v" for v
        using abort_of_bound(2) [OF inv, of "tx_idx v" w] that \<open>status_of (sched m) i = Executing\<close> by auto
    qed
    with same show ?thesis by (auto simp: spent_def Let_def)
  next
    assume "diagram (transactions_status (sched m) ! i) (transactions_status (sched m') ! i)"
    then show ?thesis by (auto simp: spent_def Let_def split: incarnation_status.splits)
  qed
qed

text \<open>Every version that was ever in the memory has one value.\<close>

definition inv_versions :: "nat \<Rightarrow> ('bc, 'jt, 'lg) executor \<Rightarrow> bool" where
  "inv_versions n c \<longleftrightarrow>
     (\<forall>mv \<in> set (history c). \<forall>h i inc x. entry_at mv h i = Some (Data inc x) \<longrightarrow> i < n \<and> inc < spent (workers c) i) \<and>
     (\<forall>mv \<in> set (history c). \<forall>mv' \<in> set (history c). \<forall>h i inc x x'.
        entry_at mv h i = Some (Data inc x) \<longrightarrow> entry_at mv' h i = Some (Data inc x') \<longrightarrow> x = x')"

lemma inv_versionsD:
  assumes "inv_versions n c" "mv \<in> set (history c)" "entry_at mv h i = Some (Data inc x)"
  shows "i < n" "inc < spent (workers c) i"
    and "mv' \<in> set (history c) \<Longrightarrow> entry_at mv' h i = Some (Data inc x') \<Longrightarrow> x = x'"
  using assms unfolding inv_versions_def by blast+

lemma pstep_entries:
  assumes step: "pstep P S E txs w c c'" and inv: "inv_m (workers c)" "size_of (workers c) = length txs"
    and mem: "mv_wf (length txs) (memory c)" and e: "entry_at (memory c') h i = Some (Data inc x)"
  shows "entry_at (memory c) h i = Some (Data inc x) \<or>
    (\<exists>v f. pcs (workers c) w = RUN v \<and> i = tx_idx v \<and> inc = tx_incarnation v \<and> finishing (pcs (workers c') w) = Some (v, f))"
  using step
proof cases
  case (executed v M db f r mv')
  have j: "tx_idx v < length txs" using exec_of_bound(1) [OF inv(1), of w v] executed inv(2) by simp
  from success_record [OF executed(4) mem] obtain mv0 rs ws where rec: "mv_record mv0 v rs ws = (wrote_new_location f, mv')"
    and wf0: "mv_wf (length txs) mv0" and eq: "mv_data mv0 = mv_data (memory c)" .
  from record_spec(2) [OF rec mv_wfD(2) [OF wf0 j], of h i] executed(1,2) e eq show ?thesis
    by (auto simp: succeed_def split: if_splits)
next
  case (failed v M db e mv)
  with vm_execute_failure [OF failed(4)] e show ?thesis by simp
qed (use e in \<open>auto simp: record_reason_def entry_at_estimates split: if_splits\<close>)

lemma inv_versions_step:
  assumes step: "pstep P S E txs w c c'" and inv: "inv_m (workers c)" "size_of (workers c) = length txs"
    and mem: "mv_wf (length txs) (memory c)" "memory c \<in> set (history c)" and ver: "inv_versions (length txs) c"
  shows "inv_versions (length txs) c'"
proof -
  note ws = pstep_wstep [OF step]
  have old: "i < length txs" "inc < spent (workers c') i" if "mv \<in> set (history c)" "entry_at mv h i = Some (Data inc x)" for mv h i inc x
    using inv_versionsD(1,2) [OF ver that] spent_mono [OF ws inv(1), of i] inv(2) by simp_all
  have run: "i < length txs" "spent (workers c) i = inc" "inc < spent (workers c') i"
    if v: "pcs (workers c) w = RUN v" "i = tx_idx v" "inc = tx_incarnation v" "finishing (pcs (workers c') w) = Some (v, f)" for i inc v f
  proof -
    from exec_of_bound [OF inv(1), of w v] v inv(2)
    have st: "i < length txs" "transactions_status (sched (workers c)) ! i = \<lparr>incarnation = inc, status = Executing\<rparr>" by simp_all
    moreover have "transactions_status (sched (workers c')) = transactions_status (sched (workers c))"
      using ws v(1) by cases (auto simp: index_defs)
    moreover have "published (workers c') i" using v unfolding published_def by blast
    ultimately show "i < length txs" "spent (workers c) i = inc" "inc < spent (workers c') i"
      using running_unpublished [OF inv(1) v(1)] v(2) by (simp_all add: spent_def)
  qed
  have new: "i < length txs \<and> inc < spent (workers c') i" if "entry_at (memory c') h i = Some (Data inc x)" for h i inc x
    using pstep_entries [OF step inv mem(1) that]
  proof
    assume "entry_at (memory c) h i = Some (Data inc x)"
    with old [OF mem(2)] show ?thesis by simp
  qed (use run(1,3) in metis)
  have uniq: "x = x'" if "mv \<in> set (history c)" "entry_at mv h i = Some (Data inc x)" "entry_at (memory c') h i = Some (Data inc x')" for mv h i inc x x'
    using pstep_entries [OF step inv mem(1) that(3)]
  proof
    assume "entry_at (memory c) h i = Some (Data inc x')"
    from inv_versionsD(3) [OF ver that(1,2) mem(2) this] show ?thesis .
  next
    assume "\<exists>v f. pcs (workers c) w = RUN v \<and> i = tx_idx v \<and> inc = tx_incarnation v \<and> finishing (pcs (workers c') w) = Some (v, f)"
    then have "spent (workers c) i = inc" using run(2) by blast
    moreover have "inc < spent (workers c) i" by (rule inv_versionsD(2) [OF ver that(1,2)])
    ultimately show ?thesis by simp
  qed
  have "x = x'" if "mv \<in> set (history c')" "mv' \<in> set (history c')" "entry_at mv h i = Some (Data inc x)" "entry_at mv' h i = Some (Data inc x')"
    for mv mv' h i inc x x'
  proof -
    from that(1,2) consider "mv \<in> set (history c)" "mv' \<in> set (history c)" | "mv \<in> set (history c)" "mv' = memory c'"
      | "mv = memory c'" "mv' \<in> set (history c)" | "mv = memory c'" "mv' = memory c'"
      unfolding pstep_history [OF step] by auto
    then show ?thesis
    proof cases
      case 1
      from inv_versionsD(3) [OF ver 1(1) that(3) 1(2) that(4)] show ?thesis .
    next
      case 2
      with uniq that(3,4) show ?thesis by blast
    next
      case 3
      with uniq that(3,4) show ?thesis by metis
    qed (use that(3,4) in simp)
  qed
  moreover have "i < length txs \<and> inc < spent (workers c') i" if "mv \<in> set (history c')" "entry_at mv h i = Some (Data inc x)" for mv h i inc x
    using that old new unfolding pstep_history [OF step] by auto
  ultimately show ?thesis unfolding inv_versions_def by blast
qed

section \<open>Where results come from\<close>

text \<open>A run of transaction \<open>i\<close> that saw states of the history in their order and ended with the database \<open>db'\<close>, the write set \<open>ws\<close> and the result \<open>res\<close>.\<close>

definition traced ::
  "('bc, 'jt) revm_api \<Rightarrow> 'jt storage_api \<Rightarrow> ('bc, 'au, 'tx, 'lg) vm_env \<Rightarrow> 'tx list \<Rightarrow> 'bc mv_memory list \<Rightarrow> memory_location set \<Rightarrow>
   memory_location set \<Rightarrow>
   tx_idx \<Rightarrow> 'au vmdb \<Rightarrow> write_set \<Rightarrow> ('jt, 'lg) tx_result \<Rightarrow> bool" where
  "traced P S E txs hist L T i db' ws res \<longleftrightarrow> (\<exists>M t db r state mv v f mv'.
     mono t \<and> (\<forall>k. t k < length hist \<and> M k = hist ! t k) \<and>
     vm_run P S E M db i (txs ! i) = (Inr (Inr (r, state)), db') \<and> set (vm_locs P S E M db i (txs ! i)) \<subseteq> L \<and>
     set (state_locs P state) \<subseteq> T \<and>
     write_set_of P E db' (txs ! i) r state = Some ws \<and>
     vm_commit P E mv db' v (txs ! i) r state = Some (Inr (f, res), mv'))"

lemma traced_mono:
  assumes "traced P S E txs hist L T i db' ws res" "L \<subseteq> L'" "T \<subseteq> T'"
  shows "traced P S E txs (hist @ later) L' T' i db' ws res"
proof -
  from assms(1) obtain M t db r state mv v f mv' where
    "mono t" "\<forall>k. t k < length hist \<and> M k = hist ! t k"
    "vm_run P S E M db i (txs ! i) = (Inr (Inr (r, state)), db')" "set (vm_locs P S E M db i (txs ! i)) \<subseteq> L"
    "set (state_locs P state) \<subseteq> T" "write_set_of P E db' (txs ! i) r state = Some ws" "vm_commit P E mv db' v (txs ! i) r state = Some (Inr (f, res), mv')"
    unfolding traced_def by blast
  with assms(2,3) show ?thesis unfolding traced_def
    by (intro exI [of _ M] exI [of _ t] exI [of _ db] exI [of _ r] exI [of _ state] exI [of _ mv] exI [of _ v] exI [of _ f] exI [of _ mv'])
      (auto simp: nth_append intro: trans_less_add1)
qed

definition explained ::
  "('bc, 'jt) revm_api \<Rightarrow> 'jt storage_api \<Rightarrow> ('bc, 'au, 'tx, 'lg) vm_env \<Rightarrow> 'tx list \<Rightarrow> ('bc, 'jt, 'lg) executor \<Rightarrow> tx_idx \<Rightarrow> bool" where
  "explained P S E txs c i \<longleftrightarrow> (\<exists>inc db' ws res.
     traced P S E txs (history c) (accessed c) (touched c) i db' ws res \<and> results c ! i = Some res \<and>
     ll_read (last_locations (memory c) ! i) = db_read_set db' \<and> (i \<in> needing c \<longleftrightarrow> 0 < i \<and> \<not> db_is_lazy db') \<and>
     (db_is_lazy db' \<longrightarrow> te_caller (ve_tx_env E (txs ! i)) \<in> set (lazy_addresses (memory c))) \<and>
     (\<forall>h \<in> fst ` set ws. entry_at (memory c) h i = Some (Data inc (the (map_of (rev ws) h)))) \<and>
     (\<forall>h. h \<notin> fst ` set ws \<longrightarrow> (\<forall>inc x. entry_at (memory c) h i \<noteq> Some (Data inc x))))"

lemma explained_kept:
  assumes "explained P S E txs c i" "history c' = history c @ later" "accessed c \<subseteq> accessed c'" "touched c \<subseteq> touched c'"
    and "set (lazy_addresses (memory c)) \<subseteq> set (lazy_addresses (memory c'))" "results c' ! i = results c ! i"
    and "ll_read (last_locations (memory c') ! i) = ll_read (last_locations (memory c) ! i)" "i \<in> needing c' \<longleftrightarrow> i \<in> needing c"
    and "\<And>h. entry_at (memory c') h i = entry_at (memory c) h i"
  shows "explained P S E txs c' i"
proof -
  from assms(1) obtain inc db' ws res where x: "traced P S E txs (history c) (accessed c) (touched c) i db' ws res"
    "results c ! i = Some res" "ll_read (last_locations (memory c) ! i) = db_read_set db'" "i \<in> needing c \<longleftrightarrow> 0 < i \<and> \<not> db_is_lazy db'"
    "db_is_lazy db' \<longrightarrow> te_caller (ve_tx_env E (txs ! i)) \<in> set (lazy_addresses (memory c))"
    "\<forall>h \<in> fst ` set ws. entry_at (memory c) h i = Some (Data inc (the (map_of (rev ws) h)))"
    "\<forall>h. h \<notin> fst ` set ws \<longrightarrow> (\<forall>inc x. entry_at (memory c) h i \<noteq> Some (Data inc x))"
    unfolding explained_def by (elim exE conjE) (rule that)
  from traced_mono [OF x(1) assms(3,4), of later] x(2-) assms show ?thesis
    unfolding explained_def by (intro exI [of _ inc] exI [of _ db'] exI [of _ ws] exI [of _ res]) auto
qed

lemma fold_insert_set: "set (fold List.insert xs ys) = set xs \<union> set ys"
  by (induction xs arbitrary: ys) auto

lemma explained_new:
  assumes step: "pcs (workers c) w = RUN v" "observes c w M" "vm_execute P S E txs M (memory c) db v = Some (Inr (f, r), mv')"
    and wf: "mv_wf n (memory c)" "tx_idx v < n" "n \<le> length (results c)"
    and c': "history c' = history c @ later" "accessed c' = accessed c \<union> set (vm_locs P S E M db (tx_idx v) (txs ! tx_idx v))"
      "touched c' = touched c \<union> locs_of P S E txs M db (tx_idx v)" "memory c' = mv'" "results c' = (results c)[tx_idx v := Some r]" "tx_idx v \<in> needing c' \<longleftrightarrow> needs_validation f"
  shows "explained P S E txs c' (tx_idx v)"
proof -
  let ?i = "tx_idx v"
  from step(3) obtain er state db' where run: "vm_run P S E M db ?i (txs ! ?i) = (Inr (Inr (er, state)), db')"
    by (rule vm_execute_success)
  with step(3) have co: "vm_commit P E (memory c) db' v (txs ! ?i) er state = Some (Inr (f, r), mv')" by (simp add: vm_execute_def)
  from co obtain ws codes addrs new where ws: "write_set_of P E db' (txs ! ?i) er state = Some ws"
    and rec: "mv_record (add_lazy_addresses ((memory c)\<lparr>new_bytecodes := codes\<rparr>) addrs) v (db_read_set db') ws = (new, mv')"
    and f: "f = finish_flags ?i (db_is_lazy db') new" and addrs: "lazy_addresses_of db' = Some addrs"
    by (auto simp: vm_commit_def Let_def split: option.splits prod.splits)
  let ?mv = "add_lazy_addresses ((memory c)\<lparr>new_bytecodes := codes\<rparr>) addrs"
  have wf0: "mv_wf n ?mv" using wf(1) by (intro mv_wf_lazy) (simp add: mv_wf_def)
  note spec = record_spec [OF rec mv_wfD(2) [OF wf0 wf(2)]]
  from step(2) obtain t where t: "mono t" "\<forall>k. t k < length (history c) \<and> M k = history c ! t k" by (auto simp: observes_def)
  have T: "set (state_locs P state) \<subseteq> touched c'" using c'(3) run by (simp add: locs_of_def)
  have "traced P S E txs (history c) (set (vm_locs P S E M db ?i (txs ! ?i))) (touched c') ?i db' ws r"
    unfolding traced_def
    by (intro exI [of _ M] exI [of _ t] exI [of _ db] exI [of _ er] exI [of _ state] exI [of _ "memory c"] exI [of _ v] exI [of _ f] exI [of _ mv'])
      (use t run ws co T in simp)
  from traced_mono [OF this, of "accessed c'" "touched c'" later] c'(1,2)
  have "traced P S E txs (history c') (accessed c') (touched c') ?i db' ws r" by simp
  moreover have "results c' ! ?i = Some r" using c'(5) wf(2,3) by simp
  moreover have "ll_read (last_locations mv' ! ?i) = db_read_set db'"
    using spec(3) mv_wfD(1) [OF wf0] wf(2) by auto
  moreover have "\<forall>h \<in> fst ` set ws. entry_at mv' h ?i = Some (Data (tx_incarnation v) (the (map_of (rev ws) h)))"
    using spec(2) by simp
  moreover have "entry_at mv' h ?i \<noteq> Some (Data inc x)" if "h \<notin> fst ` set ws" for h inc x
    using spec(2) [of h ?i] that mv_wfD(5) [OF wf0, of h ?i "Data inc x"] by (auto split: if_splits)
  moreover have "te_caller (ve_tx_env E (txs ! ?i)) \<in> set (lazy_addresses mv')" if "db_is_lazy db'"
  proof -
    have "lazy_addresses mv' = fold List.insert addrs (lazy_addresses (memory c))"
      using rec by (auto simp: mv_record_def Let_def add_lazy_addresses_def split: prod.splits)
    moreover have "te_caller (ve_tx_env E (txs ! ?i)) \<in> set addrs"
      using addrs that vm_run_tx [OF run] by (auto simp: lazy_addresses_of_def split: tx_kind.splits)
    ultimately show ?thesis by (simp add: fold_insert_set)
  qed
  ultimately show ?thesis
    unfolding explained_def using c'(4,6) f
    by (intro exI [of _ "tx_incarnation v"] exI [of _ db'] exI [of _ ws] exI [of _ r]) (simp add: finish_flags_bits)
qed

lemma execute_lazy:
  assumes "vm_execute P S E txs M mv db v = Some (Inr (f, r), mv')"
  shows "set (lazy_addresses mv) \<subseteq> set (lazy_addresses mv')"
proof -
  from assms obtain er state db' codes addrs ws new where "vm_run P S E M db (tx_idx v) (txs ! tx_idx v) = (Inr (Inr (er, state)), db')"
    and "mv_record (add_lazy_addresses (mv\<lparr>new_bytecodes := codes\<rparr>) addrs) v (db_read_set db') ws = (new, mv')"
    by (rule vm_execute_success)
  then have "lazy_addresses mv' = fold List.insert addrs (lazy_addresses mv)"
    by (auto simp: mv_record_def Let_def add_lazy_addresses_def split: prod.splits)
  then show ?thesis by (simp add: fold_insert_set)
qed

definition inv_explained ::
  "('bc, 'jt) revm_api \<Rightarrow> 'jt storage_api \<Rightarrow> ('bc, 'au, 'tx, 'lg) vm_env \<Rightarrow> 'tx list \<Rightarrow> ('bc, 'jt, 'lg) executor \<Rightarrow> bool" where
  "inv_explained P S E txs c \<longleftrightarrow> length txs \<le> length (results c) \<and>
     (\<forall>i < length txs. i \<in> finished c \<longrightarrow> explained P S E txs c i)"

lemma inv_explained_step:
  assumes step: "pstep P S E txs w c c'" and inv: "inv_m (workers c)" "size_of (workers c) = length txs"
    and mem: "mv_wf (length txs) (memory c)" and ex: "inv_explained P S E txs c"
  shows "inv_explained P S E txs c'"
proof -
  let ?n = "length txs"
  have len: "?n \<le> length (results c)" and old: "\<And>i. i < ?n \<Longrightarrow> i \<in> finished c \<Longrightarrow> explained P S E txs c i"
    using ex by (simp_all add: inv_explained_def)
  note kept = explained_kept [OF old pstep_history [OF step]]
  have same: "inv_explained P S E txs c'" if "mv_data (memory c') = mv_data (memory c)" "last_locations (memory c') = last_locations (memory c)"
    "finished c' = finished c" "accessed c' = accessed c" "results c' = results c" "needing c' = needing c"
    "touched c' = touched c" "lazy_addresses (memory c') = lazy_addresses (memory c)"
    using kept len that by (simp add: inv_explained_def)
  from step show ?thesis
  proof cases
    case (schedule m)
    show ?thesis by (rule same) (simp_all add: schedule)
  next
    case (executed v M db f r mv')
    have j: "tx_idx v < ?n" using exec_of_bound(1) [OF inv(1), of w v] executed inv(2) by simp
    from success_record [OF executed(4) mem] obtain mv0 rs ws where rec: "mv_record mv0 v rs ws = (wrote_new_location f, mv')"
      and wf0: "mv_wf ?n mv0" and eq: "mv_data mv0 = mv_data (memory c)" "last_locations mv0 = last_locations (memory c)" .
    note spec = record_spec [OF rec mv_wfD(2) [OF wf0 j]]
    have "explained P S E txs c' i" if i: "i < ?n" "i \<in> finished c'" for i
    proof (cases "i = tx_idx v")
      case True
      show ?thesis unfolding True
        by (rule explained_new [OF executed(2-4) mem j len pstep_history [OF step]]) (auto simp: executed(1) succeed_def)
    next
      case False
      with i(2) executed(1) have "i \<in> finished c" by (simp add: succeed_def)
      then show ?thesis
        by (rule kept [OF i(1)]) (use False executed(1) spec(2) spec(3) eq execute_lazy [OF executed(4)] in \<open>auto simp: succeed_def\<close>)
    qed
    with len executed(1) show ?thesis by (simp add: inv_explained_def succeed_def)
  next
    case (failed v M db e mv')
    show ?thesis by (rule same) (use failed(1) vm_execute_failure [OF failed(4)] in simp_all)
  next
    case recorded
    show ?thesis by (rule same) (simp_all add: recorded record_reason_def)
  next
    case (validated v)
    show ?thesis by (rule same) (simp_all add: validated)
  next
    case (estimated v)
    have "explained P S E txs c' i" if i: "i < ?n" "i \<in> finished c'" for i
    proof -
      have "lazy_addresses (convert_writes_to_estimates (memory c) (tx_idx v)) = lazy_addresses (memory c)"
        by (simp add: convert_writes_to_estimates_def)
      moreover from i(2) estimated(1) have "i \<in> finished c" "i \<noteq> tx_idx v" by auto
      ultimately show ?thesis
        by (intro kept [OF i(1)]) (simp_all add: estimated(1) estimate_elsewhere)
    qed
    with len estimated(1) show ?thesis by (simp add: inv_explained_def)
  qed
qed

text \<open>All of it together, for runs that start on a fresh memory without code.\<close>

definition inv_trace ::
  "('bc, 'jt) revm_api \<Rightarrow> 'jt storage_api \<Rightarrow> ('bc, 'au, 'tx, 'lg) vm_env \<Rightarrow> 'tx list \<Rightarrow> (b256 \<rightharpoonup> 'bc) \<Rightarrow> ('bc, 'jt, 'lg) executor \<Rightarrow> bool" where
  "inv_trace P S E txs code_of c \<longleftrightarrow>
     inv_revalidation (length txs) c \<and> inv_codes code_of c \<and> inv_versions (length txs) c \<and> inv_explained P S E txs c"

lemma inv_trace_init:
  assumes "init_executor mv (length txs) k c" "fresh_memory (length txs) mv" "new_bytecodes mv = Map.empty"
  shows "inv_trace P S E txs code_of c"
proof -
  have fresh: "entry_at mv h i \<noteq> Some (Data inc x)" for h i inc x using assms(2) by (auto simp: fresh_memory_def)
  have c: "history c = [mv]" "memory c = mv" "finished c = {}" "length txs \<le> length (results c)"
    using assms(1) by (simp_all add: init_executor_def)
  have "inv_codes code_of c" "inv_versions (length txs) c"
    using c assms(3) fresh by (simp_all add: inv_codes_def inv_versions_def code_sound_def)
  with inv_revalidation_init [OF assms(1,2)] c(3,4) show ?thesis by (simp add: inv_trace_def inv_explained_def)
qed

lemma inv_trace_step:
  assumes inv: "inv_trace P S E txs code_of c" and step: "executor_step P S E txs c c'" and con: "consistent_code P S E txs code_of"
  shows "inv_trace P S E txs code_of c'"
proof -
  from step obtain w where w: "pstep P S E txs w c c'" by (auto simp: executor_step_def)
  from inv have i: "inv_m (workers c)" "size_of (workers c) = length txs" and mem: "mv_wf (length txs) (memory c)"
    and r: "inv_revalidation (length txs) c" "inv_codes code_of c" "inv_versions (length txs) c" "inv_explained P S E txs c"
    by (simp_all add: inv_trace_def inv_revalidation_def inv_workers_def inv_memory_def)
  have last: "memory c \<in> set (history c)" using r(2) last_in_set by (force simp: inv_codes_def)
  show ?thesis
    unfolding inv_trace_def
    using inv_revalidation_step [OF r(1) step] inv_codes_step [OF w i mem r(2) con]
      inv_versions_step [OF w i mem last r(3)] inv_explained_step [OF w i mem r(4)] by blast
qed

interpretation trace: invariant_system
  "\<lambda>c. init_executor mv (length txs) k c \<and> fresh_memory (length txs) mv \<and> new_bytecodes mv = Map.empty \<and> consistent_code P S E txs code_of"
  "\<lambda>c c'. executor_step P S E txs c c' \<and> consistent_code P S E txs code_of" "inv_trace P S E txs code_of"
  for P S E txs mv k code_of
  by unfold_locales (auto intro: inv_trace_init inv_trace_step)

lemma executor_trace:
  assumes "executor_reaches P S E txs mv k c" "fresh_memory (length txs) mv" "new_bytecodes mv = Map.empty" "consistent_code P S E txs code_of"
  shows "inv_trace P S E txs code_of c"
  using trace.inv_reaches [OF reaches_mono [OF assms(1)]] assms(2-4) by blast

end
