(* ===== verification/Parallel_Sample.thy ===== *)
theory Parallel_Sample
  imports Parallel
begin

text \<open>A run of the sample block by one worker, which validates the second transaction: the input at which properties of finished runs are instantiated.\<close>

section \<open>The machine\<close>

abbreviation stores :: "nat \<Rightarrow> finish_exec_flags \<Rightarrow> machine \<Rightarrow> machine" where
  "stores i f m \<equiv> goto (m\<lparr>slots := (slots m)(i := True)\<rparr>) 0 (FE_lock (first_version i) f)"

abbreviation all_flags :: finish_exec_flags where
  "all_flags \<equiv> flags_union NeedValidation WroteNewLocation"

definition pair_first :: machine where
  "pair_first = the (run_quiet (replicate 5 0) (start_machine 2 1))"

definition pair_second :: machine where
  "pair_second = the (run_quiet (replicate 10 0) (stores 0 WroteNewLocation pair_first))"

definition pair_validating :: machine where
  "pair_validating = the (run_quiet (replicate 7 0) (stores 1 all_flags pair_second))"

definition pair_joined :: machine where
  "pair_joined = the (run_quiet (replicate 7 0) (goto pair_validating 0 (FV_done (first_version 1))))"

lemma run_quiet_the: "(run_quiet ws m = None) = False \<Longrightarrow> run_quiet ws m = Some (the (run_quiet ws m))"
  by auto

lemma pair_machine:
  "run_quiet (replicate 5 0) (start_machine 2 1) = Some pair_first"
  "run_quiet (replicate 10 0) (stores 0 WroteNewLocation pair_first) = Some pair_second"
  "run_quiet (replicate 7 0) (stores 1 all_flags pair_second) = Some pair_validating"
  "run_quiet (replicate 7 0) (goto pair_validating 0 (FV_done (first_version 1))) = Some pair_joined"
  unfolding pair_joined_def pair_validating_def pair_second_def pair_first_def
  by (rule run_quiet_the, code_simp)+

lemma pair_pcs:
  "pcs pair_first 0 = RUN (first_version 0)" "pcs pair_second 0 = RUN (first_version 1)" "pcs pair_validating 0 = VA (first_version 1)"
  "pcs pair_joined 0 = Exited"
  unfolding pair_joined_def pair_validating_def pair_second_def pair_first_def by code_simp+

lemma pair_exited: "pcs pair_joined w = Exited"
proof (cases "w = 0")
  case False
  with pair_machine [THEN quiet_frame, of w] show ?thesis by (simp add: start_machine_def)
qed (use pair_pcs in simp)

section \<open>The run\<close>

lemma pair_step_0:
  "\<exists>res. vm_execute sample_api sample_storage eth_env [0, 1] (\<lambda>_. sample_mv) sample_mv sample_db (first_version 0) =
     Some (Inr (WroteNewLocation, res), sample_mv1)"
  by (simp add: sample_mv1_def vm_execute_defs sample_defs vm_run_defs replicate_two eth_env_def eth_get_rewards_def saturating_mul_def
      flags_defs)

lemma pair_step_1:
  "\<exists>res. vm_execute sample_api sample_storage eth_env [0, 1] (\<lambda>_. sample_mv1) sample_mv1 sample_db (first_version 1) =
     Some (Inr (all_flags, res), sample_mv2)"
  by (simp add: sample_mv1_def sample_mv2_def sample_reads1_def sample_writes1_def vm_execute_defs sample_defs vm_run_defs
      replicate_two eth_env_def eth_get_rewards_def saturating_mul_def flags_defs)

lemma pair_locs:
  "set (vm_locs sample_api sample_storage eth_env (\<lambda>_. sample_mv) sample_db 0 0) \<subseteq> eth_locs"
  "set (vm_locs sample_api sample_storage eth_env (\<lambda>_. sample_mv1) sample_db 1 1) \<subseteq> eth_locs"
  by (simp_all add: vm_locs_def eth_env_def eth_locs_def sample_mv1_def sample_defs vm_run_defs)

lemma pair_touched:
  "locs_of sample_api sample_storage eth_env [0, 1] (\<lambda>_. sample_mv) sample_db 0 \<subseteq> eth_locs"
  "locs_of sample_api sample_storage eth_env [0, 1] (\<lambda>_. sample_mv1) sample_db 1 \<subseteq> eth_locs"
  unfolding locs_touched using eth_locs_0 eth_locs_1 by (simp_all add: eth_locs_def)

lemma sample_mv2_valid: "validate_read_locations sample_mv2 1"
proof -
  have "ll_read (last_locations sample_mv2 ! 1) = sample_reads1"
    by (simp add: sample_mv2_def sample_mv1_def mv_record_def remove_stale.simps sample_writes1_def Let_def)
  then show ?thesis
    by (simp add: validate_read_locations_def location_valid_def sample_reads1_def sample_mv2_def sample_mv1_def mv_record_def
        remove_stale.simps sample_writes1_def Let_def tree_insert_def)
qed

lemma pair_run:
  obtains c :: "(sample_code, bool list, unit) executor" and r0 r1
  where "executor_reaches sample_api sample_storage eth_env [0 :: nat, 1] sample_mv 1 c"
    "workers c = pair_joined" "aborted_for c = None" "memory c = sample_mv2" "needing c = {1}" "accessed c \<subseteq> eth_locs" "results c = [Some r0, Some r1]"
    "touched c \<subseteq> eth_locs"
proof -
  let ?reach = "executor_reaches sample_api sample_storage eth_env [0 :: nat, 1] sample_mv 1"
  let ?exec = "\<lambda>mv i. vm_execute sample_api sample_storage eth_env [0, 1] (\<lambda>_. mv) mv sample_db (first_version i)"
  obtain r0 where s0: "?exec sample_mv 0 = Some (Inr (WroteNewLocation, r0), sample_mv1)" using pair_step_0 by blast
  obtain r1 where s1: "?exec sample_mv1 1 = Some (Inr (all_flags, r1), sample_mv2)" using pair_step_1 by blast
  let ?c = "new_executor sample_mv (length [0 :: nat, 1]) 1 :: (sample_code, bool list, unit) executor"
  have "run_quiet (replicate 5 0) (workers ?c) = Some pair_first"
    using pair_machine(1) by (simp add: new_executor_def numeral_2_eq_2)
  then obtain c1 where c1: "?reach c1" "workers c1 = pair_first" "memory c1 = sample_mv" "aborted_for c1 = None" "results c1 = [None, None]"
    "needing c1 = {}" "accessed c1 = {}" "touched c1 = {}"
    by (rule quiet_executor [OF _ new_executor_reaches]) (simp_all add: new_executor_def grow_to_def)
  have "pcs (workers c1) 0 = RUN (first_version 0)" using c1 pair_pcs(1) by simp
  moreover have "?exec (memory c1) 0 = Some (Inr (WroteNewLocation, r0), sample_mv1)" using s0 c1 by simp
  ultimately obtain c2 where c2: "?reach c2" "memory c2 = sample_mv1" "aborted_for c2 = None" "results c2 = [Some r0, None]"
    "needing c2 = {}" "accessed c2 \<subseteq> eth_locs" "touched c2 \<subseteq> eth_locs" "workers c2 = stores 0 WroteNewLocation pair_first"
    by (rule execute_executor [OF c1(1)]) (use c1 pair_locs pair_touched in simp_all)
  have "run_quiet (replicate 10 0) (workers c2) = Some pair_second" using c2 pair_machine(2) by simp
  then obtain c3 where c3: "?reach c3" "workers c3 = pair_second" "memory c3 = sample_mv1" "aborted_for c3 = None" "results c3 = [Some r0, None]"
    "needing c3 = {}" "accessed c3 \<subseteq> eth_locs" "touched c3 \<subseteq> eth_locs"
    by (rule quiet_executor [OF _ c2(1)]) (use c2 in simp_all)
  have "pcs (workers c3) 0 = RUN (first_version 1)" using c3 pair_pcs(2) by simp
  moreover have "?exec (memory c3) 1 = Some (Inr (all_flags, r1), sample_mv2)" using s1 c3 by simp
  ultimately obtain c4 where c4: "?reach c4" "memory c4 = sample_mv2" "aborted_for c4 = None" "results c4 = [Some r0, Some r1]"
    "needing c4 = {1}" "accessed c4 \<subseteq> eth_locs" "touched c4 \<subseteq> eth_locs" "workers c4 = stores 1 all_flags pair_second"
    by (rule execute_executor [OF c3(1)]) (use c3 pair_locs pair_touched in simp_all)
  have "run_quiet (replicate 7 0) (workers c4) = Some pair_validating" using c4 pair_machine(3) by simp
  then obtain c5 where c5: "?reach c5" "workers c5 = pair_validating" "memory c5 = sample_mv2" "aborted_for c5 = None" "results c5 = [Some r0, Some r1]"
    "needing c5 = {1}" "accessed c5 \<subseteq> eth_locs" "touched c5 \<subseteq> eth_locs"
    by (rule quiet_executor [OF _ c4(1)]) (use c4 in simp_all)
  have "pcs (workers c5) 0 = VA (first_version 1)" using c5 pair_pcs(3) by simp
  moreover have "validate_read_locations (memory c5) (tx_idx (first_version 1))" using c5(3) sample_mv2_valid by simp
  ultimately obtain c6 where c6: "?reach c6" "workers c6 = goto pair_validating 0 (FV_done (first_version 1))" "memory c6 = sample_mv2"
    "aborted_for c6 = None" "results c6 = [Some r0, Some r1]" "needing c6 = {1}" "accessed c6 \<subseteq> eth_locs" "touched c6 \<subseteq> eth_locs"
    by (rule validate_executor [OF c5(1)]) (use c5 in simp_all)
  have "run_quiet (replicate 7 0) (workers c6) = Some pair_joined" using c6 pair_machine(4) by simp
  then obtain c7 where c7: "?reach c7" "workers c7 = pair_joined" "memory c7 = sample_mv2" "aborted_for c7 = None" "results c7 = [Some r0, Some r1]"
    "needing c7 = {1}" "accessed c7 \<subseteq> eth_locs" "touched c7 \<subseteq> eth_locs"
    by (rule quiet_executor [OF _ c6(1)]) (use c6 in simp_all)
  show thesis by (rule that [OF c7(1)]) (use c7 in simp_all)
qed

end
