(* ===== verification/Typing.thy ===== *)
theory Typing
  imports Traces Parallel_Sample
begin

text \<open>
  The memory is well typed: an account, a code hash and a slot only hold values of their own kind, in every state the memory
  has during a run. Therefore no read finds a value of the wrong kind and no reward meets one.
\<close>

section \<open>Queries on a well-typed memory\<close>

text \<open>Locations of \<open>L\<close> with the same hash are of the same kind.\<close>

definition kinds_agree :: "('bc, 'jt) revm_api \<Rightarrow> memory_location set \<Rightarrow> bool" where
  "kinds_agree P L \<longleftrightarrow>
     (\<forall>l \<in> L. \<forall>l' \<in> L. hash_deterministic P l = hash_deterministic P l' \<longrightarrow> location_value l = location_value l')"

lemma typed_entry:
  assumes "values_fit P L mv" "kinds_agree P L" "l \<in> L" "next_back (table_entry (mv_data mv) (hash_deterministic P l)) i = Some (k, Data inc v)"
  shows "location_value l v"
proof -
  from assms(4) have "entry_at mv (hash_deterministic P l) k = Some (Data inc v)" by (simp add: next_back_Some_iff)
  with assms(1) obtain l' where "l' \<in> L" "hash_deterministic P l = hash_deterministic P l'" "location_value l' v"
    unfolding values_fit_def fits_def by blast
  with assms(2,3) show ?thesis unfolding kinds_agree_def by metis
qed

lemma read_back_typed:
  assumes "read_back t i prev acc = Inl e" "\<And>j k inc v. next_back t j = Some (k, Data inc v) \<Longrightarrow> account_value v"
  shows "e \<noteq> InvalidMemoryValueType"
  using assms(1)
proof (induction i arbitrary: acc rule: less_induct)
  case (less i)
  show ?case
  proof (cases t i rule: next_back_cases)
    case (data k inc v)
    with less.prems less.IH [OF data(2)] assms(2) [OF data(1)] show ?thesis
      by (cases v) (auto simp: read_back_steps split: if_splits)
  qed (use less.prems in \<open>auto simp: read_back_steps\<close>)
qed

lemma db_basic_typed:
  assumes "db_basic P S mv mvc db a = (Inl e, db')" "values_fit P L mv" "kinds_agree P L" "LocBasic a \<in> L"
    and "hash_basic P db a = hash_deterministic P (LocBasic a)"
  shows "e \<noteq> InvalidMemoryValueType"
proof -
  let ?h = "hash_deterministic P (LocBasic a)" and ?prev = "read_origins_of (db_read_set db) (hash_deterministic P (LocBasic a))"
  from assms(1,5) have rd: "db_basic_read P S mv mvc db a ?h = (Inl e, db')" by (auto simp: db_basic_def Let_def split: if_splits)
  have "e \<noteq> InvalidMemoryValueType" if "read_versions mv ?h (db_tx_idx db) ?prev = Inl e"
    by (rule read_back_typed [OF that [unfolded read_versions_eq]]) (use typed_entry [OF assms(2-4)] in simp)
  moreover have "e \<noteq> InvalidMemoryValueType" if "settle_basic P S mvc db2 a ?h acc final = (Inl e, db')" for db2 acc final
    using that by (auto simp: settle_basic_def Let_def dest: finish_basic_error split: option.splits if_splits)
  ultimately show ?thesis
    using rd by (fastforce simp: db_basic_read_def Let_def dest: read_fallback_error split: sum.splits prod.splits if_splits)
qed

lemma db_storage_typed:
  assumes "db_storage P S mv db a i = (Inl e, db')" "values_fit P L mv" "kinds_agree P L" "LocStorage a i \<in> L"
  shows "e \<noteq> InvalidMemoryValueType"
  using assms(1) typed_entry [OF assms(2-4)] unfolding db_storage_def Let_def closest_pos_eq
  by (fastforce dest!: read_from_error storage_result_error split: option.splits memory_entry.splits memory_value.splits)

section \<open>Executions on a well-typed memory\<close>

lemma run_evm_typed:
  assumes "run_evm P S M prog n db = (Inl e, db')" "\<And>k. values_fit P L (M k)" "kinds_agree P L"
    and "\<And>a. hash_basic P db a = hash_deterministic P (LocBasic a)" "set (run_locs P S M prog n db) \<subseteq> L"
  shows "e \<noteq> InvalidMemoryValueType"
  using assms(1,4,5)
proof (induction prog arbitrary: n db)
  case (EvmBasic a k)
  obtain out db1 where q: "db_basic P S (M n) (M (n + 1)) db a = (out, db1)" by (cases "db_basic P S (M n) (M (n + 1)) db a")
  show ?case
  proof (cases out)
    case (Inl e')
    with q EvmBasic.prems have "db_basic P S (M n) (M (n + 1)) db a = (Inl e, db')" "LocBasic a \<in> L" by simp_all
    from db_basic_typed [OF this(1) assms(2,3) this(2) EvmBasic.prems(2)] show ?thesis .
  next
    case (Inr x)
    with q EvmBasic.prems have rest: "run_evm P S M (k x) (n + 2) db1 = (Inl e, db')" "set (run_locs P S M (k x) (n + 2) db1) \<subseteq> L" by simp_all
    show ?thesis by (rule EvmBasic.IH [OF rangeI rest(1) _ rest(2)]) (simp add: EvmBasic.prems(2) hash_basic_key [OF db_basic_key [OF q]])
  qed
next
  case (EvmStorage a i k)
  obtain out db1 where q: "db_storage P S (M n) db a i = (out, db1)" by (cases "db_storage P S (M n) db a i")
  show ?case
  proof (cases out)
    case (Inl e')
    with q EvmStorage.prems have "db_storage P S (M n) db a i = (Inl e, db')" "LocStorage a i \<in> L" by simp_all
    from db_storage_typed [OF this(1) assms(2,3) this(2)] show ?thesis .
  next
    case (Inr x)
    with q EvmStorage.prems have rest: "run_evm P S M (k x) (n + 1) db1 = (Inl e, db')" "set (run_locs P S M (k x) (n + 1) db1) \<subseteq> L" by simp_all
    show ?thesis by (rule EvmStorage.IH [OF rangeI rest(1) _ rest(2)]) (simp add: EvmStorage.prems(2) hash_basic_key [OF db_storage_key [OF q]])
  qed
next
  case (EvmCode h k)
  obtain out db1 where q: "db_code_by_hash P S db h = (out, db1)" by (cases "db_code_by_hash P S db h")
  with EvmCode.prems EvmCode.IH [OF rangeI] db_code_by_hash_state [OF q] db_code_by_hash_error show ?case
    by (cases out) fastforce+
next
  case (EvmBlockHash b k)
  obtain out db1 where q: "db_block_hash S db b = (out, db1)" by (cases "db_block_hash S db b")
  with EvmBlockHash.prems EvmBlockHash.IH [OF rangeI] db_block_hash_state [OF q] db_block_hash_error show ?case
    by (cases out) fastforce+
qed simp

lemma vm_run_typed:
  assumes run: "vm_run P S E M db i full_tx = (Inl e, db')" and fit: "\<And>k. values_fit P L (M k)" "kinds_agree P L"
    and L: "set (vm_locs P S E M db i full_tx) \<subseteq> L"
  shows "e \<noteq> InvalidMemoryValueType"
proof -
  let ?tx = "ve_tx_env E full_tx"
  let ?set = "set_tx P S (M 0) db i ?tx (hash_deterministic P (LocBasic (te_caller ?tx))) (to_hash_of P ?tx) (ve_has_nonce E full_tx)"
  obtain out db0 where s: "?set = (out, db0)" by (cases ?set)
  show ?thesis
  proof (cases out)
    case (Inl e')
    with s run have "?set = (Inl e, db')" by (simp add: vm_run_def)
    then show ?thesis
      by (auto simp: set_tx_def Let_def dest!: get_code_hash_error split: tx_kind.splits prod.splits sum.splits)
  next
    case (Inr u)
    with s run L have ev: "run_evm P S M (ve_evm E full_tx) 1 db0 = (Inl e, db')" "set (run_locs P S M (ve_evm E full_tx) 1 db0) \<subseteq> L"
      by (simp_all add: vm_run_def vm_locs_def)
    have "db_wf P UNIV db0" using set_tx_ok(1) [OF s [unfolded Inr]] by simp
    from run_evm_typed [OF ev(1) fit hash_basic_wf [OF this] ev(2)] show ?thesis .
  qed
qed

text \<open>Rewards find account values only.\<close>

lemma reward_write_typed:
  assumes "list_all (\<lambda>(l, v). fits P L l v) ws" "kinds_agree P L" "LocBasic a \<in> L"
  shows "reward_write (hash_deterministic P (LocBasic a)) x ws \<noteq> None"
  using assms(1)
proof (induction ws)
  case (Cons p ws)
  obtain l v where p: "p = (l, v)" by (cases p)
  have "credit v x \<noteq> None" if h: "l = hash_deterministic P (LocBasic a)"
  proof -
    from Cons.prems p obtain l' where l': "l' \<in> L" "l = hash_deterministic P l'" "location_value l' v" by (auto simp: fits_def)
    with assms(2,3) h have "location_value (LocBasic a) v" unfolding kinds_agree_def by metis
    then show ?thesis by (cases v) auto
  qed
  with Cons p show ?case by auto
qed simp

lemma apply_rewards_typed:
  "list_all (\<lambda>(l, v). fits P L l v) ws \<Longrightarrow> kinds_agree P L \<Longrightarrow> rewards_within P L rs \<Longrightarrow> apply_rewards rs ws \<noteq> None"
proof (induction rs arbitrary: ws)
  case (Cons r rs)
  obtain h x where r: "r = (h, x)" by (cases r)
  from Cons.prems(3) r obtain a where a: "LocBasic a \<in> L" "h = hash_deterministic P (LocBasic a)" by (auto simp: rewards_within_def)
  with reward_write_typed [OF Cons.prems(1,2) a(1)] obtain ws1 where ws1: "reward_write h x ws = Some ws1" by auto
  from Cons.IH [OF reward_write_fit [OF ws1 Cons.prems(1) a] Cons.prems(2)] Cons.prems(3) r ws1 show ?case
    by (simp add: rewards_within_def)
qed simp

lemma vm_execute_typed:
  assumes ex: "vm_execute P S E txs M mv db v = Some (Inl e, mv')" and fit: "\<And>k. values_fit P L (M k)" "kinds_agree P L"
    and L: "set (vm_locs P S E M db (tx_idx v) (txs ! tx_idx v)) \<subseteq> L" "locs_of P S E txs M db (tx_idx v) \<subseteq> L"
    and rew: "\<And>db r. rewards_within P L (rewards_of P E db (txs ! tx_idx v) r)"
  shows "e \<noteq> ExecutionError (DatabaseError InvalidMemoryValueType)"
proof -
  let ?run = "vm_run P S E M db (tx_idx v) (txs ! tx_idx v)"
  have read: "vm_error_from e' = ExecutionError (DatabaseError InvalidMemoryValueType) \<Longrightarrow> e' = InvalidMemoryValueType" for e'
    by (cases e') auto
  have "write_set_of P E db' (txs ! tx_idx v) r state \<noteq> None" if "?run = (Inr (Inr (r, state)), db')" for r state db'
  proof -
    have "set (state_locs P state) \<subseteq> L" using that L(2) by (simp add: locs_of_def)
    then have "list_all (\<lambda>(h, v). fits P L h v) (concat (map (account_writes P (ve_eip161 E) db') state))"
      using account_writes_fit by (fastforce simp: list_all_iff)
    from apply_rewards_typed [OF this fit(2) rew] show ?thesis by (simp add: write_set_of_def)
  qed
  then have "e \<noteq> ExecutionError (DatabaseError InvalidMemoryValueType)" if "?run = (Inr (Inr (r, state)), db')" for r state db'
    using that ex by (auto simp: vm_execute_def vm_commit_def Let_def split: option.splits prod.splits)
  moreover have "e \<noteq> ExecutionError (DatabaseError InvalidMemoryValueType)" if "?run = (Inl e', db')" for e' db'
    using that ex vm_run_typed [OF that fit L(1)] read by (auto simp: vm_execute_def)
  moreover have "e \<noteq> ExecutionError (DatabaseError InvalidMemoryValueType)" if "?run = (Inr (Inl e'), db')" for e' db'
    using that ex by (auto simp: vm_execute_def split: evm_failure.splits if_splits)
  ultimately show ?thesis by (cases ?run) (metis sum.exhaust prod.exhaust)
qed

section \<open>The memory of a run is well typed\<close>

lemma values_fit_mono: "values_fit P L mv \<Longrightarrow> L \<subseteq> L' \<Longrightarrow> values_fit P L' mv"
  unfolding values_fit_def fits_def by blast

lemma pstep_touched: "pstep P S E txs w c c' \<Longrightarrow> touched c \<subseteq> touched c'"
  by (auto simp: succeed_def record_reason_def elim!: pstep.cases)

context reward_chain
begin

lemma history_typed:
  assumes "executor_reaches P S E txs (build (ve_beneficiary E) txs) k c" "ve_rewards E = rewards"
  shows "\<forall>mv \<in> set (history c). values_fit P (touched c \<union> reward_locs E txs) mv"
  using assms(1)
proof (induction rule: reaches.induct)
  case (reaches_init c)
  then show ?case using build_fits by (simp add: init_executor_def)
next
  case (reaches_step c c')
  from reaches_step.hyps(2) obtain w where w: "pstep P S E txs w c c'" by (auto simp: executor_step_def)
  have "block_run P S E txs (build (ve_beneficiary E) txs) (touched c') (finished c') (memory c')"
    using executor_invariant(1) [OF reaches.reaches_step [OF reaches_step.hyps]] by (simp add: inv_history_def)
  then have "values_fit P (touched c' \<union> reward_locs E txs) (memory c')" by (rule executed_block_fits [OF _ assms(2)])
  moreover have "values_fit P (touched c' \<union> reward_locs E txs) mv" if "mv \<in> set (history c)" for mv
    by (rule values_fit_mono [OF reaches_step.IH [rule_format, OF that]]) (use pstep_touched [OF w] in auto)
  ultimately show ?case unfolding pstep_history [OF w] by auto
qed

lemma execution_typed:
  assumes run: "executor_reaches P S E txs (build (ve_beneficiary E) txs) k c" "ve_rewards E = rewards" "observes c w M"
    and L: "L = touched c \<union> reward_locs E txs \<union> set (vm_locs P S E M db (tx_idx v) (txs ! tx_idx v)) \<union> locs_of P S E txs M db (tx_idx v)"
    and agree: "kinds_agree P L" and ex: "vm_execute P S E txs M (memory c) db v = Some (Inl e, mv)"
  shows "e \<noteq> ExecutionError (DatabaseError InvalidMemoryValueType)"
proof (rule vm_execute_typed [OF ex _ agree])
  show "values_fit P L (M k)" for k
  proof (rule values_fit_mono)
    from run(3) have "M k \<in> set (history c)" by (auto simp: observes_def)
    with history_typed [OF run(1,2)] show "values_fit P (touched c \<union> reward_locs E txs) (M k)" by blast
  qed (auto simp: L)
  show "rewards_within P L (rewards_of P E db (txs ! tx_idx v) r)" for db r
    by (rule block_rewards_within [OF run(2), of txs]) (auto simp: L)
qed (auto simp: L)

end

lemma eth_reward_locs: "reward_chain.reward_locs (eth_build_mv_memory P) E txs = {LocBasic (ve_beneficiary E)}"
  by (simp add: ethereum.reward_locs_def eth_build_mv_memory_def mv_new_def)

text \<open>
  C9: The multi-version memory is typed. In every state the memory has during a run of a block of Ethereum, an account location holds
  account values (absolute or lazy) only, a code hash location code hashes and destructions only, and a slot slot values only. Hence an
  execution that reads any of these states never fails with \<^verbatim>\<open>InvalidMemoryValueType\<close>, neither in a read nor when rewards are credited.
  Locations of different kinds among those the block wrote and the execution uses must not have the same hash.
\<close>

theorem memory_values_typed:
  assumes "executor_reaches P S E txs (eth_build_mv_memory P (ve_beneficiary E) txs) k c" "ve_rewards E = eth_get_rewards"
    and "observes c w M" "kinds_agree P (insert (LocBasic (ve_beneficiary E)) (touched c \<union>
      set (vm_locs P S E M db (tx_idx v) (txs ! tx_idx v)) \<union> locs_of P S E txs M db (tx_idx v)))"
  shows "(\<forall>mv \<in> set (history c). \<forall>l \<in> insert (LocBasic (ve_beneficiary E)) (touched c). \<forall>i inc x.
      entry_at mv (hash_deterministic P l) i = Some (Data inc x) \<longrightarrow> location_value l x) \<and>
    vm_execute P S E txs M (memory c) db v \<noteq> Some (Inl (ExecutionError (DatabaseError InvalidMemoryValueType)), mv')"
proof (intro conjI ballI allI impI notI)
  let ?L = "touched c \<union> {LocBasic (ve_beneficiary E)}"
  fix mv l i inc x
  assume mv: "mv \<in> set (history c)" and l: "l \<in> insert (LocBasic (ve_beneficiary E)) (touched c)"
    and e: "entry_at mv (hash_deterministic P l) i = Some (Data inc x)"
  have "values_fit P ?L mv" using ethereum.history_typed [OF assms(1,2)] mv by (simp add: eth_reward_locs)
  with e obtain l' where l': "l' \<in> ?L" "hash_deterministic P l = hash_deterministic P l'" "location_value l' x"
    unfolding values_fit_def fits_def by blast
  with assms(4) l have "location_value l = location_value l'" unfolding kinds_agree_def by auto
  with l'(3) show "location_value l x" by simp
next
  assume "vm_execute P S E txs M (memory c) db v = Some (Inl (ExecutionError (DatabaseError InvalidMemoryValueType)), mv')"
  from ethereum.execution_typed [OF assms(1-3) refl _ this] assms(4) show False by (simp add: eth_reward_locs Un_assoc)
qed

text \<open>The sample hash tells the kinds apart by its last two bits.\<close>

lemma sample_hash_kind:
  assumes "hash_deterministic sample_api l = hash_deterministic sample_api l'"
  shows "location_value l = location_value l'"
proof -
  let ?kind = "\<lambda>l. case l of LocBasic _ \<Rightarrow> 0 | LocCodeHash _ \<Rightarrow> 1 | LocStorage _ _ \<Rightarrow> (2 :: int)"
  have "uint (4 * x + r) mod 4 = uint r mod 4" for x r :: "64 word"
    by (simp add: uint_word_ariths mod_mod_cancel mod_simps)
  from this [of _ 0] this [of _ 1] this [of _ 2] have "uint (hash_deterministic sample_api l) mod 4 = ?kind l" for l
    by (cases l) (simp_all add: sample_api_def del: distrib_left_numeral)
  with assms have "?kind l = ?kind l'" by metis
  then show ?thesis by (cases l; cases l') (auto simp: fun_eq_iff)
qed

text \<open>The sample run ends in a state from which the second transaction could be executed once more.\<close>

theorem memory_values_typed_witness:
  "\<exists>c :: (sample_code, bool list, unit) executor. workers c = pair_joined \<and> sample_mv2 \<in> set (history c) \<and>
     (\<forall>l \<in> insert (LocBasic 99) (touched c). \<forall>i inc x. entry_at sample_mv2 (hash_deterministic sample_api l) i = Some (Data inc x) \<longrightarrow> location_value l x)"
proof -
  obtain c :: "(sample_code, bool list, unit) executor" where
    c: "executor_reaches sample_api sample_storage eth_env [0 :: nat, 1] sample_mv 1 c" "workers c = pair_joined" "memory c = sample_mv2"
    by (rule pair_run)
  have build: "eth_build_mv_memory sample_api (ve_beneficiary eth_env) [0 :: nat, 1] = sample_mv" by (rule eth_build)
  have mv: "sample_mv2 \<in> set (history c)" using current_in_history [OF c(1)] c(3) last_in_set by metis
  have agree: "kinds_agree sample_api L" for L using sample_hash_kind unfolding kinds_agree_def by blast
  have "ve_rewards eth_env = eth_get_rewards" "ve_beneficiary eth_env = 99" by (simp_all add: eth_env_def sample_env_def)
  with memory_values_typed [OF c(1) [folded build] _ observes_current [OF c(1)] agree, of sample_db "first_version 1"] mv c(2)
  show ?thesis by (intro exI [of _ c]) simp
qed

end
