(* ===== verification/Serializable.thy ===== *)
theory Serializable
  imports Traces Parallel_Sample
begin

text \<open>
  A parallel run of a block has the results of executing the block in order: one transaction after the other, each in one
  go on what the earlier ones wrote.
\<close>

section \<open>Executing a block in order\<close>

definition execute_as ::
  "('bc, 'jt) revm_api \<Rightarrow> 'jt storage_api \<Rightarrow> ('bc, 'au, 'tx, 'lg) vm_env \<Rightarrow> 'tx list \<Rightarrow> bool \<Rightarrow> 'bc mv_memory \<Rightarrow> tx_version \<Rightarrow>
   (('jt, 'lg) tx_result \<times> 'bc mv_memory) option" where
  "execute_as P S E txs is_lazy mv v =
     (let tx = txs ! tx_idx v
      in case vm_run_as P S E is_lazy (\<lambda>_. mv) (new_vmdb E txs) (tx_idx v) tx of
           (Inr (Inr (r, state)), db) \<Rightarrow>
             (case vm_commit P E mv db v tx r state of Some (Inr (_, res), mv') \<Rightarrow> Some (res, mv') | _ \<Rightarrow> None)
         | _ \<Rightarrow> None)"

text \<open>
  The first \<open>n\<close> transactions in order, with given incarnation numbers and decisions to be lazy; \<open>None\<close> when one of them fails.
\<close>

primrec in_order ::
  "('bc, 'jt) revm_api \<Rightarrow> 'jt storage_api \<Rightarrow> ('bc, 'au, 'tx, 'lg) vm_env \<Rightarrow> 'tx list \<Rightarrow> (nat \<Rightarrow> bool) \<Rightarrow> (nat \<Rightarrow> nat) \<Rightarrow> 'bc mv_memory \<Rightarrow>
   nat \<Rightarrow> (('jt, 'lg) tx_result list \<times> 'bc mv_memory) option" where
  "in_order P S E txs is_lazy inc mv0 0 = Some ([], mv0)"
| "in_order P S E txs is_lazy inc mv0 (Suc i) =
     (case in_order P S E txs is_lazy inc mv0 i of
        None \<Rightarrow> None
      | Some (rs, mv) \<Rightarrow>
          (case execute_as P S E txs (is_lazy i) mv \<lparr>tx_idx = i, tx_incarnation = inc i\<rparr> of
             None \<Rightarrow> None
           | Some (res, mv') \<Rightarrow> Some (rs @ [res], mv')))"

lemma in_order_cong:
  "(\<And>j. j < i \<Longrightarrow> is_lazy j = is_lazy' j \<and> inc j = inc' j) \<Longrightarrow> in_order P S E txs is_lazy inc mv0 i = in_order P S E txs is_lazy' inc' mv0 i"
proof (induction i)
  case (Suc i)
  have eq: "is_lazy i = is_lazy' i" "inc i = inc' i" using Suc.prems [of i] by simp_all
  have "in_order P S E txs is_lazy inc mv0 i = in_order P S E txs is_lazy' inc' mv0 i" by (rule Suc.IH) (simp add: Suc.prems)
  then show ?case by (simp only: in_order.simps eq)
qed simp

section \<open>The first transaction\<close>

text \<open>The first transaction reads the storage only, so that its reads are valid in any memory.\<close>

definition from_storage :: "'au vmdb \<Rightarrow> bool" where
  "from_storage db \<longleftrightarrow> db_tx_idx db = 0 \<and> (\<forall>h. set (read_origins_of (db_read_set db) h) \<subseteq> {StorageOrigin})"

lemma from_storage_match:
  assumes "from_storage db" shows "reads_match mv db"
  unfolding reads_match_def
proof (intro allI impI)
  fix h os assume "map_of (db_read_set db) h = Some os"
  then have "read_origins_of (db_read_set db) h = os" by (simp add: read_origins_of_def)
  with assms have "set os \<subseteq> {StorageOrigin}" "db_tx_idx db = 0" by (auto simp: from_storage_def)
  moreover have "set os \<subseteq> {StorageOrigin} \<Longrightarrow> origins_match t 0 os" for t by (induction os) auto
  ultimately show "origins_match (table_entry (mv_data mv) h) (db_tx_idx db) os" by simp
qed

lemma from_storage_touch: "from_storage db \<Longrightarrow> from_storage (touch db h)"
  by (simp add: from_storage_def touch_def)

lemma from_storage_read:
  assumes "read_from db h StorageOrigin ans = (r, db')" "from_storage db" shows "from_storage db'"
proof -
  have "set os \<subseteq> {StorageOrigin}" if "push_origin (read_origins_of (db_read_set db) h) StorageOrigin = Inr os" for os
    using push_origin_ok(3) [OF that] assms(2) by (auto simp: from_storage_def)
  with assms show ?thesis by (fastforce simp: read_from_def from_storage_def split: sum.splits if_splits)
qed

lemma from_storage_code_hash: "get_code_hash P S mv db a = (r, db') \<Longrightarrow> from_storage db \<Longrightarrow> from_storage db'"
  using from_storage_read from_storage_touch
  by (fastforce simp: get_code_hash_def Let_def closest_eq from_storage_def)

lemma from_storage_slot: "db_storage P S mv db a i = (r, db') \<Longrightarrow> from_storage db \<Longrightarrow> from_storage db'"
  using from_storage_read from_storage_touch by (fastforce simp: db_storage_def Let_def from_storage_def)

lemma from_storage_account:
  assumes "settle_basic P S mv db a h acc final = (r, db')" "from_storage db"
  shows "from_storage db'"
proof -
  have "finish_basic P S mv db a h account = (r, db') \<Longrightarrow> from_storage db'" for account
    using from_storage_code_hash [of P S mv db a] assms(2)
    by (fastforce simp: finish_basic_def from_storage_def split: prod.splits sum.splits if_splits)
  with assms show ?thesis by (auto simp: settle_basic_def Let_def split: option.splits if_splits)
qed

lemma from_storage_basic:
  assumes "db_basic P S mv mvc db a = (r, db')" "from_storage db" shows "from_storage db'"
proof -
  have "from_storage db'" if read: "db_basic_read P S mv mvc db a h = (r, db')" for h
  proof -
    have rv: "read_versions mv h (db_tx_idx db) prev = Inr (None, lazy_acc_init)" for prev
      using assms(2) by (simp add: read_versions_def from_storage_def split: option.splits)
    have os: "origins = [StorageOrigin]" if "read_fallback S a prev (None, lazy_acc_init) = Inr (final, origins)" for prev final origins
      using that by (auto simp: read_fallback_def lazy_acc_init_def split: if_splits sum.splits option.splits)
    have "from_storage ((touch db h)\<lparr>db_read_set := AList.update h origins (db_read_set (touch db h))\<rparr>)"
      if "read_fallback S a prev (None, lazy_acc_init) = Inr (final, origins)" for prev final origins
      using from_storage_touch [OF assms(2), of h] os [OF that] by (simp add: from_storage_def)
    with read from_storage_touch [OF assms(2), of h] show ?thesis
      by (fastforce simp: db_basic_read_def Let_def rv split: sum.splits prod.splits if_splits intro: from_storage_account)
  qed
  with assms show ?thesis by (auto simp: db_basic_def Let_def split: if_splits)
qed

lemma from_storage_run: "run_evm P S M prog n db = (r, db') \<Longrightarrow> from_storage db \<Longrightarrow> from_storage db'"
proof (induction prog arbitrary: n db)
  case (EvmBasic a k)
  then show ?case using from_storage_basic by (fastforce split: prod.splits sum.splits)
next
  case (EvmStorage a i k)
  then show ?case using from_storage_slot by (fastforce split: prod.splits sum.splits)
next
  case (EvmCode h k)
  then show ?case using db_code_by_hash_state by (fastforce split: prod.splits sum.splits)
next
  case (EvmBlockHash b k)
  then show ?case using db_block_hash_state by (fastforce split: prod.splits sum.splits)
qed simp

lemma first_reads_match:
  assumes "vm_run P S E M db 0 full_tx = (r, db')" shows "reads_match mv db'"
proof -
  let ?tx = "ve_tx_env E full_tx"
  let ?set = "set_tx P S (M 0) db 0 ?tx (hash_deterministic P (LocBasic (te_caller ?tx))) (to_hash_of P ?tx) (ve_has_nonce E full_tx)"
  have "from_storage db0" if "?set = (x, db0)" for x db0
    using that from_storage_code_hash
    by (fastforce simp: set_tx_def Let_def from_storage_def read_origins_of_def split: tx_kind.splits prod.splits sum.splits)
  with assms show ?thesis
    by (intro from_storage_match) (auto simp: vm_run_def Let_def split: prod.splits sum.splits intro: from_storage_run)
qed

section \<open>Replaying one transaction\<close>

text \<open>The database is reset before a run.\<close>

lemma vm_run_as_db:
  "vm_run_as P S E b M db i tx = vm_run_as P S E b M db2 i tx" "vm_locs_as P S E b M db i tx = vm_locs_as P S E b M db2 i tx"
proof -
  have "set_tx P S mv db i t x y z = set_tx P S mv db2 i t x y z" for mv t x y z
    by (cases db; cases db2; simp add: set_tx_def Let_def)
  then show "vm_run_as P S E b M db i tx = vm_run_as P S E b M db2 i tx" "vm_locs_as P S E b M db i tx = vm_locs_as P S E b M db2 i tx"
    by (simp_all add: vm_run_as_def vm_locs_as_def)
qed

lemma commit_elsewhere:
  assumes "vm_commit P E mv db v tx r state = Some (Inr (f, res), mv')" "write_set_of P E db tx r state = Some ws"
    and "\<And>a account. (a, account) \<in> set state \<Longrightarrow> new_contract P db a account \<Longrightarrow> ai_code (ra_info account) \<noteq> None"
  obtains f2 mv3 codes addrs new where "vm_commit P E mv2 db v2 tx r state = Some (Inr (f2, res), mv3)"
    "mv_record (add_lazy_addresses (mv2\<lparr>new_bytecodes := codes\<rparr>) addrs) v2 (db_read_set db) ws = (new, mv3)"
proof -
  from publish_codes_total [of state P db "new_bytecodes mv2"] assms(3)
  obtain codes where codes: "publish_codes P db state (new_bytecodes mv2) = Some codes" by blast
  from assms(1,2) obtain addrs st where a: "lazy_addresses_of db = Some addrs" "state_transitions_from_revm P (ve_eip161 E) state = Some st"
    "res = \<lparr>tr_receipt = receipt_from_revm r, tr_state = st\<rparr>"
    by (auto simp: vm_commit_def Let_def split: option.splits prod.splits)
  obtain new mv3 where rec: "mv_record (add_lazy_addresses (mv2\<lparr>new_bytecodes := codes\<rparr>) addrs) v2 (db_read_set db) ws = (new, mv3)"
    by (cases "mv_record (add_lazy_addresses (mv2\<lparr>new_bytecodes := codes\<rparr>) addrs) v2 (db_read_set db) ws")
  show thesis by (rule that [OF _ rec]) (use codes a rec assms(2) in \<open>simp add: vm_commit_def\<close>)
qed

lemma reads_match_below:
  assumes "reads_match mv db" "\<And>h j. j < db_tx_idx db \<Longrightarrow> entry_at mv' h j = entry_at mv h j"
  shows "reads_match mv' db"
  using assms origins_match_cong [of "db_tx_idx db"] unfolding reads_match_def by metis

text \<open>A run that saw states of the history gives the same on a memory that agrees with the present one below it.\<close>

lemma replay:
  assumes i: "i < length txs" and inv: "inv_trace P S E txs code_of c" and con: "consistent_code P S E txs code_of"
    and inj: "inj_on (hash_deterministic P) (accessed c)"
    and tr: "traced P S E txs (history c) (accessed c) (touched c) i db' ws res"
    and reads: "ll_read (last_locations (memory c) ! i) = db_read_set db'" "validate_read_locations (memory c) i"
    and mv: "\<And>h j. j < i \<Longrightarrow> entry_at mv h j = entry_at (memory c) h j" "code_sound code_of mv"
  obtains r state f mv3 codes addrs new where
    "vm_run_as P S E (db_is_lazy db') (\<lambda>_. mv) (new_vmdb E txs) i (txs ! i) = (Inr (Inr (r, state)), db')"
    "vm_commit P E mv db' v (txs ! i) r state = Some (Inr (f, res), mv3)"
    "mv_record (add_lazy_addresses (mv\<lparr>new_bytecodes := codes\<rparr>) addrs) v (db_read_set db') ws = (new, mv3)"
    "write_set_of P E db' (txs ! i) r state = Some ws"
    "\<And>a account. (a, account) \<in> set state \<Longrightarrow> new_contract P db' a account \<Longrightarrow>
       code_of (ai_code_hash (ra_info account)) = ai_code (ra_info account)"
    "set (vm_locs_as P S E (db_is_lazy db') (\<lambda>_. mv) (new_vmdb E txs) i (txs ! i)) \<subseteq> accessed c" "set (state_locs P state) \<subseteq> touched c"
proof -
  from tr obtain M t db r state mv1 v1 f1 mv1' where t: "mono t" "\<forall>k. t k < length (history c) \<and> M k = history c ! t k"
    and run: "vm_run P S E M db i (txs ! i) = (Inr (Inr (r, state)), db')" and L: "set (vm_locs P S E M db i (txs ! i)) \<subseteq> accessed c"
    and T: "set (state_locs P state) \<subseteq> touched c" and ws: "write_set_of P E db' (txs ! i) r state = Some ws"
    and co: "vm_commit P E mv1 db' v1 (txs ! i) r state = Some (Inr (f1, res), mv1')"
    unfolding traced_def by blast
  have inj': "inj_on (hash_deterministic P) (set (vm_locs P S E M db i (txs ! i)))" by (rule inj_on_subset [OF inj L])
  note vr = validate_reads_match [OF run inj' reads(1)]
  have codes: "inv_codes code_of c" and ver: "inv_versions (length txs) c" using inv by (simp_all add: inv_trace_def)
  have mem: "memory c \<in> set (history c)" using codes last_in_set by (force simp: inv_codes_def)
  have Mk: "M k \<in> set (history c)" for k using t(2) by simp
  have grows: "code_grows (M 0) (M k)" for k
  proof (cases "t 0 = t k")
    case True
    then show ?thesis using t(2) by simp
  next
    case False
    with t(1) have "t 0 < t k" by (metis monoD le0 le_neq_implies_less)
    with codes t(2) show ?thesis by (metis inv_codes_def sorted_wrt_nth_less)
  qed
  have "memories_agree P S i (known_codes S i (M 0) \<inter> known_codes S i mv) (M k) mv" for k
    unfolding memories_agree_def
  proof (intro conjI allI ballI)
    show "versions_agree i (table_entry (mv_data (M k)) h) (table_entry (mv_data mv) h)" for h
      unfolding versions_agree_def
    proof (intro allI impI)
      fix j inc x x' assume "j < i" "entry_at (M k) h j = Some (Data inc x)" "entry_at mv h j = Some (Data inc x')"
      with inv_versionsD(3) [OF ver Mk _ mem] mv(1) show "x = x'" by metis
    qed
  next
    fix x assume x: "x \<in> known_codes S i (M 0) \<inter> known_codes S i mv \<union> known_codes S i (M k) \<inter> known_codes S i mv"
    have sound: "code_sound code_of (M k)" for k using codes Mk by (simp add: inv_codes_def)
    have "read_code P S mv (Some x) = Inr (code_of x)"
      using x by (intro read_known_code [OF con mv(2) _ mv(2)]) auto
    moreover have "read_code P S (M k) (Some x) = Inr (code_of x)"
      using x read_known_code [OF con sound _ sound grows] read_known_code [OF con sound _ sound map_le_refl] by blast
    ultimately show "read_code P S (M k) (Some x) = read_code P S mv (Some x)" by simp
  qed
  moreover have "reads_match mv db'"
    by (rule reads_match_below [of "memory c"]) (use vr reads(2) mv(1) in auto)
  ultimately have "vm_run_as P S E (db_is_lazy db') (\<lambda>_. mv) db i (txs ! i) = (Inr (Inr (r, state)), db')"
    "vm_locs_as P S E (db_is_lazy db') (\<lambda>_. mv) db i (txs ! i) = vm_locs P S E M db i (txs ! i)"
    by (rule matching_run_transfers(1,2) [OF run inj'])+
  with L have run': "vm_run_as P S E (db_is_lazy db') (\<lambda>_. mv) (new_vmdb E txs) i (txs ! i) = (Inr (Inr (r, state)), db')"
    and locs: "set (vm_locs_as P S E (db_is_lazy db') (\<lambda>_. mv) (new_vmdb E txs) i (txs ! i)) \<subseteq> accessed c"
    using vm_run_as_db [of P S E _ _ "new_vmdb E txs" _ _ db] by simp_all
  note new = consistent_codeD(1) [OF con run i]
  from commit_elsewhere [OF co ws, of mv v] new obtain f mv3 codes' addrs nw where
    "vm_commit P E mv db' v (txs ! i) r state = Some (Inr (f, res), mv3)"
    "mv_record (add_lazy_addresses (mv\<lparr>new_bytecodes := codes'\<rparr>) addrs) v (db_read_set db') ws = (nw, mv3)" by metis
  from that [OF run' this ws _ locs T] new show thesis by blast
qed

section \<open>Replaying the block\<close>

context reward_chain
begin

text \<open>The memory after the first \<open>k\<close> transactions agrees with the final one on them and is fresh on the others.\<close>

definition replayed ::
  "('bc, 'au, 'tx, 'lg) vm_env \<Rightarrow> 'tx list \<Rightarrow> (b256 \<rightharpoonup> 'bc) \<Rightarrow> ('bc, 'jt, 'lg) executor \<Rightarrow> nat \<Rightarrow> 'bc mv_memory \<Rightarrow> bool" where
  "replayed E txs code_of c k mv \<longleftrightarrow> mv_wf (length txs) mv \<and> estimates_covered (bound_to_write E txs) mv \<and> code_sound code_of mv \<and>
     (\<forall>h j. entry_at mv h j = (if j < k then entry_at (memory c) h j else entry_at (build (ve_beneficiary E) txs) h j))"

lemma replay_next:
  assumes inv: "inv_trace P S E txs code_of c" and con: "consistent_code P S E txs code_of"
    and inj: "inj_on (hash_deterministic P) (accessed c)" and rew: "ve_rewards E = rewards"
    and i: "i < length txs" "no_estimates (memory c) i" "validate_read_locations (memory c) i"
    and tr: "traced P S E txs (history c) (accessed c) (touched c) i db' ws res" "ll_read (last_locations (memory c) ! i) = db_read_set db'"
    and ent: "\<forall>h \<in> fst ` set ws. entry_at (memory c) h i = Some (Data inc (the (map_of (rev ws) h)))"
      "\<forall>h. h \<notin> fst ` set ws \<longrightarrow> (\<forall>inc x. entry_at (memory c) h i \<noteq> Some (Data inc x))"
    and mv: "replayed E txs code_of c i mv"
  obtains mv' where "execute_as P S E txs (db_is_lazy db') mv \<lparr>tx_idx = i, tx_incarnation = inc\<rparr> = Some (res, mv')"
    "replayed E txs code_of c (Suc i) mv'"
proof -
  let ?v = "\<lparr>tx_idx = i, tx_incarnation = inc\<rparr>" and ?n = "length txs"
  have m: "mv_wf ?n mv" "estimates_covered (bound_to_write E txs) mv" "code_sound code_of mv"
    and old: "\<And>h j. entry_at mv h j = (if j < i then entry_at (memory c) h j else entry_at (build (ve_beneficiary E) txs) h j)"
    using mv by (simp_all add: replayed_def)
  from replay [OF i(1) inv con inj tr i(3), of mv ?v] old m(3) obtain r state f mv' codes addrs new where
    run: "vm_run_as P S E (db_is_lazy db') (\<lambda>_. mv) (new_vmdb E txs) i (txs ! i) = (Inr (Inr (r, state)), db')"
    and co: "vm_commit P E mv db' ?v (txs ! i) r state = Some (Inr (f, res), mv')"
    and rec: "mv_record (add_lazy_addresses (mv\<lparr>new_bytecodes := codes\<rparr>) addrs) ?v (db_read_set db') ws = (new, mv')"
    and ws: "write_set_of P E db' (txs ! i) r state = Some ws"
    and code: "\<And>a account. (a, account) \<in> set state \<Longrightarrow> new_contract P db' a account \<Longrightarrow>
       code_of (ai_code_hash (ra_info account)) = ai_code (ra_info account)" by metis
  let ?mv = "add_lazy_addresses (mv\<lparr>new_bytecodes := codes\<rparr>) addrs"
  have same: "mv_data ?mv = mv_data mv" "last_locations ?mv = last_locations mv" by (simp_all add: add_lazy_addresses_def)
  have wf: "mv_wf ?n ?mv" using m(1) by (intro mv_wf_lazy) (simp add: mv_wf_def)
  have v: "tx_idx ?v < ?n" using i(1) by simp
  have R: "bound_to_write E txs (tx_idx ?v) \<subseteq> fst ` set ws"
    using apply_rewards_keys [OF ws [unfolded write_set_of_def]] by (auto simp: bound_to_write_def rewards_of_def rew)
  have "estimates_covered (bound_to_write E txs) ?mv" using m(2) by (simp add: estimates_covered_def same)
  note cov = covered_record [OF rec wf v this R]
  note spec = record_spec [OF rec mv_wfD(2) [OF wf v]]
  have "entry_at mv' h j = (if j < Suc i then entry_at (memory c) h j else entry_at (build (ve_beneficiary E) txs) h j)" for h j
  proof (cases "j = i")
    case True
    show ?thesis
    proof (cases "h \<in> fst ` set ws")
      case False
      have "entry_at (memory c) h i = None"
        using ent(2) i(2) False unfolding no_estimates_def by (metis memory_entry.exhaust option.exhaust)
      moreover have "entry_at mv' h i = None"
      proof (rule ccontr)
        assume "entry_at mv' h i \<noteq> None"
        then obtain e where e: "entry_at mv' h i = Some e" by blast
        with spec(2) [of h i] False old [of h i] have "entry_at (build (ve_beneficiary E) txs) h i = Some e"
          by (simp add: same split: if_splits)
        from build_estimates [OF this] e cov show False by (simp add: no_estimates_def)
      qed
      ultimately show ?thesis using True by simp
    qed (use spec(2) [of h i] ent(1) True in auto)
  next
    case False
    with spec(2) [of h j] old [of h j] show ?thesis by (auto simp: same)
  qed
  moreover have "code_sound code_of mv'" using commit_code [OF co m(1) v m(3)] code by blast
  ultimately have "replayed E txs code_of c (Suc i) mv'"
    using cov mv_wf_record [OF wf v rec] by (simp add: replayed_def)
  moreover have "execute_as P S E txs (db_is_lazy db') mv ?v = Some (res, mv')"
    using run co by (simp add: execute_as_def)
  ultimately show thesis using that by blast
qed

text \<open>Every transaction of a finished run can be replayed in order.\<close>

lemma replay_block:
  assumes inv: "inv_trace P S E txs code_of c" and con: "consistent_code P S E txs code_of"
    and inj: "inj_on (hash_deterministic P) (accessed c)" and rew: "ve_rewards E = rewards" and codes: "new_bytecodes (build (ve_beneficiary E) txs) = Map.empty"
    and fin: "{..<length txs} \<subseteq> finished c" and val: "\<And>i. i < length txs \<Longrightarrow> no_estimates (memory c) i \<and> validate_read_locations (memory c) i"
  shows "\<exists>is_lazy inc mv. in_order P S E txs is_lazy inc (build (ve_beneficiary E) txs) (length txs) =
      Some (map (\<lambda>i. the (results c ! i)) [0..<length txs], mv) \<and>
    (\<forall>h i. entry_at mv h i = entry_at (memory c) h i) \<and> (\<forall>i < length txs. 0 < i \<longrightarrow> (is_lazy i \<longleftrightarrow> i \<notin> needing c))"
proof -
  let ?n = "length txs" and ?mv0 = "build (ve_beneficiary E) txs"
  let ?replay = "\<lambda>k is_lazy inc mv. in_order P S E txs is_lazy inc ?mv0 k = Some (map (\<lambda>i. the (results c ! i)) [0..<k], mv) \<and>
    replayed E txs code_of c k mv \<and> (\<forall>i < k. 0 < i \<longrightarrow> (is_lazy i \<longleftrightarrow> i \<notin> needing c))"
  have "\<exists>is_lazy inc mv. ?replay k is_lazy inc mv" if "k \<le> ?n" for k
    using that
  proof (induction k)
    case 0
    have "replayed E txs code_of c 0 ?mv0"
      using build_wf build_covered codes build_estimates [of "ve_beneficiary E" txs] by (fastforce simp: replayed_def code_sound_def)
    then show ?case by simp
  next
    case (Suc k)
    then obtain is_lazy inc mv where IH: "?replay k is_lazy inc mv" by auto
    have k: "k < ?n" "k \<in> finished c" using Suc.prems fin by auto
    with inv have "explained P S E txs c k" by (simp add: inv_trace_def inv_explained_def)
    then obtain inc1 db' ws res where x: "traced P S E txs (history c) (accessed c) (touched c) k db' ws res"
      "results c ! k = Some res" "ll_read (last_locations (memory c) ! k) = db_read_set db'" "k \<in> needing c \<longleftrightarrow> 0 < k \<and> \<not> db_is_lazy db'"
      "\<forall>h \<in> fst ` set ws. entry_at (memory c) h k = Some (Data inc1 (the (map_of (rev ws) h)))"
      "\<forall>h. h \<notin> fst ` set ws \<longrightarrow> (\<forall>inc x. entry_at (memory c) h k \<noteq> Some (Data inc x))"
      unfolding explained_def by (elim exE conjE) (rule that)
    from IH have mv: "replayed E txs code_of c k mv" by blast
    from replay_next [OF inv con inj rew k(1) _ _ x(1,3,5,6) mv] val [OF k(1)] obtain mv' where
      ex: "execute_as P S E txs (db_is_lazy db') mv \<lparr>tx_idx = k, tx_incarnation = inc1\<rparr> = Some (res, mv')"
      and "replayed E txs code_of c (Suc k) mv'" by blast
    moreover have "in_order P S E txs (is_lazy(k := db_is_lazy db')) (inc(k := inc1)) ?mv0 k = in_order P S E txs is_lazy inc ?mv0 k"
      by (rule in_order_cong) simp
    ultimately have "?replay (Suc k) (is_lazy(k := db_is_lazy db')) (inc(k := inc1)) mv'"
      using IH x(2,4) by (auto simp: less_Suc_eq)
    then show ?case by blast
  qed
  then obtain is_lazy inc mv where r: "?replay ?n is_lazy inc mv" by blast
  have wf: "mv_wf ?n (memory c)" using inv by (simp add: inv_trace_def inv_revalidation_def inv_memory_def)
  have "entry_at mv h i = entry_at (memory c) h i" for h i
  proof (cases "i < ?n")
    case False
    then have "entry_at (memory c) h i = None" "entry_at ?mv0 h i = None"
      using mv_wfD(4) [OF wf, of h i] mv_wfD(4) [OF build_wf, of "ve_beneficiary E" txs h i] by (meson not_None_eq)+
    with r False show ?thesis by (simp add: replayed_def)
  qed (use r in \<open>simp add: replayed_def\<close>)
  with r show ?thesis by blast
qed

lemma first_validates:
  assumes inv: "inv_trace P S E txs code_of c" and inj: "inj_on (hash_deterministic P) (accessed c)"
    and "0 < length txs" "0 \<in> finished c"
  shows "validate_read_locations (memory c) 0"
proof -
  have "explained P S E txs c 0" using inv assms(3,4) by (simp add: inv_trace_def inv_explained_def)
  then obtain db' ws res where "traced P S E txs (history c) (accessed c) (touched c) 0 db' ws res"
    and reads: "ll_read (last_locations (memory c) ! 0) = db_read_set db'" unfolding explained_def by blast
  then obtain M db r state where run: "vm_run P S E M db 0 (txs ! 0) = (Inr (Inr (r, state)), db')"
    and L: "set (vm_locs P S E M db 0 (txs ! 0)) \<subseteq> accessed c" unfolding traced_def by blast
  from validate_reads_match(1) [OF run inj_on_subset [OF inj L] reads] first_reads_match [OF run] show ?thesis by blast
qed

lemma build_fresh: "fresh_memory (length txs) (build b txs)"
  using build_wf build_estimates unfolding fresh_memory_def by blast

text \<open>A joined run without an abort reason has executed and explained every transaction, and can be replayed.\<close>

lemma joined_run_traced:
  assumes "executor_reaches P S E txs (build (ve_beneficiary E) txs) k c" "\<forall>w. pcs (workers c) w = Exited" "aborted_for c = None"
    and "new_bytecodes (build (ve_beneficiary E) txs) = Map.empty" "consistent_code P S E txs code_of"
  shows "inv_trace P S E txs code_of c" "{..<length txs} \<subseteq> finished c"
proof -
  show "inv_trace P S E txs code_of c" by (rule executor_trace [OF assms(1) build_fresh assms(4,5)])
  note inv = executor_invariant [OF assms(1)]
  from inv(2) assms(3) have "\<not> reason (workers c)" by (simp add: inv_results_def)
  from joined_workers_executed [OF executor_workers [OF assms(1)] assms(2) this] inv(1)
  show "{..<length txs} \<subseteq> finished c" by (auto simp: inv_history_def)
qed

lemma joined_run_replays:
  assumes run: "executor_reaches P S E txs (build (ve_beneficiary E) txs) k c" "\<forall>w. pcs (workers c) w = Exited" "aborted_for c = None"
    and rew: "ve_rewards E = rewards" and codes: "new_bytecodes (build (ve_beneficiary E) txs) = Map.empty"
    and con: "consistent_code P S E txs code_of" and inj: "inj_on (hash_deterministic P) (accessed c)"
    and i: "i < length txs" and lazy: "0 < i \<Longrightarrow> i \<notin> needing c \<Longrightarrow> validate_read_locations (memory c) i"
  shows "no_estimates (memory c) i \<and> validate_read_locations (memory c) i"
proof
  note tr = joined_run_traced [OF run codes con]
  from executor_invariant(1) [OF run(1)] have "block_run P S E txs (build (ve_beneficiary E) txs) (touched c) (finished c) (memory c)"
    by (simp add: inv_history_def)
  from executed_block_has_no_estimates [OF this rew] tr(2) i show "no_estimates (memory c) i" by blast
  show "validate_read_locations (memory c) i"
    using needing_reads_valid [OF run(1) build_fresh run(2,3) i] lazy i first_validates [OF tr(1) inj] tr(2) by (cases "i = 0") auto
qed

text \<open>Every joined run without an abort reason has the outcome of the block in order.\<close>

lemma joined_run_serializable:
  assumes "executor_reaches P S E txs (build (ve_beneficiary E) txs) k c" "\<forall>w. pcs (workers c) w = Exited" "aborted_for c = None"
    and "ve_rewards E = rewards" "new_bytecodes (build (ve_beneficiary E) txs) = Map.empty"
    and "consistent_code P S E txs code_of" "inj_on (hash_deterministic P) (accessed c)"
    and "\<forall>i < length txs. 0 < i \<longrightarrow> i \<notin> needing c \<longrightarrow> validate_read_locations (memory c) i"
  shows "\<exists>is_lazy inc mv. in_order P S E txs is_lazy inc (build (ve_beneficiary E) txs) (length txs) =
      Some (map (\<lambda>i. the (results c ! i)) [0..<length txs], mv) \<and>
    (\<forall>h i. entry_at mv h i = entry_at (memory c) h i) \<and> (\<forall>i < length txs. 0 < i \<longrightarrow> (is_lazy i \<longleftrightarrow> i \<notin> needing c))"
proof -
  note tr = joined_run_traced [OF assms(1-3,5,6)]
  show ?thesis by (rule replay_block [OF tr(1) assms(6,7,4,5) tr(2) joined_run_replays [OF assms(1-7)]]) (use assms(8) in blast)+
qed

end

section \<open>Serializability\<close>


text \<open>The same for RISE.\<close>

lemma rise_parallel_run_is_serializable:
  assumes "executor_reaches P S E txs (rise_build_mv_memory P Q (ve_beneficiary E) txs) k c" "\<forall>w. pcs (workers c) w = Exited" "aborted_for c = None"
    and "ve_rewards E = rise_get_rewards P Q" "consistent_code P S E txs code_of" "inj_on (hash_deterministic P) (accessed c)"
    and "\<forall>i < length txs. 0 < i \<longrightarrow> i \<notin> needing c \<longrightarrow> validate_read_locations (memory c) i"
  shows "\<exists>is_lazy inc mv. in_order P S E txs is_lazy inc (rise_build_mv_memory P Q (ve_beneficiary E) txs) (length txs) =
      Some (map (\<lambda>i. the (results c ! i)) [0..<length txs], mv) \<and>
    (\<forall>h i. entry_at mv h i = entry_at (memory c) h i) \<and> (\<forall>i < length txs. 0 < i \<longrightarrow> (is_lazy i \<longleftrightarrow> i \<notin> needing c))"
  by (rule rise.joined_run_serializable [OF assms(1-4) _ assms(5-7)]) (simp add: rise_build_mv_memory_def mv_new_def)

section \<open>The sample block\<close>

text \<open>An account comes with the hash of empty code or with a code hash that was recorded.\<close>

lemma basic_code_recorded:
  assumes "db_basic P S mv mvc db a = (Inr (Some info), db')" "\<not> is_empty_code_hash P info"
  shows "\<exists>b x. read_account_of db' (hash_basic P db a) = Some (b, Some x)"
proof -
  have "\<exists>b x. read_account_of db' h = Some (b, Some x)"
    if "finish_basic P S m db1 a h account = (Inr (Some info), db')" for m db1 h account
    using that assms(2) by (auto simp: finish_basic_def read_account_of_def update_conv
        split: prod.splits sum.splits option.splits)
  then have "\<exists>b x. read_account_of db' h = Some (b, Some x)"
    if "settle_basic P S m db1 a h acc final = (Inr (Some info), db')" for m db1 h acc final
    using that by (fastforce simp: settle_basic_def Let_def split: option.splits if_splits)
  with assms show ?thesis
    by (fastforce simp: db_basic_def db_basic_read_def Let_def split: if_splits sum.splits prod.splits)
qed

text \<open>The sample EVM makes no contract, and its storage knows no code.\<close>

lemma sample_codes: "consistent_code sample_api sample_storage eth_env txs Map.empty"
  unfolding consistent_code_def
proof (rule conjI; intro allI impI)
  fix M db r state db' a account i
  assume i: "i < length txs" and run: "vm_run sample_api sample_storage eth_env M db i (txs ! i) = (Inr (Inr (r, state)), db')"
    and acc: "(a, account) \<in> set state" and new: "new_contract sample_api db' a account"
  let ?n = "txs ! i" and ?a = "te_caller (sample_tx (txs ! i))"
  let ?set = "set_tx sample_api sample_storage (M 0) db i (sample_tx ?n) (hash_deterministic sample_api (LocBasic ?a)) (to_hash_of sample_api (sample_tx ?n)) True"
  have env: "ve_tx_env eth_env = sample_tx" "ve_has_nonce eth_env = (\<lambda>_. True)" "ve_evm eth_env = sample_evm"
    by (simp_all add: eth_env_def sample_env_def)
  obtain db0 info db1 v where s: "?set = (Inr (), db0)" and b: "db_basic sample_api sample_storage (M 1) (M 2) db0 ?a = (Inr info, db1)"
    and v: "db_storage sample_api sample_storage (M 3) db1 50 1 = (Inr v, db')" and st: "state = sample_state ?a info v"
    using run by (auto simp: vm_run_def Let_def env sample_evm_def numeral_eq_Suc split: prod.splits sum.splits)
  have "db_wf sample_api UNIV db0" using set_tx_ok(1) [OF s] by simp
  then have h: "hash_basic sample_api db0 ?a = hash_deterministic sample_api (LocBasic ?a)" by (rule hash_basic_wf)
  have ra: "read_account_of db' = read_account_of db1"
    using v by (auto simp: db_storage_def read_from_def touch_def read_account_of_def Let_def fun_eq_iff
        split: option.splits memory_entry.splits memory_value.splits sum.splits if_splits)
  from acc new st have a: "a = ?a" and ai: "ra_info account = (case info of
       Some acc \<Rightarrow> acc\<lparr>ai_balance := ai_balance acc - 100, ai_nonce := ai_nonce acc + 1\<rparr>
     | None \<Rightarrow> \<lparr>ai_balance = 0, ai_nonce = 1, ai_code_hash = 77, ai_code = None\<rparr>)"
    by (auto simp: sample_state_def)
  show "ai_code (ra_info account) \<noteq> None \<and> Map.empty (ai_code_hash (ra_info account)) = ai_code (ra_info account)"
  proof (cases info)
    case None
    with new ai show ?thesis by (simp add: is_new_code_def sample_api_def)
  next
    case (Some acc)
    with new ai have "\<not> is_empty_code_hash sample_api acc" by (simp add: is_new_code_def)
    from basic_code_recorded [OF b [unfolded Some] this] new h ra a show ?thesis by (auto simp: is_new_code_def)
  qed
next
  fix a x assume "st_code_hash sample_storage a = Inr (Some x)"
  then show "\<exists>code. st_code_by_hash sample_storage x = Inr code \<and> Map.empty x = map_option (bytecode_from sample_api) code"
    by (simp add: sample_storage_def in_memory_api_def in_memory_new_def im_code_by_hash_def)
qed

lemma sample_build: "eth_build_mv_memory sample_api (ve_beneficiary eth_env) [0 :: nat, 1] = sample_mv"
  by (rule eth_build)


text \<open>
  C2: Nothing stays unvalidated. When the workers have left and no abort reason was recorded, every transaction
  whose last execution asked for validation has a read set that is valid in the final memory, whatever the
  interleaving of executions, aborts, validations and the four indices of the scheduler was.
\<close>

theorem reads_valid_at_end:
  assumes "executor_reaches P S E txs (eth_build_mv_memory P (ve_beneficiary E) txs) k c"
    and "\<forall>w. pcs (workers c) w = Exited" "aborted_for c = None" "i < length txs" "i \<in> needing c"
  shows "validate_read_locations (memory c) i"
  by (rule needing_reads_valid [OF assms(1) ethereum.build_fresh assms(2-5)])

theorem reads_valid_at_end_witness:
  "\<exists>c :: (sample_code, bool list, unit) executor. workers c = pair_joined \<and> 1 \<in> needing c \<and> validate_read_locations (memory c) 1"
proof -
  obtain c :: "(sample_code, bool list, unit) executor" where
    c: "executor_reaches sample_api sample_storage eth_env [0 :: nat, 1] sample_mv 1 c" "workers c = pair_joined" "aborted_for c = None"
      "needing c = {1}" by (rule pair_run)
  have "\<forall>w. pcs (workers c) w = Exited" using c(2) pair_exited by simp
  from reads_valid_at_end [OF c(1) [folded sample_build] this c(3), of 1] c(2,4) show ?thesis by auto
qed

end
