(* ===== verification/Flat_State.thy ===== *)
theory Flat_State
  imports Serializable
begin

text \<open>
  An abstract specification of executing a block: one flat state of accounts, code hashes and slots, the transactions
  one after the other, and no versions, read sets or lazy values. The memory of versions represents a flat state at every index.
\<close>

section \<open>The flat state\<close>

record flat =
  f_basic :: "address \<Rightarrow> string + account_basic option"
  f_code_hash :: "address \<Rightarrow> string + b256 option"
  f_slot :: "address \<Rightarrow> u256 \<Rightarrow> string + u256"

text \<open>An answer of the state can be an error of the storage.\<close>

definition flat_of :: "'jt storage_api \<Rightarrow> flat" where
  "flat_of S = \<lparr>f_basic = st_basic S, f_code_hash = st_code_hash S, f_slot = st_storage S\<rparr>"

definition flat_info :: "('bc, 'jt) revm_api \<Rightarrow> (b256 \<rightharpoonup> 'bc) \<Rightarrow> flat \<Rightarrow> address \<Rightarrow> string + 'bc account_info option" where
  "flat_info P code_of F a =
     (case f_basic F a of
        Inl e \<Rightarrow> Inl e
      | Inr None \<Rightarrow> Inr None
      | Inr (Some b) \<Rightarrow>
          (case f_code_hash F a of
             Inl e \<Rightarrow> Inl e
           | Inr ch \<Rightarrow>
               Inr (Some \<lparr>ai_balance = ab_balance b, ai_nonce = ab_nonce b,
                 ai_code_hash = (case ch of Some x \<Rightarrow> x | None \<Rightarrow> keccak_empty P), ai_code = Option.bind ch code_of\<rparr>)))"

text \<open>Running the EVM on a flat state; \<open>None\<close> when a query fails. Code by hash and block hashes are asked of the storage.\<close>

primrec run_flat ::
  "('bc, 'jt) revm_api \<Rightarrow> 'jt storage_api \<Rightarrow> (b256 \<rightharpoonup> 'bc) \<Rightarrow> flat \<Rightarrow> ('bc, 'r) evm_run \<Rightarrow> 'r option" where
  "run_flat P S code_of F (EvmDone r) = Some r"
| "run_flat P S code_of F (EvmBasic a k) =
     (case flat_info P code_of F a of Inl e \<Rightarrow> None | Inr x \<Rightarrow> run_flat P S code_of F (k x))"
| "run_flat P S code_of F (EvmStorage a j k) =
     (case f_slot F a j of Inl e \<Rightarrow> None | Inr x \<Rightarrow> run_flat P S code_of F (k x))"
| "run_flat P S code_of F (EvmCode h k) =
     (case st_code_by_hash S h of
        Inl e \<Rightarrow> None
      | Inr c \<Rightarrow> run_flat P S code_of F (k (case c of Some code \<Rightarrow> bytecode_from P code | None \<Rightarrow> bc_default P)))"
| "run_flat P S code_of F (EvmBlockHash b k) =
     (case st_block_hash S b of Inl e \<Rightarrow> None | Inr x \<Rightarrow> run_flat P S code_of F (k x))"

text \<open>The accounts a transaction touched replace the old ones, unless they are empty and EIP-161 clears them.\<close>

definition flat_commit :: "('bc, 'jt) revm_api \<Rightarrow> bool \<Rightarrow> 'bc evm_state \<Rightarrow> flat \<Rightarrow> flat" where
  "flat_commit P eip161 state F =
     \<lparr>f_basic = (\<lambda>a. case map_of state a of
        Some account \<Rightarrow>
          if \<not> ra_touched account then f_basic F a
          else if eip161 \<and> account_is_empty P account then Inr None
          else Inr (Some \<lparr>ab_balance = ai_balance (ra_info account), ab_nonce = ai_nonce (ra_info account)\<rparr>)
      | None \<Rightarrow> f_basic F a),
      f_code_hash = (\<lambda>a. case map_of state a of
        Some account \<Rightarrow>
          if \<not> ra_touched account then f_code_hash F a
          else Inr (if is_empty_code_hash P (ra_info account) then None else Some (ai_code_hash (ra_info account)))
      | None \<Rightarrow> f_code_hash F a),
      f_slot = (\<lambda>a j. case map_of state a of
        Some account \<Rightarrow>
          (case map_of (changed_storage_slots P account) j of Some v \<Rightarrow> Inr (present_value v) | None \<Rightarrow> f_slot F a j)
      | None \<Rightarrow> f_slot F a j)\<rparr>"

text \<open>A payment to an account creates it unless it is zero.\<close>

fun paid :: "u256 \<Rightarrow> string + account_basic option \<Rightarrow> string + account_basic option" where
  "paid x (Inl e) = Inl e"
| "paid x (Inr None) = Inr (if 0 < x then Some \<lparr>ab_balance = x, ab_nonce = 0\<rparr> else None)"
| "paid x (Inr (Some b)) = Inr (Some (b\<lparr>ab_balance := saturating_add (ab_balance b) x\<rparr>))"

fun flat_pay :: "(address \<times> u256) list \<Rightarrow> flat \<Rightarrow> flat" where
  "flat_pay [] F = F"
| "flat_pay ((a, x) # rest) F = flat_pay rest (F\<lparr>f_basic := (f_basic F)(a := paid x (f_basic F a))\<rparr>)"

lemma saturating_add_assoc: "saturating_add (saturating_add a b) c = saturating_add a (saturating_add b (c :: 'a::len word))"
proof -
  have "min n (min n (x + y) + z) = min n (x + min n (y + z))" for n x y z :: nat by (simp add: min_def)
  then show ?thesis by (simp only: word_unat_eq_iff unat_saturating_add)
qed

lemma saturating_add_commute: "saturating_add a b = saturating_add b (a :: 'a::len word)"
  by (rule word_unat_eq_iff [THEN iffD2]) (simp add: unat_saturating_add add.commute)

lemma saturating_add_eq_0: "saturating_add a b = 0 \<longleftrightarrow> a = 0 \<and> b = (0 :: 'a::len word)"
proof -
  have "0 < (2 :: nat) ^ LENGTH('a) - 1" using one_less_power [of "2 :: nat" "LENGTH('a)"] by simp
  then have "min (2 ^ LENGTH('a) - 1) (unat a + unat b) = 0 \<longleftrightarrow> unat a = 0 \<and> unat b = 0" by auto
  then show ?thesis by (simp only: word_unat_eq_iff unat_saturating_add unat_0)
qed

lemma paid_add: "paid y (paid x v) = paid (saturating_add x y) v"
  by (cases "(x, v)" rule: paid.cases) (auto simp: saturating_add_assoc saturating_add_eq_0 word_gt_0)

section \<open>What the memory shows\<close>

definition evaluated :: "lazy_acc \<Rightarrow> account_basic \<Rightarrow> account_basic" where
  "evaluated acc b = \<lparr>ab_balance = evaluate_balance acc (ab_balance b), ab_nonce = ab_nonce b + la_nonce acc\<rparr>"

definition basic_view :: "string + account_basic option \<Rightarrow> mv_tree \<Rightarrow> nat \<Rightarrow> string + account_basic option" where
  "basic_view base t i =
     (case read_back t i [] lazy_acc_init of
        Inl e \<Rightarrow> Inl []
      | Inr (Some b, acc) \<Rightarrow> Inr (Some (evaluated acc b))
      | Inr (None, acc) \<Rightarrow>
          (case base of
             Inl e \<Rightarrow> Inl e
           | Inr (Some b) \<Rightarrow> Inr (Some (evaluated acc b))
           | Inr None \<Rightarrow> Inr (if 0 < la_addition acc then Some (evaluated acc account_basic_default) else None)))"

definition code_view :: "string + b256 option \<Rightarrow> mv_tree \<Rightarrow> nat \<Rightarrow> string + b256 option" where
  "code_view base t i =
     (case next_back t i of
        Some (k, Data inc SelfDestructed) \<Rightarrow> Inl []
      | Some (k, Data inc (ValCodeHash x)) \<Rightarrow> Inr (Some x)
      | _ \<Rightarrow> base)"

definition slot_view :: "string + u256 \<Rightarrow> mv_tree \<Rightarrow> nat \<Rightarrow> string + u256" where
  "slot_view base t i =
     (case next_back t i of
        None \<Rightarrow> base
      | Some (k, Data inc (ValStorage v)) \<Rightarrow> Inr v
      | _ \<Rightarrow> Inl [])"

text \<open>Only absolute accounts and payments below an index.\<close>

definition additive :: "mv_tree \<Rightarrow> nat \<Rightarrow> bool" where
  "additive t i \<longleftrightarrow> (\<forall>j < i. \<forall>e. t j = Some e \<longrightarrow> (\<exists>inc b. e = Data inc (ValBasic b)) \<or> (\<exists>inc x. e = Data inc (LazyRecipient x)))"

lemma additive_le: "additive t i \<Longrightarrow> k \<le> i \<Longrightarrow> additive t k"
  unfolding additive_def by (meson less_le_trans)

lemma additive_data: "additive t i \<Longrightarrow> next_back t i = Some (k, e) \<Longrightarrow> (\<exists>inc b. e = Data inc (ValBasic b)) \<or> (\<exists>inc x. e = Data inc (LazyRecipient x))"
  by (auto simp: additive_def next_back_Some_iff)

lemma read_back_additive:
  assumes "additive t i" "la_positive acc"
  shows "\<exists>found acc0 acc'. read_back t i [] lazy_acc_init = Inr (found, acc0) \<and> read_back t i [] acc = Inr (found, acc') \<and>
    la_positive acc0 \<and> la_positive acc' \<and> la_nonce acc0 = 0 \<and> la_nonce acc' = la_nonce acc \<and>
    la_addition acc' = saturating_add (la_addition acc) (la_addition acc0)"
  using assms
proof (induction i arbitrary: acc rule: less_induct)
  case (less i)
  show ?case
  proof (cases t i rule: next_back_cases)
    case none
    with less.prems show ?thesis by (simp add: read_back_steps lazy_acc_init_def)
  next
    case (estimate k)
    with additive_data [OF less.prems(1) estimate(1)] show ?thesis by simp
  next
    case (data k inc v)
    from additive_data [OF less.prems(1) data(1)] consider b where "v = ValBasic b" | x where "v = LazyRecipient x" by blast
    then show ?thesis
    proof cases
      case 1
      with data(1) less.prems show ?thesis by (simp add: read_back_steps pushed_def lazy_acc_init_def)
    next
      case 2
      have k: "additive t k" using additive_le [OF less.prems(1)] data(2) by simp
      let ?init = "lazy_add x (pushed lazy_acc_init k inc)" and ?a = "lazy_add x (pushed acc k inc)"
      have pos: "la_positive ?init" "la_positive ?a" and add: "la_addition ?init = x" "la_addition ?a = saturating_add (la_addition acc) x"
        and non: "la_nonce ?init = 0" "la_nonce ?a = la_nonce acc"
        using less.prems(2) by (simp_all add: lazy_add_def pushed_def lazy_acc_init_def)
      from less.IH [OF data(2) k pos(1)] less.IH [OF data(2) k pos(2)] data(1) 2 add non show ?thesis
        by (auto simp: read_back_steps saturating_add_assoc)
    qed
  qed
qed

lemma next_back_Suc: "next_back t (Suc i) = (case t i of None \<Rightarrow> next_back t i | Some e \<Rightarrow> Some (i, e))"
  by (simp split: option.splits)

lemma views_none:
  assumes "t i = None"
  shows "basic_view base t (Suc i) = basic_view base t i" "code_view base' t (Suc i) = code_view base' t i"
    "slot_view base'' t (Suc i) = slot_view base'' t i"
proof -
  have nb: "next_back t (Suc i) = next_back t i" using assms by (simp add: next_back_Suc)
  then have "read_back t (Suc i) [] acc = read_back t i [] acc" for acc by (simp add: read_back.simps)
  with nb show "basic_view base t (Suc i) = basic_view base t i" "code_view base' t (Suc i) = code_view base' t i"
    "slot_view base'' t (Suc i) = slot_view base'' t i" by (simp_all add: basic_view_def code_view_def slot_view_def)
qed

lemma views_data:
  "t i = Some (Data inc (ValBasic b)) \<Longrightarrow> basic_view base t (Suc i) = Inr (Some b)"
  "t i = Some (Data inc (ValCodeHash x)) \<Longrightarrow> code_view base' t (Suc i) = Inr (Some x)"
  "t i = Some (Data inc (ValStorage v)) \<Longrightarrow> slot_view base'' t (Suc i) = Inr v"
  by (simp_all add: basic_view_def code_view_def slot_view_def read_back_steps next_back_Suc pushed_def lazy_acc_init_def evaluated_def
      evaluate_balance_def)

lemma basic_view_paid:
  assumes "t i = Some (Data inc (LazyRecipient x))" "additive t i"
  shows "basic_view base t (Suc i) = paid x (basic_view base t i)"
proof -
  let ?acc = "lazy_add x (pushed lazy_acc_init i inc)"
  have acc: "la_positive ?acc" "la_addition ?acc = x" "la_nonce ?acc = 0" by (simp_all add: lazy_add_def pushed_def lazy_acc_init_def)
  have "next_back t (Suc i) = Some (i, Data inc (LazyRecipient x))" using assms(1) by (simp add: next_back_Suc)
  then have rb: "read_back t (Suc i) [] lazy_acc_init = read_back t i [] ?acc" by (simp add: read_back_steps)
  from read_back_additive [OF assms(2) acc(1)] acc obtain found acc0 acc' where
    r: "read_back t i [] lazy_acc_init = Inr (found, acc0)" "read_back t (Suc i) [] lazy_acc_init = Inr (found, acc')"
      "la_positive acc0" "la_positive acc'" "la_nonce acc0 = 0" "la_nonce acc' = 0"
      "la_addition acc' = saturating_add x (la_addition acc0)" unfolding rb by auto
  have ev: "evaluated acc' b = (evaluated acc0 b)\<lparr>ab_balance := saturating_add (ab_balance (evaluated acc0 b)) x\<rparr>" for b
    using r by (simp add: evaluated_def evaluate_balance_def saturating_add_assoc saturating_add_commute [of x])
  show ?thesis
  proof (cases found)
    case (Some b)
    with r ev show ?thesis by (simp add: basic_view_def)
  next
    case None
    have default: "evaluated acc0 account_basic_default = \<lparr>ab_balance = la_addition acc0, ab_nonce = 0\<rparr>"
      "evaluated acc' account_basic_default = \<lparr>ab_balance = saturating_add x (la_addition acc0), ab_nonce = 0\<rparr>"
      using r by (simp_all add: evaluated_def evaluate_balance_def account_basic_default_def)
    show ?thesis
    proof (cases base)
      case (Inr o0)
      with None r ev default show ?thesis
        by (cases o0) (auto simp: basic_view_def saturating_add_eq_0 saturating_add_commute [of x] word_gt_0)
    qed (use None r in \<open>simp add: basic_view_def\<close>)
  qed
qed

end
