(* ===== verification/Flat_Run.thy ===== *)
theory Flat_Run
  imports Flat_State
begin

text \<open>An execution in one go on a memory of versions gives what the EVM gives on the flat state the memory shows.\<close>

section \<open>Queries\<close>

definition shows_flat ::
  "('bc, 'jt) revm_api \<Rightarrow> 'jt storage_api \<Rightarrow> memory_location set \<Rightarrow> 'bc mv_memory \<Rightarrow> tx_idx \<Rightarrow> flat \<Rightarrow> bool" where
  "shows_flat P S L mv i F \<longleftrightarrow>
     (\<forall>a. LocBasic a \<in> L \<longrightarrow> f_basic F a = basic_view (st_basic S a) (table_entry (mv_data mv) (hash_deterministic P (LocBasic a))) i) \<and>
     (\<forall>a. LocCodeHash a \<in> L \<longrightarrow> f_code_hash F a = code_view (st_code_hash S a) (table_entry (mv_data mv) (hash_deterministic P (LocCodeHash a))) i) \<and>
     (\<forall>a j. LocStorage a j \<in> L \<longrightarrow> f_slot F a j = slot_view (st_storage S a j) (table_entry (mv_data mv) (hash_deterministic P (LocStorage a j))) i)"

definition codes_known :: "('bc, 'jt) revm_api \<Rightarrow> 'jt storage_api \<Rightarrow> (b256 \<rightharpoonup> 'bc) \<Rightarrow> tx_idx \<Rightarrow> 'bc mv_memory \<Rightarrow> bool" where
  "codes_known P S code_of i mv \<longleftrightarrow> (\<forall>x \<in> known_codes S i mv. read_code P S mv (Some x) = Inr (code_of x))"

text \<open>The database of an execution that read the flat state.\<close>

definition db_shows :: "('bc, 'jt) revm_api \<Rightarrow> memory_location set \<Rightarrow> flat \<Rightarrow> tx_idx \<Rightarrow> 'au vmdb \<Rightarrow> bool" where
  "db_shows P L F i db \<longleftrightarrow> db_wf P L db \<and> db_tx_idx db = i \<and> \<not> db_is_lazy db \<and>
     (\<forall>a. te_kind (db_tx db) = TxCall a \<longrightarrow> LocBasic a \<in> L \<and> f_code_hash F a = Inr (db_to_code_hash db)) \<and>
     (\<forall>h b ch. read_account_of db h = Some (b, ch) \<longrightarrow>
        (\<exists>a. LocBasic a \<in> L \<and> h = hash_deterministic P (LocBasic a) \<and> f_basic F a = Inr (Some b) \<and> f_code_hash F a = Inr ch))"

lemma read_from_answer: "read_from db h ro ans = (Inr x, db') \<Longrightarrow> ans = Inr x"
  by (auto simp: read_from_def split: sum.splits)

lemma read_from_accounts: "read_from db h ro ans = (r, db') \<Longrightarrow> db_read_accounts db' = db_read_accounts db"
  by (auto simp: read_from_def split: sum.splits)

lemma touch_accounts [simp]: "db_read_accounts (touch db h) = db_read_accounts db"
  by (simp add: touch_def)

lemma code_query:
  assumes "get_code_hash P S mv db a = (Inr x, db')" "shows_flat P S L mv (db_tx_idx db) F" "LocCodeHash a \<in> L"
  shows "f_code_hash F a = Inr x"
proof -
  let ?t = "table_entry (mv_data mv) (hash_deterministic P (LocCodeHash a))"
  have "code_view (st_code_hash S a) ?t (db_tx_idx db) = Inr x"
    using assms(1) by (auto simp: get_code_hash_def Let_def closest_eq code_view_def storage_result_def dest!: read_from_answer
        split: option.splits memory_entry.splits memory_value.splits sum.splits)
  with assms(2,3) show ?thesis by (simp add: shows_flat_def)
qed

lemma get_code_hash_accounts: "get_code_hash P S mv db a = (r, db') \<Longrightarrow> db_read_accounts db' = db_read_accounts db"
  by (auto simp: get_code_hash_def Let_def dest!: read_from_accounts split: option.splits memory_entry.splits memory_value.splits)

lemma slot_query:
  assumes "db_storage P S mv db a j = (Inr x, db')" "shows_flat P S L mv (db_tx_idx db) F" "LocStorage a j \<in> L"
  shows "f_slot F a j = Inr x" "db_read_accounts db' = db_read_accounts db"
proof -
  let ?t = "table_entry (mv_data mv) (hash_deterministic P (LocStorage a j))"
  have "slot_view (st_storage S a j) ?t (db_tx_idx db) = Inr x"
    using assms(1) unfolding db_storage_def Let_def closest_pos_eq
    by (auto simp: slot_view_def storage_result_def dest!: read_from_answer
        split: option.splits memory_entry.splits memory_value.splits sum.splits)
  with assms(2,3) show "f_slot F a j = Inr x" by (simp add: shows_flat_def)
  show "db_read_accounts db' = db_read_accounts db"
    using assms(1) unfolding db_storage_def Let_def closest_pos_eq
    by (auto dest!: read_from_accounts split: option.splits memory_entry.splits memory_value.splits)
qed

lemma known_code:
  assumes "code_view (st_code_hash S a) (table_entry (mv_data mv) h) i = Inr (Some x)"
  shows "x \<in> known_codes S i mv"
  using assms by (auto simp: code_view_def known_codes_def next_back_Some_iff
      split: option.splits memory_entry.splits memory_value.splits)

lemma code_shown:
  assumes "f_code_hash F a = Inr ch" "shows_flat P S L mv i F" "LocCodeHash a \<in> L" "codes_known P S code_of i mv" "read_code P S mv ch = Inr code"
  shows "code = Option.bind ch code_of"
proof (cases ch)
  case (Some x)
  with assms(1-3) known_code [of S a mv "hash_deterministic P (LocCodeHash a)" i x] have "x \<in> known_codes S i mv" by (simp add: shows_flat_def)
  with assms(4,5) Some show ?thesis by (simp add: codes_known_def)
qed (use assms(5) in \<open>simp add: read_code_def\<close>)

text \<open>The account an account query evaluates is the one the memory shows.\<close>

lemma account_view:
  assumes "read_versions mv h i prev = Inr (found, acc)" "read_fallback S a prev (found, acc) = Inr (final, origins)"
  shows "basic_view (st_basic S a) (table_entry (mv_data mv) h) i = Inr (map_option (evaluated acc) final)"
proof -
  let ?t = "table_entry (mv_data mv) h"
  have "read_back ?t i [] lazy_acc_init = Inr (found, acc)"
    using assms(1) read_back_prev [of ?t i prev lazy_acc_init found acc] unfolding read_versions_eq
    by (cases "prev = []") (simp_all add: lazy_acc_init_def)
  with assms(2) show ?thesis
    by (auto simp: basic_view_def read_fallback_def split: option.splits sum.splits if_splits)
qed

lemma finish_query:
  assumes "finish_basic P S mv db a h account = (Inr x, db')" "h = hash_deterministic P (LocBasic a)"
    and inj: "inj_on (hash_deterministic P) L" and L: "LocBasic a \<in> L" "LocCodeHash a \<in> L"
    and F: "shows_flat P S L mv (db_tx_idx db) F" "codes_known P S code_of (db_tx_idx db) mv" "f_basic F a = Inr (Some account)"
    and db: "db_to_hash db = (case te_kind (db_tx db) of TxCall a \<Rightarrow> Some (hash_deterministic P (LocBasic a)) | TxCreate \<Rightarrow> None)"
      "\<And>a. te_kind (db_tx db) = TxCall a \<Longrightarrow> LocBasic a \<in> L \<and> f_code_hash F a = Inr (db_to_code_hash db)"
  shows "flat_info P code_of F a = Inr x"
    and "\<exists>ch. f_code_hash F a = Inr ch \<and> db_read_accounts db' = AList.update h (account, ch) (db_read_accounts db)"
proof -
  from assms(1) obtain ch db1 code where
    ch: "(if Some h = db_to_hash db then (Inr (db_to_code_hash db), db) else get_code_hash P S mv db a) = (Inr ch, db1)"
    and code: "read_code P S mv ch = Inr code"
    and x: "x = Some \<lparr>ai_balance = ab_balance account, ai_nonce = ab_nonce account,
        ai_code_hash = (case ch of Some c \<Rightarrow> c | None \<Rightarrow> keccak_empty P), ai_code = code\<rparr>"
    and db': "db' = db1\<lparr>db_read_accounts := AList.update h (account, ch) (db_read_accounts db1)\<rparr>"
    unfolding finish_basic_def by (auto split: prod.splits sum.splits)
  have fch: "f_code_hash F a = Inr ch \<and> db_read_accounts db1 = db_read_accounts db"
  proof (cases "Some h = db_to_hash db")
    case True
    with db(1) assms(2) obtain b where b: "te_kind (db_tx db) = TxCall b" "hash_deterministic P (LocBasic a) = hash_deterministic P (LocBasic b)"
      by (auto split: tx_kind.splits)
    with inj_onD [OF inj b(2) L(1)] db(2) [OF b(1)] ch True show ?thesis by auto
  next
    case False
    with ch have "get_code_hash P S mv db a = (Inr ch, db1)" by simp
    from code_query [OF this F(1) L(2)] get_code_hash_accounts [OF this] show ?thesis by simp
  qed
  with code_shown [OF _ F(1) L(2) F(2) code] F(3) x show "flat_info P code_of F a = Inr x" by (simp add: flat_info_def)
  from fch db' show "\<exists>ch. f_code_hash F a = Inr ch \<and> db_read_accounts db' = AList.update h (account, ch) (db_read_accounts db)" by auto
qed

lemma basic_query:
  assumes q: "db_basic P S mv mv db a = (Inr x, db')" and db: "db_shows P L F i db"
    and L: "LocBasic a \<in> L" "LocCodeHash a \<in> L" "inj_on (hash_deterministic P) L"
    and F: "shows_flat P S L mv i F" "codes_known P S code_of i mv"
  shows "flat_info P code_of F a = Inr x" "db_shows P L F i db'"
proof -
  let ?h = "hash_deterministic P (LocBasic a)"
  have d: "db_wf P L db" "db_tx_idx db = i" "\<not> db_is_lazy db"
    "\<And>a. te_kind (db_tx db) = TxCall a \<Longrightarrow> LocBasic a \<in> L \<and> f_code_hash F a = Inr (db_to_code_hash db)"
    using db by (simp_all add: db_shows_def)
  note ok = db_basic_ok(1,2) [OF q d(1) L]
  have ext: "db_tx_idx db' = i" "\<not> db_is_lazy db'" "db_tx db' = db_tx db" "db_to_code_hash db' = db_to_code_hash db"
    using ok(1) d(2,3) by (simp_all add: db_extends_def)
  have "hash_basic P db a = ?h" by (rule hash_basic_wf [OF d(1)])
  with q d(3) have rd: "db_basic_read P S mv mv db a ?h = (Inr x, db')" by (simp add: db_basic_def)
  define prev where "prev = read_origins_of (db_read_set db) ?h"
  from rd obtain found acc final origins where
    r: "read_versions mv ?h i prev = Inr (found, acc)" "read_fallback S a prev (found, acc) = Inr (final, origins)"
    and st': "settle_basic P S mv (if prev = [] then (touch db ?h)\<lparr>db_read_set := AList.update ?h origins (db_read_set (touch db ?h))\<rparr>
      else touch db ?h) a ?h acc final = (Inr x, db')"
    unfolding db_basic_read_def Let_def prev_def [symmetric] d(2) by (auto split: sum.splits prod.splits)
  define db2 where "db2 = (if prev = [] then (touch db ?h)\<lparr>db_read_set := AList.update ?h origins (db_read_set (touch db ?h))\<rparr> else touch db ?h)"
  note st = st' [folded db2_def]
  have fb: "f_basic F a = Inr (map_option (evaluated acc) final)"
    using account_view [OF r] F(1) L(1) by (simp add: shows_flat_def)
  have same: "db_tx_idx db2 = i" "db_to_hash db2 = db_to_hash db" "db_tx db2 = db_tx db" "db_to_code_hash db2 = db_to_code_hash db"
    "db_read_accounts db2 = db_read_accounts db"
    using d(2) by (simp_all add: db2_def touch_def)
  have "flat_info P code_of F a = Inr x \<and> (db_read_accounts db' = db_read_accounts db \<or>
    (\<exists>b ch. f_basic F a = Inr (Some b) \<and> f_code_hash F a = Inr ch \<and> db_read_accounts db' = AList.update ?h (b, ch) (db_read_accounts db)))"
  proof (cases final)
    case None
    with st fb same show ?thesis by (simp add: settle_basic_def flat_info_def)
  next
    case (Some b)
    with st have fin: "finish_basic P S mv db2 a ?h (evaluated acc b) = (Inr x, db')"
      by (auto simp: settle_basic_def Let_def evaluated_def split: if_splits)
    have "db_to_hash db2 = (case te_kind (db_tx db2) of TxCall a \<Rightarrow> Some (hash_deterministic P (LocBasic a)) | TxCreate \<Rightarrow> None)"
      using d(1) same by (simp add: db_wf_def)
    with finish_query [OF fin refl L(3,1,2), of F code_of] F fb Some d(4) same show ?thesis by auto
  qed
  then have fi: "flat_info P code_of F a = Inr x" and ra: "db_read_accounts db' = db_read_accounts db \<or>
    (\<exists>b ch. f_basic F a = Inr (Some b) \<and> f_code_hash F a = Inr ch \<and> db_read_accounts db' = AList.update ?h (b, ch) (db_read_accounts db))" by auto
  show "flat_info P code_of F a = Inr x" by (rule fi)
  have "\<exists>a. LocBasic a \<in> L \<and> h = hash_deterministic P (LocBasic a) \<and> f_basic F a = Inr (Some b) \<and> f_code_hash F a = Inr ch"
    if "read_account_of db' h = Some (b, ch)" for h b ch
    using that ra db L(1) by (auto simp: read_account_of_def db_shows_def update_conv split: if_splits)
  with ok(2) ext d(4) show "db_shows P L F i db'" by (simp add: db_shows_def)
qed

section \<open>Runs\<close>

lemma run_shows_flat:
  assumes "run_evm P S (\<lambda>_. mv) prog n db = (Inr r, db')" "db_shows P L F i db" "set (run_locs P S (\<lambda>_. mv) prog n db) \<subseteq> L"
    and inj: "inj_on (hash_deterministic P) L" and F: "shows_flat P S L mv i F" "codes_known P S code_of i mv"
  shows "run_flat P S code_of F prog = Some r \<and> db_shows P L F i db'"
  using assms(1-3)
proof (induction prog arbitrary: n db)
  case (EvmBasic a k)
  obtain x db1 where q: "db_basic P S mv mv db a = (Inr x, db1)" and rest: "run_evm P S (\<lambda>_. mv) (k x) (n + 2) db1 = (Inr r, db')"
    using EvmBasic.prems(1) by (auto split: prod.splits sum.splits)
  have L: "LocBasic a \<in> L" "LocCodeHash a \<in> L" "set (run_locs P S (\<lambda>_. mv) (k x) (n + 2) db1) \<subseteq> L"
    using EvmBasic.prems(3) q by simp_all
  note b = basic_query [OF q EvmBasic.prems(2) L(1,2) inj F]
  from EvmBasic.IH [OF rangeI rest b(2) L(3)] b(1) show ?case by simp
next
  case (EvmStorage a j k)
  obtain x db1 where q: "db_storage P S mv db a j = (Inr x, db1)" and rest: "run_evm P S (\<lambda>_. mv) (k x) (n + 1) db1 = (Inr r, db')"
    using EvmStorage.prems(1) by (auto split: prod.splits sum.splits)
  have L: "LocStorage a j \<in> L" "set (run_locs P S (\<lambda>_. mv) (k x) (n + 1) db1) \<subseteq> L" using EvmStorage.prems(3) q by simp_all
  have d: "db_wf P L db" "db_tx_idx db = i" using EvmStorage.prems(2) by (simp_all add: db_shows_def)
  note s = slot_query [OF q _ L(1), of F] and ok = db_storage_ok(1,2) [OF q d(1) L(1)]
  from ok EvmStorage.prems(2) s(2) F(1) d(2) have "db_shows P L F i db1"
    by (simp add: db_shows_def db_extends_def read_account_of_def)
  from EvmStorage.IH [OF rangeI rest this L(2)] s(1) F(1) d(2) show ?case by simp
next
  case (EvmCode h k)
  obtain x db1 where q: "db_code_by_hash P S db h = (Inr x, db1)" and rest: "run_evm P S (\<lambda>_. mv) (k x) (n + 1) db1 = (Inr r, db')"
    using EvmCode.prems(1) by (auto split: prod.splits sum.splits)
  with EvmCode.IH [OF rangeI rest] EvmCode.prems(2,3) db_code_by_hash_state [OF q] show ?case
    by (auto simp: db_code_by_hash_def split: sum.splits option.splits)
next
  case (EvmBlockHash b k)
  obtain x db1 where q: "db_block_hash S db b = (Inr x, db1)" and rest: "run_evm P S (\<lambda>_. mv) (k x) (n + 1) db1 = (Inr r, db')"
    using EvmBlockHash.prems(1) by (auto split: prod.splits sum.splits)
  with EvmBlockHash.IH [OF rangeI rest] EvmBlockHash.prems(2,3) db_block_hash_state [OF q] show ?case
    by (auto simp: db_block_hash_def storage_result_def split: sum.splits)
qed simp

lemma vm_run_shows_flat:
  assumes run: "vm_run_as P S E False (\<lambda>_. mv) db i full_tx = (Inr r, db')"
    and L: "set (vm_locs_as P S E False (\<lambda>_. mv) db i full_tx) \<subseteq> L" "inj_on (hash_deterministic P) L"
      "\<And>a. te_kind (ve_tx_env E full_tx) = TxCall a \<Longrightarrow> LocBasic a \<in> L"
    and F: "shows_flat P S L mv i F" "codes_known P S code_of i mv"
  shows "run_flat P S code_of F (ve_evm E full_tx) = Some r \<and> db_shows P L F i db'"
proof -
  let ?tx = "ve_tx_env E full_tx"
  let ?set = "set_tx P S mv db i ?tx (hash_deterministic P (LocBasic (te_caller ?tx))) (to_hash_of P ?tx) (ve_has_nonce E full_tx)"
  obtain db0 where s: "?set = (Inr (), db0)" and ev: "run_evm P S (\<lambda>_. mv) (ve_evm E full_tx) 1 (db0\<lparr>db_is_lazy := False\<rparr>) = (Inr r, db')"
    using run by (auto simp: vm_run_as_def Let_def split: prod.splits sum.splits)
  have L': "\<forall>a. te_kind ?tx = TxCall a \<longrightarrow> LocCodeHash a \<in> L"
    "set (run_locs P S (\<lambda>_. mv) (ve_evm E full_tx) 1 (db0\<lparr>db_is_lazy := False\<rparr>)) \<subseteq> L"
    using L(1) s by (auto simp: vm_locs_as_def Let_def)
  note ok = set_tx_ok(1,2) [OF s L'(1)]
  have tx: "db_tx db0 = ?tx" using set_tx_key [OF s] by (simp add: tx_key_def)
  have none: "read_account_of db0 h = None" for h
    using s by (auto simp: set_tx_def Let_def read_account_of_def split: tx_kind.splits prod.splits sum.splits
        dest!: get_code_hash_accounts)
  have "f_code_hash F a = Inr (db_to_code_hash db0)" if "te_kind ?tx = TxCall a" for a
    using s that L'(1) F(1) by (auto simp: set_tx_def Let_def split: prod.splits sum.splits dest!: code_query [where F = F and L = L])
  with ok tx none L(3) have "db_shows P L F i (db0\<lparr>db_is_lazy := False\<rparr>)"
    by (auto simp: db_shows_def db_wf_def read_account_of_def)
  from run_shows_flat [OF ev this L'(2) L(2) F] show ?thesis .
qed

end
