(* ===== verification/Flat_Commit.thy ===== *)
theory Flat_Commit
  imports Flat_Run
begin

text \<open>Publishing an execution in the memory of versions updates the flat state the memory shows like a commit on the flat state.\<close>

section \<open>The write set\<close>

text \<open>
  What the EVM promises about the state it returns, relative to the state before: an account or a slot is listed once, no account
  is destructed, an account that EIP-161 clears did not exist, and code is neither removed nor replaced.
\<close>

definition regular :: "('bc, 'jt) revm_api \<Rightarrow> bool \<Rightarrow> flat \<Rightarrow> 'bc evm_state \<Rightarrow> bool" where
  "regular P eip161 F state \<longleftrightarrow> distinct (map fst state) \<and>
     (\<forall>(a, account) \<in> set state. \<not> ra_selfdestructed account \<and> distinct (map fst (changed_storage_slots P account)) \<and>
        (ra_touched account \<longrightarrow>
           (eip161 \<and> account_is_empty P account \<longrightarrow> f_basic F a = Inr None) \<and>
           f_code_hash F a \<in> (if is_empty_code_hash P (ra_info account) then {Inr None}
             else {Inr None, Inr (Some (ai_code_hash (ra_info account)))})))"

lemma regularD:
  assumes "regular P eip161 F state" "(a, account) \<in> set state"
  shows "\<not> ra_selfdestructed account" "distinct (map fst (changed_storage_slots P account))"
    and "ra_touched account \<Longrightarrow> eip161 \<Longrightarrow> account_is_empty P account \<Longrightarrow> f_basic F a = Inr None"
    and "ra_touched account \<Longrightarrow> f_code_hash F a \<in> (if is_empty_code_hash P (ra_info account) then {Inr None}
      else {Inr None, Inr (Some (ai_code_hash (ra_info account)))})"
  using assms unfolding regular_def by blast+

abbreviation writes_of :: "('bc, 'jt) revm_api \<Rightarrow> bool \<Rightarrow> 'au vmdb \<Rightarrow> 'bc evm_state \<Rightarrow> write_set" where
  "writes_of P eip161 db state \<equiv> concat (map (account_writes P eip161 db) state)"

text \<open>The locations of one account.\<close>

definition account_locs :: "('bc, 'jt) revm_api \<Rightarrow> address \<Rightarrow> 'bc revm_account \<Rightarrow> memory_location set" where
  "account_locs P a account = {LocBasic a, LocCodeHash a} \<union> (\<lambda>(slot, _). LocStorage a slot) ` set (changed_storage_slots P account)"

lemma state_locs_Cons: "set (state_locs P ((a, account) # state)) = account_locs P a account \<union> set (state_locs P state)"
  by (auto simp: state_locs_def account_locs_def)

lemma account_locs_sub: "(a, account) \<in> set state \<Longrightarrow> account_locs P a account \<subseteq> set (state_locs P state)"
  by (force simp: state_locs_def account_locs_def)

lemma account_writes_keys: "fst ` set (account_writes P eip161 db (a, account)) \<subseteq> hash_deterministic P ` account_locs P a account"
  by (force simp: account_writes_def basic_writes_def code_writes_def slot_writes_def account_locs_def Let_def split: if_splits)

lemma account_writes_distinct:
  assumes "inj_on (hash_deterministic P) (account_locs P a account)" "\<not> ra_selfdestructed account"
    and "distinct (map fst (changed_storage_slots P account))"
  shows "distinct (map fst (account_writes P eip161 db (a, account)))"
proof -
  let ?h = "hash_deterministic P"
  have inj: "?h l = ?h l' \<longleftrightarrow> l = l'" if "l \<in> account_locs P a account" "l' \<in> account_locs P a account" for l l'
    using that assms(1) by (auto dest: inj_onD)
  have slots: "LocStorage a slot \<in> account_locs P a account" if "(slot, x) \<in> set (changed_storage_slots P account)" for slot x
    using that by (force simp: account_locs_def)
  have "inj_on (\<lambda>slot. ?h (LocStorage a slot)) (fst ` set (changed_storage_slots P account))"
    using inj slots by (auto intro!: inj_onI)
  then have s: "distinct (map fst (slot_writes P a account))"
    using assms(3) by (auto simp: slot_writes_def distinct_map comp_def case_prod_beta inj_on_def)
  have b: "distinct (map fst (basic_writes P eip161 db a account))" "fst ` set (basic_writes P eip161 db a account) \<subseteq> {?h (LocBasic a)}"
    by (auto simp: basic_writes_def Let_def)
  have c: "distinct (map fst (code_writes P db a account))" "fst ` set (code_writes P db a account) \<subseteq> {?h (LocCodeHash a)}"
    by (auto simp: code_writes_def)
  have "?h l \<notin> fst ` set (slot_writes P a account)" if "l \<in> {LocBasic a, LocCodeHash a}" for l
  proof
    assume "?h l \<in> fst ` set (slot_writes P a account)"
    then obtain slot x where sx: "(slot, x) \<in> set (changed_storage_slots P account)" "?h l = ?h (LocStorage a slot)"
      by (auto simp: slot_writes_def)
    with inj [of l "LocStorage a slot"] slots [OF sx(1)] that show False by (auto simp: account_locs_def)
  qed
  from this [of "LocBasic a"] this [of "LocCodeHash a"]
  have "{?h (LocBasic a), ?h (LocCodeHash a)} \<inter> fst ` set (slot_writes P a account) = {}" by simp
  moreover have "fst ` set (basic_writes P eip161 db a account) \<union> fst ` set (code_writes P db a account) \<subseteq> {?h (LocBasic a), ?h (LocCodeHash a)}"
    using b(2) c(2) by blast
  ultimately have "(fst ` set (basic_writes P eip161 db a account) \<union> fst ` set (code_writes P db a account)) \<inter> fst ` set (slot_writes P a account) = {}"
    by blast
  moreover have "?h (LocBasic a) \<noteq> ?h (LocCodeHash a)" using inj [of "LocBasic a" "LocCodeHash a"] by (simp add: account_locs_def)
  then have "fst ` set (basic_writes P eip161 db a account) \<inter> fst ` set (code_writes P db a account) = {}"
    using subset_singletonD [OF b(2)] subset_singletonD [OF c(2)] by (elim disjE) simp_all
  ultimately have "distinct (map fst (basic_writes P eip161 db a account @ code_writes P db a account @ slot_writes P a account))"
    using b(1) c(1) s unfolding map_append distinct_append set_append set_map by blast
  moreover have "account_writes P eip161 db (a, account) = (if ra_touched account
      then basic_writes P eip161 db a account @ code_writes P db a account @ slot_writes P a account else slot_writes P a account)"
    using assms(2) by (simp add: account_writes_def)
  ultimately show ?thesis using s by (cases "ra_touched account") (simp_all only: if_True if_False)
qed

lemma writes_distinct:
  assumes "distinct (map fst state)" "inj_on (hash_deterministic P) (set (state_locs P state))"
    and "\<And>a account. (a, account) \<in> set state \<Longrightarrow> \<not> ra_selfdestructed account \<and> distinct (map fst (changed_storage_slots P account))"
  shows "distinct (map fst (writes_of P eip161 db state))"
  using assms
proof (induction state)
  case (Cons p state)
  obtain a account where p: "p = (a, account)" by (cases p)
  have inj: "inj_on (hash_deterministic P) (account_locs P a account)" "inj_on (hash_deterministic P) (set (state_locs P state))"
    using Cons.prems(2) unfolding p state_locs_Cons by (blast intro: inj_on_subset)+
  have "fst ` set (writes_of P eip161 db state) \<subseteq> hash_deterministic P ` set (state_locs P state)"
  proof
    fix h assume "h \<in> fst ` set (writes_of P eip161 db state)"
    then obtain q where "q \<in> set state" "h \<in> fst ` set (account_writes P eip161 db q)" by auto
    moreover obtain b other where "q = (b, other)" by (cases q)
    ultimately have "(b, other) \<in> set state" "h \<in> fst ` set (account_writes P eip161 db (b, other))" by simp_all
    with account_writes_keys account_locs_sub show "h \<in> hash_deterministic P ` set (state_locs P state)" by blast
  qed
  moreover have "account_locs P a account \<inter> set (state_locs P state) = {}"
    using Cons.prems(1) p by (force simp: state_locs_def account_locs_def)
  then have "hash_deterministic P ` account_locs P a account \<inter> hash_deterministic P ` set (state_locs P state) = {}"
    using Cons.prems(2) unfolding p state_locs_Cons by (metis image_Int_subset inj_on_image_Int image_empty Un_upper1 Un_upper2)
  ultimately have "fst ` set (account_writes P eip161 db p) \<inter> fst ` set (writes_of P eip161 db state) = {}"
    using account_writes_keys [of P eip161 db a account] p by blast
  moreover have "distinct (map fst (account_writes P eip161 db p))"
    using account_writes_distinct [OF inj(1)] Cons.prems(3) p by auto
  moreover have "distinct (map fst (writes_of P eip161 db state))" using Cons inj(2) p by auto
  ultimately show ?case by simp
qed simp

text \<open>What a transaction that is not lazy writes to a location.\<close>

fun written :: "('bc, 'jt) revm_api \<Rightarrow> bool \<Rightarrow> 'au vmdb \<Rightarrow> 'bc evm_state \<Rightarrow> memory_location \<Rightarrow> memory_value option" where
  "written P eip161 db state (LocBasic a) =
     (case map_of state a of
        Some account \<Rightarrow>
          if ra_touched account \<and> account_changed P db a account \<and> (\<not> eip161 \<or> \<not> account_is_empty P account)
          then Some (ValBasic \<lparr>ab_balance = ai_balance (ra_info account), ab_nonce = ai_nonce (ra_info account)\<rparr>) else None
      | None \<Rightarrow> None)"
| "written P eip161 db state (LocCodeHash a) =
     (case map_of state a of
        Some account \<Rightarrow>
          if ra_touched account \<and> is_new_code P db a account then Some (ValCodeHash (ai_code_hash (ra_info account))) else None
      | None \<Rightarrow> None)"
| "written P eip161 db state (LocStorage a j) =
     (case map_of state a of
        Some account \<Rightarrow> map_option (\<lambda>v. ValStorage (present_value v)) (map_of (changed_storage_slots P account) j)
      | None \<Rightarrow> None)"

lemma account_written:
  assumes "(h, v) \<in> set (account_writes P eip161 db (a, account))" "\<not> db_is_lazy db" "\<not> ra_selfdestructed account"
    "distinct (map fst (changed_storage_slots P account))" "map_of state a = Some account"
  shows "\<exists>l \<in> account_locs P a account. h = hash_deterministic P l \<and> written P eip161 db state l = Some v"
proof -
  from assms(1,3) consider "ra_touched account" "(h, v) \<in> set (basic_writes P eip161 db a account)"
    | "ra_touched account" "(h, v) \<in> set (code_writes P db a account)" | "(h, v) \<in> set (slot_writes P a account)"
    by (auto simp: account_writes_def split: if_splits)
  then show ?thesis
  proof cases
    case 1
    with assms(2,5) have "h = hash_deterministic P (LocBasic a)" "written P eip161 db state (LocBasic a) = Some v"
      by (auto simp: basic_writes_def Let_def split: if_splits)
    then show ?thesis by (auto simp: account_locs_def)
  next
    case 2
    with assms(5) have "h = hash_deterministic P (LocCodeHash a)" "written P eip161 db state (LocCodeHash a) = Some v"
      by (auto simp: code_writes_def split: if_splits)
    then show ?thesis by (auto simp: account_locs_def)
  next
    case 3
    then obtain j x where j: "(j, x) \<in> set (changed_storage_slots P account)" "h = hash_deterministic P (LocStorage a j)" "v = ValStorage (present_value x)"
      by (auto simp: slot_writes_def)
    with assms(4,5) have "written P eip161 db state (LocStorage a j) = Some v" by simp
    with j show ?thesis by (force simp: account_locs_def)
  qed
qed

lemma written_account:
  assumes "written P eip161 db state l = Some v" "\<not> db_is_lazy db" "\<And>a account. (a, account) \<in> set state \<Longrightarrow> \<not> ra_selfdestructed account"
  shows "(hash_deterministic P l, v) \<in> set (writes_of P eip161 db state)"
proof -
  from assms(1) obtain a account where a: "map_of state a = Some account"
    by (cases l) (auto split: option.splits)
  then have mem: "(a, account) \<in> set state" by (rule map_of_SomeD)
  note sd = assms(3) [OF mem]
  have "(hash_deterministic P l, v) \<in> set (account_writes P eip161 db (a, account))" if "map_of state a = Some account"
    "\<not> ra_selfdestructed account" "l \<in> {LocBasic a, LocCodeHash a} \<union> range (LocStorage a)" for a account
    using assms(1,2) that
    by (cases l) (auto simp: account_writes_def basic_writes_def code_writes_def slot_writes_def Let_def image_iff split: if_splits dest!: map_of_SomeD)
  moreover have "\<exists>a account. map_of state a = Some account \<and> l \<in> {LocBasic a, LocCodeHash a} \<union> range (LocStorage a)"
    using assms(1) by (cases l) (auto split: option.splits)
  ultimately show ?thesis using assms(3) map_of_SomeD by fastforce
qed

lemma written_map:
  assumes "distinct (map fst state)" "inj_on (hash_deterministic P) L" "set (state_locs P state) \<subseteq> L" "\<not> db_is_lazy db" "l \<in> L"
    and ok: "\<And>a account. (a, account) \<in> set state \<Longrightarrow> \<not> ra_selfdestructed account \<and> distinct (map fst (changed_storage_slots P account))"
  shows "map_of (writes_of P eip161 db state) (hash_deterministic P l) = written P eip161 db state l"
proof -
  have dist: "distinct (map fst (writes_of P eip161 db state))"
    by (rule writes_distinct [OF assms(1) inj_on_subset [OF assms(2,3)] ok])
  have "map_of (writes_of P eip161 db state) (hash_deterministic P l) = Some v \<longleftrightarrow> written P eip161 db state l = Some v" for v
  proof
    assume "written P eip161 db state l = Some v"
    from written_account [OF this assms(4)] ok dist show "map_of (writes_of P eip161 db state) (hash_deterministic P l) = Some v" by simp
  next
    assume "map_of (writes_of P eip161 db state) (hash_deterministic P l) = Some v"
    then obtain q where "q \<in> set state" "(hash_deterministic P l, v) \<in> set (account_writes P eip161 db q)"
      by (auto dest!: map_of_SomeD)
    moreover obtain a account where "q = (a, account)" by (cases q)
    ultimately have q: "(a, account) \<in> set state" "(hash_deterministic P l, v) \<in> set (account_writes P eip161 db (a, account))" by simp_all
    from q(1) assms(1) have "map_of state a = Some account" by simp
    from account_written [OF q(2) assms(4) _ _ this] ok [OF q(1)] obtain l' where
      l': "l' \<in> account_locs P a account" "hash_deterministic P l = hash_deterministic P l'" "written P eip161 db state l' = Some v" by blast
    with account_locs_sub [OF q(1)] assms(3) inj_onD [OF assms(2) l'(2) assms(5)] show "written P eip161 db state l = Some v" by blast
  qed
  then show ?thesis by (metis option.exhaust)
qed

section \<open>Rewards\<close>

text \<open>What a write to an account location makes of the account.\<close>

fun account_write :: "memory_value option \<Rightarrow> string + account_basic option \<Rightarrow> string + account_basic option" where
  "account_write (Some (ValBasic b)) base = Inr (Some b)"
| "account_write (Some (LazyRecipient x)) base = paid x base"
| "account_write v base = base"

fun additive_write :: "memory_value option \<Rightarrow> bool" where
  "additive_write None = True"
| "additive_write (Some (ValBasic b)) = True"
| "additive_write (Some (LazyRecipient x)) = True"
| "additive_write v = False"

lemma credit_write:
  assumes "credit v x = Some v'" "additive_write (Some v)"
  shows "account_write (Some v') base = paid x (account_write (Some v) base)" "additive_write (Some v')"
  using assms by (cases v; auto simp: paid_add)+

lemma reward_write_keys: "reward_write h x ws = Some ws' \<Longrightarrow> distinct (map fst ws) \<Longrightarrow> distinct (map fst ws')"
proof (induction ws arbitrary: ws')
  case (Cons p ws)
  obtain l v where p: "p = (l, v)" by (cases p)
  show ?case
  proof (cases "l = h")
    case False
    with Cons.prems(1) p obtain ws1 where ws1: "reward_write h x ws = Some ws1" "ws' = (l, v) # ws1" by auto
    with reward_write_map(2) [OF ws1(1)] Cons.IH [OF ws1(1)] Cons.prems(2) p False show ?thesis by auto
  qed (use Cons.prems p in auto)
qed auto

lemma rewards_keys: "apply_rewards rs ws = Some ws' \<Longrightarrow> distinct (map fst ws) \<Longrightarrow> distinct (map fst ws')"
proof (induction rs arbitrary: ws)
  case (Cons p rs)
  then show ?case using reward_write_keys by (cases p) (fastforce split: option.splits)
qed simp

lemma reward_write_effect:
  assumes "reward_write h x ws = Some ws'" "additive_write (map_of ws h)"
  shows "account_write (map_of ws' h) base = paid x (account_write (map_of ws h) base)" "additive_write (map_of ws' h)"
proof -
  note m = reward_write_map [OF assms(1)]
  have "map_of ws' h \<noteq> None" using m(2) by (simp add: map_of_eq_None_iff)
  then have "account_write (map_of ws' h) base = paid x (account_write (map_of ws h) base) \<and> additive_write (map_of ws' h)"
    using m(3) credit_write assms(2) by (cases "map_of ws h") auto
  then show "account_write (map_of ws' h) base = paid x (account_write (map_of ws h) base)" "additive_write (map_of ws' h)" by auto
qed

lemma flat_pay_sel [simp]: "f_code_hash (flat_pay ps F) = f_code_hash F" "f_slot (flat_pay ps F) = f_slot F"
  by (induction ps F rule: flat_pay.induct) auto

text \<open>The rewards of a transaction, given by addresses.\<close>

abbreviation rewards_at :: "('bc, 'jt) revm_api \<Rightarrow> (address \<times> u256) list \<Rightarrow> (location_hash \<times> u256) list" where
  "rewards_at P \<equiv> map (\<lambda>(a, x). (hash_deterministic P (LocBasic a), x))"

lemma rewards_flat:
  assumes "apply_rewards (rewards_at P ps) ws = Some ws'" "inj_on (hash_deterministic P) L" "LocBasic ` fst ` set ps \<subseteq> L"
    and "\<And>a. LocBasic a \<in> L \<Longrightarrow> additive_write (map_of ws (hash_deterministic P (LocBasic a))) \<and>
      account_write (map_of ws (hash_deterministic P (LocBasic a))) (base a) = f_basic F a"
    and "distinct (map fst ws)"
  shows "\<And>a. LocBasic a \<in> L \<Longrightarrow> additive_write (map_of ws' (hash_deterministic P (LocBasic a))) \<and>
      account_write (map_of ws' (hash_deterministic P (LocBasic a))) (base a) = f_basic (flat_pay ps F) a"
    and "\<And>l. l \<in> L \<Longrightarrow> (\<And>a. l \<noteq> LocBasic a) \<Longrightarrow> map_of ws' (hash_deterministic P l) = map_of ws (hash_deterministic P l)"
    and "distinct (map fst ws')"
proof -
  have "(\<forall>a. LocBasic a \<in> L \<longrightarrow> additive_write (map_of ws' (hash_deterministic P (LocBasic a))) \<and>
      account_write (map_of ws' (hash_deterministic P (LocBasic a))) (base a) = f_basic (flat_pay ps F) a) \<and>
    (\<forall>l. l \<in> L \<longrightarrow> (\<forall>a. l \<noteq> LocBasic a) \<longrightarrow> map_of ws' (hash_deterministic P l) = map_of ws (hash_deterministic P l)) \<and> distinct (map fst ws')"
    using assms(1,3,4,5)
  proof (induction ps arbitrary: ws F)
    case (Cons p ps)
    obtain b x where p: "p = (b, x)" by (cases p)
    let ?h = "hash_deterministic P (LocBasic b)" and ?F = "F\<lparr>f_basic := (f_basic F)(b := paid x (f_basic F b))\<rparr>"
    from Cons.prems(1) p obtain ws1 where ws1: "reward_write ?h x ws = Some ws1" "apply_rewards (rewards_at P ps) ws1 = Some ws'"
      by (auto split: option.splits)
    have b: "LocBasic b \<in> L" using Cons.prems(2) p by simp
    have other: "hash_deterministic P l \<noteq> ?h" if "l \<in> L" "l \<noteq> LocBasic b" for l using inj_onD [OF assms(2) _ that(1) b] that(2) by blast
    have step: "additive_write (map_of ws1 (hash_deterministic P (LocBasic a))) \<and>
      account_write (map_of ws1 (hash_deterministic P (LocBasic a))) (base a) = f_basic ?F a" if a: "LocBasic a \<in> L" for a
    proof (cases "a = b")
      case True
      with reward_write_effect(1) [OF ws1(1), of "base b"] reward_write_effect(2) [OF ws1(1)] Cons.prems(3) [OF b] show ?thesis by simp
    next
      case False
      with other [OF a] reward_write_map(1) [OF ws1(1)] Cons.prems(3) [OF a] show ?thesis by simp
    qed
    have "map_of ws1 (hash_deterministic P l) = map_of ws (hash_deterministic P l)" if "l \<in> L" "\<forall>a. l \<noteq> LocBasic a" for l
      using reward_write_map(1) [OF ws1(1)] other that by blast
    with Cons.IH [OF ws1(2) _ step reward_write_keys [OF ws1(1) Cons.prems(4)]] Cons.prems(2) p show ?case by simp
  qed simp
  then show "\<And>a. LocBasic a \<in> L \<Longrightarrow> additive_write (map_of ws' (hash_deterministic P (LocBasic a))) \<and>
      account_write (map_of ws' (hash_deterministic P (LocBasic a))) (base a) = f_basic (flat_pay ps F) a"
    and "\<And>l. l \<in> L \<Longrightarrow> (\<And>a. l \<noteq> LocBasic a) \<Longrightarrow> map_of ws' (hash_deterministic P l) = map_of ws (hash_deterministic P l)"
    and "distinct (map fst ws')" by blast+
qed

section \<open>Commits\<close>

lemma commit_basic:
  assumes "db_shows P L F i db" "regular P eip161 F state" "LocBasic a \<in> L" "inj_on (hash_deterministic P) L"
  shows "additive_write (written P eip161 db state (LocBasic a)) \<and>
    account_write (written P eip161 db state (LocBasic a)) (f_basic F a) = f_basic (flat_commit P eip161 state F) a"
proof (cases "map_of state a")
  case (Some account)
  note r = regularD [OF assms(2) map_of_SomeD [OF Some]]
  have "f_basic F a = Inr (Some \<lparr>ab_balance = ai_balance (ra_info account), ab_nonce = ai_nonce (ra_info account)\<rparr>)"
    if "\<not> account_changed P db a account"
  proof -
    from that obtain b ch where b: "read_account_of db (hash_deterministic P (LocBasic a)) = Some (b, ch)"
      "ab_nonce b = ai_nonce (ra_info account)" "ab_balance b = ai_balance (ra_info account)"
      by (auto simp: account_changed_def split: option.splits prod.splits)
    with assms(1) obtain a' where a': "LocBasic a' \<in> L" "hash_deterministic P (LocBasic a) = hash_deterministic P (LocBasic a')"
      "f_basic F a' = Inr (Some b)" unfolding db_shows_def by blast
    from inj_onD [OF assms(4) a'(2) assms(3) a'(1)] a'(3) b show ?thesis by (cases b) simp
  qed
  with Some r(3) show ?thesis by (auto simp: flat_commit_def)
qed (simp add: flat_commit_def)

lemma commit_code_hash:
  assumes "db_shows P L F i db" "regular P eip161 F state" "set (state_locs P state) \<subseteq> L" "inj_on (hash_deterministic P) L"
  shows "written P eip161 db state (LocCodeHash a) = None \<and> f_code_hash (flat_commit P eip161 state F) a = f_code_hash F a \<or>
    (\<exists>x. written P eip161 db state (LocCodeHash a) = Some (ValCodeHash x) \<and> f_code_hash (flat_commit P eip161 state F) a = Inr (Some x))"
proof (cases "map_of state a")
  case (Some account)
  note r = regularD [OF assms(2) map_of_SomeD [OF Some]]
  have L: "LocBasic a \<in> L" using account_locs_sub [OF map_of_SomeD [OF Some], of P] assms(3) by (auto simp: account_locs_def)
  have "f_code_hash F a = Inr (Some (ai_code_hash (ra_info account)))"
    if "ra_touched account" "\<not> is_new_code P db a account" "\<not> is_empty_code_hash P (ra_info account)"
  proof -
    from that(2,3) obtain b x where b: "read_account_of db (hash_deterministic P (LocBasic a)) = Some (b, Some x)"
      by (auto simp: is_new_code_def split: option.splits prod.splits)
    with assms(1) obtain a' where a': "LocBasic a' \<in> L" "hash_deterministic P (LocBasic a) = hash_deterministic P (LocBasic a')"
      "f_code_hash F a' = Inr (Some x)" unfolding db_shows_def by blast
    from inj_onD [OF assms(4) a'(2) L a'(1)] a'(3) r(4) that show ?thesis by auto
  qed
  with Some r(4) show ?thesis by (auto simp: flat_commit_def is_new_code_def)
qed (simp add: flat_commit_def)

lemma commit_slot:
  "written P eip161 db state (LocStorage a j) = None \<and> f_slot (flat_commit P eip161 state F) a j = f_slot F a j \<or>
    (\<exists>x. written P eip161 db state (LocStorage a j) = Some (ValStorage x) \<and> f_slot (flat_commit P eip161 state F) a j = Inr x)"
  by (auto simp: flat_commit_def split: option.splits)

end
