(* ===== verification/Flat.thy ===== *)
theory Flat
  imports Flat_Commit
begin

text \<open>
  Parallel execution refines execution on a flat state: a block whose workers have left without abort reason gives the
  results of running its transactions one after the other on one state of accounts, code hashes and slots.
\<close>

section \<open>One transaction\<close>

lemma read_back_cong: "(\<And>j. j < i \<Longrightarrow> t j = t' j) \<Longrightarrow> read_back t i prev acc = read_back t' i prev acc"
proof (induction i arbitrary: acc rule: less_induct)
  case (less i)
  have nb: "next_back t i = next_back t' i" using less.prems by (intro next_back_cong) auto
  show ?case
  proof (cases t i rule: next_back_cases)
    case (data k inc v)
    have "read_back t k prev acc = read_back t' k prev acc" for acc by (rule less.IH [OF data(2)]) (use less.prems data(2) in simp)
    then show ?thesis unfolding read_back_data [OF data(1)] read_back_data [OF data(1) [unfolded nb]] by (simp only:)
  qed (use nb in \<open>simp_all add: read_back_steps\<close>)
qed

lemma views_cong:
  assumes "\<And>j. j < i \<Longrightarrow> t j = t' j"
  shows "basic_view base t i = basic_view base t' i" "code_view base' t i = code_view base' t' i" "slot_view base'' t i = slot_view base'' t' i"
proof -
  have "next_back t i = next_back t' i" using assms by (intro next_back_cong) auto
  with read_back_cong [of i t t'] assms show "basic_view base t i = basic_view base t' i" "code_view base' t i = code_view base' t' i"
    "slot_view base'' t i = slot_view base'' t' i" by (simp_all add: basic_view_def code_view_def slot_view_def)
qed

definition additive_below :: "('bc, 'jt) revm_api \<Rightarrow> memory_location set \<Rightarrow> 'bc mv_memory \<Rightarrow> nat \<Rightarrow> bool" where
  "additive_below P L mv i \<longleftrightarrow> (\<forall>a. LocBasic a \<in> L \<longrightarrow> additive (table_entry (mv_data mv) (hash_deterministic P (LocBasic a))) i)"

lemma basic_view_write:
  assumes "\<And>j. j < i \<Longrightarrow> t' j = t j" "t' i = map_option (Data inc) w" "additive_write w" "additive t i"
  shows "basic_view base t' (Suc i) = account_write w (basic_view base t i)" "additive t' (Suc i)"
proof -
  have a: "additive t' i" using assms(1,4) by (simp add: additive_def)
  have v: "basic_view base t' i = basic_view base t i" by (rule views_cong(1)) (rule assms(1))
  have "basic_view base t' (Suc i) = account_write w (basic_view base t i) \<and> additive t' (Suc i)"
  proof (cases w rule: additive_write.cases)
    case 1
    with assms(2) a v show ?thesis by (auto simp: views_none additive_def less_Suc_eq)
  next
    case (2 b)
    with assms(2) a show ?thesis by (auto simp: views_data additive_def less_Suc_eq)
  next
    case (3 x)
    with assms(2) a v basic_view_paid [of t' i inc x base] show ?thesis by (auto simp: additive_def less_Suc_eq)
  qed (use assms(3) in simp_all)
  then show "basic_view base t' (Suc i) = account_write w (basic_view base t i)" "additive t' (Suc i)" by auto
qed

lemma map_of_rev_distinct: "distinct (map fst xs) \<Longrightarrow> map_of (rev xs) k = map_of xs k"
  using map_of_eq_Some_iff [of xs] map_of_eq_Some_iff [of "rev xs"] by (metis distinct_rev option.exhaust rev_map set_rev)

lemma commit_keys:
  assumes db: "db_shows P L F i db" "regular P (ve_eip161 E) F state" and L: "inj_on (hash_deterministic P) L" "set (state_locs P state) \<subseteq> L" "LocBasic ` fst ` set ps \<subseteq> L"
    and ws: "write_set_of P E db tx r state = Some ws" "rewards_of P E db tx r = rewards_at P ps"
  shows "distinct (map fst ws)"
proof -
  have "distinct (map fst state)" using db(2) by (simp add: regular_def)
  then have "distinct (map fst (writes_of P (ve_eip161 E) db state))"
    by (rule writes_distinct [OF _ inj_on_subset [OF L(1,2)] conjI [OF regularD(1,2) [OF db(2)]]])
  moreover have "apply_rewards (rewards_at P ps) (writes_of P (ve_eip161 E) db state) = Some ws" using ws by (simp add: write_set_of_def)
  ultimately show ?thesis by (rule rewards_keys [rotated])
qed

lemma commit_shows_flat:
  assumes F: "shows_flat P S L mv i F" "additive_below P L mv i" and db: "db_shows P L F i db" "regular P (ve_eip161 E) F state"
    and L: "inj_on (hash_deterministic P) L" "set (state_locs P state) \<subseteq> L" "LocBasic ` fst ` set ps \<subseteq> L"
    and ws: "write_set_of P E db tx r state = Some ws" "rewards_of P E db tx r = rewards_at P ps"
    and ent: "\<And>h j. j < i \<Longrightarrow> entry_at mv' h j = entry_at mv h j" "\<And>h. entry_at mv' h i = map_option (Data inc) (map_of ws h)"
  shows "shows_flat P S L mv' (Suc i) (flat_pay ps (flat_commit P (ve_eip161 E) state F))" "additive_below P L mv' (Suc i)"
proof -
  let ?ws = "writes_of P (ve_eip161 E) db state" and ?h = "hash_deterministic P" and ?F = "flat_commit P (ve_eip161 E) state F"
  have lazy: "\<not> db_is_lazy db" using db(1) by (simp add: db_shows_def)
  have dist: "distinct (map fst state)" using db(2) by (simp add: regular_def)
  note ok = conjI [OF regularD(1,2) [OF db(2)]]
  have m: "map_of ?ws (?h l) = written P (ve_eip161 E) db state l" if "l \<in> L" for l
    by (rule written_map [OF dist L(1,2) lazy that ok])
  have keys: "distinct (map fst ?ws)" by (rule writes_distinct [OF dist inj_on_subset [OF L(1,2)] ok])
  have rew: "apply_rewards (rewards_at P ps) ?ws = Some ws" using ws by (simp add: write_set_of_def)
  have base: "additive_write (map_of ?ws (?h (LocBasic a))) \<and> account_write (map_of ?ws (?h (LocBasic a))) (f_basic F a) = f_basic ?F a"
    if "LocBasic a \<in> L" for a using commit_basic [OF db that L(1)] m [OF that] by simp
  have rf: "additive_write (map_of ws (?h (LocBasic a))) \<and> account_write (map_of ws (?h (LocBasic a))) (f_basic F a) = f_basic (flat_pay ps ?F) a"
    if "LocBasic a \<in> L" for a by (rule rewards_flat(1) [OF rew L(1,3) base keys that])
  have rest: "map_of ws (?h l) = map_of ?ws (?h l)" if "l \<in> L" "\<And>a. l \<noteq> LocBasic a" for l
    by (rule rewards_flat(2) [OF rew L(1,3) base keys that])
  have basic: "basic_view base (table_entry (mv_data mv') (?h (LocBasic a))) (Suc i) =
      account_write (map_of ws (?h (LocBasic a))) (basic_view base (table_entry (mv_data mv) (?h (LocBasic a))) i) \<and>
    additive (table_entry (mv_data mv') (?h (LocBasic a))) (Suc i)" if a: "LocBasic a \<in> L" for a base
    using basic_view_write [of i "table_entry (mv_data mv') (?h (LocBasic a))" "table_entry (mv_data mv) (?h (LocBasic a))", OF ent(1) ent(2)]
      rf [OF a] F(2) a by (simp add: additive_below_def)
  have code: "code_view (st_code_hash S a) (table_entry (mv_data mv') (?h (LocCodeHash a))) (Suc i) = f_code_hash ?F a" if a: "LocCodeHash a \<in> L" for a
  proof -
    let ?t = "table_entry (mv_data mv') (?h (LocCodeHash a))"
    have e: "?t i = map_option (Data inc) (written P (ve_eip161 E) db state (LocCodeHash a))" using ent(2) rest [OF a] m [OF a] by simp
    have "code_view (st_code_hash S a) ?t i = f_code_hash F a"
      using views_cong(2) [of i ?t "table_entry (mv_data mv) (?h (LocCodeHash a))"] ent(1) F(1) a by (simp add: shows_flat_def)
    with commit_code_hash [OF db L(2,1), of a] e show ?thesis by (auto simp: views_none(2) views_data(2))
  qed
  have slot: "slot_view (st_storage S a j) (table_entry (mv_data mv') (?h (LocStorage a j))) (Suc i) = f_slot ?F a j" if a: "LocStorage a j \<in> L" for a j
  proof -
    let ?t = "table_entry (mv_data mv') (?h (LocStorage a j))"
    have e: "?t i = map_option (Data inc) (written P (ve_eip161 E) db state (LocStorage a j))" using ent(2) rest [OF a] m [OF a] by simp
    have "slot_view (st_storage S a j) ?t i = f_slot F a j"
      using views_cong(3) [of i ?t "table_entry (mv_data mv) (?h (LocStorage a j))"] ent(1) F(1) a by (simp add: shows_flat_def)
    with commit_slot [of P "ve_eip161 E" db state a j F] e show ?thesis by (auto simp: views_none(3) views_data(3) simp del: written.simps)
  qed
  show "additive_below P L mv' (Suc i)" using basic by (simp add: additive_below_def)
  have "f_basic (flat_pay ps ?F) a = basic_view (st_basic S a) (table_entry (mv_data mv') (?h (LocBasic a))) (Suc i)" if "LocBasic a \<in> L" for a
    using basic [OF that] rf [OF that] F(1) that by (simp add: shows_flat_def)
  with code slot show "shows_flat P S L mv' (Suc i) (flat_pay ps ?F)" by (simp add: shows_flat_def)
qed

section \<open>A block\<close>

text \<open>
  The first \<open>n\<close> transactions of a block on a flat state that starts with the storage: run, commit, pay the
  rewards; \<open>None\<close> when a transaction fails.
\<close>

primrec flat_block ::
  "('bc, 'jt) revm_api \<Rightarrow> 'jt storage_api \<Rightarrow> (b256 \<rightharpoonup> 'bc) \<Rightarrow> ('bc, 'au, 'tx, 'lg) vm_env \<Rightarrow> ('tx \<Rightarrow> 'lg exec_result \<Rightarrow> (address \<times> u256) list) \<Rightarrow>
   'tx list \<Rightarrow> nat \<Rightarrow> (('jt, 'lg) tx_result list \<times> flat) option" where
  "flat_block P S code_of E pay txs 0 = Some ([], flat_of S)"
| "flat_block P S code_of E pay txs (Suc i) =
     (case flat_block P S code_of E pay txs i of
        None \<Rightarrow> None
      | Some (rs, F) \<Rightarrow>
          (case run_flat P S code_of F (ve_evm E (txs ! i)) of
             Some (Inr (r, state)) \<Rightarrow>
               (case state_transitions_from_revm P (ve_eip161 E) state of
                  None \<Rightarrow> None
                | Some st \<Rightarrow>
                    Some (rs @ [\<lparr>tr_receipt = receipt_from_revm r, tr_state = st\<rparr>],
                      flat_pay (pay (txs ! i) r) (flat_commit P (ve_eip161 E) state F)))
           | _ \<Rightarrow> None))"

text \<open>The EVM keeps its promises on every state the block goes through.\<close>

definition flat_regular ::
  "('bc, 'jt) revm_api \<Rightarrow> 'jt storage_api \<Rightarrow> (b256 \<rightharpoonup> 'bc) \<Rightarrow> ('bc, 'au, 'tx, 'lg) vm_env \<Rightarrow> ('tx \<Rightarrow> 'lg exec_result \<Rightarrow> (address \<times> u256) list) \<Rightarrow>
   'tx list \<Rightarrow> bool" where
  "flat_regular P S code_of E pay txs \<longleftrightarrow>
     (\<forall>i < length txs. \<forall>rs F r state. flat_block P S code_of E pay txs i = Some (rs, F) \<longrightarrow>
        run_flat P S code_of F (ve_evm E (txs ! i)) = Some (Inr (r, state)) \<longrightarrow> regular P (ve_eip161 E) F state)"

lemma flat_regularD:
  "flat_regular P S code_of E pay txs \<Longrightarrow> i < length txs \<Longrightarrow> flat_block P S code_of E pay txs i = Some (rs, F) \<Longrightarrow>
   run_flat P S code_of F (ve_evm E (txs ! i)) = Some (Inr (r, state)) \<Longrightarrow> regular P (ve_eip161 E) F state"
  unfolding flat_regular_def by blast

text \<open>The locations of a block: what it accessed and changed, the recipients of its calls and of its rewards.\<close>

definition block_locs :: "('bc, 'au, 'tx, 'lg) vm_env \<Rightarrow> 'tx list \<Rightarrow> address set \<Rightarrow> ('bc, 'jt, 'lg) executor \<Rightarrow> memory_location set" where
  "block_locs E txs rewarded c = accessed c \<union> touched c \<union> LocBasic ` rewarded \<union>
     {LocBasic a | a tx. tx \<in> set txs \<and> te_kind (ve_tx_env E tx) = TxCall a}"

lemma block_codes_known:
  assumes "consistent_code P S E txs code_of" "code_sound code_of mv" shows "codes_known P S code_of i mv"
  unfolding codes_known_def using read_known_code [OF assms(1,2) _ assms(2)] by auto

lemma flat_start: "shows_flat P S L mv 0 (flat_of S)" "additive_below P L mv 0"
  by (simp_all add: shows_flat_def flat_of_def additive_below_def additive_def basic_view_def code_view_def slot_view_def read_back_steps
      lazy_acc_init_def evaluated_def evaluate_balance_def split: sum.splits option.splits)

text \<open>Every account that a transaction pays has an entry of the transaction.\<close>

definition pays_entries ::
  "('bc, 'jt) revm_api \<Rightarrow> 'jt storage_api \<Rightarrow> (b256 \<rightharpoonup> 'bc) \<Rightarrow> ('bc, 'au, 'tx, 'lg) vm_env \<Rightarrow> ('tx \<Rightarrow> 'lg exec_result \<Rightarrow> (address \<times> u256) list) \<Rightarrow>
   'tx list \<Rightarrow> 'bc mv_memory \<Rightarrow> nat \<Rightarrow> bool" where
  "pays_entries P S code_of E pay txs mv i \<longleftrightarrow>
     (\<forall>rs F r state. flat_block P S code_of E pay txs i = Some (rs, F) \<longrightarrow> run_flat P S code_of F (ve_evm E (txs ! i)) = Some (Inr (r, state)) \<longrightarrow>
        (\<forall>a \<in> fst ` set (pay (txs ! i) r). entry_at mv (hash_deterministic P (LocBasic a)) i \<noteq> None))"

text \<open>One transaction of a finished run, on the flat state that the memory shows below it.\<close>

lemma flat_next:
  assumes inv: "inv_trace P S E txs code_of c" and con: "consistent_code P S E txs code_of"
    and inj: "inj_on (hash_deterministic P) L" and L: "block_locs E txs rewarded c \<subseteq> L"
    and i: "i < length txs" "i \<in> finished c" "no_estimates (memory c) i" "validate_read_locations (memory c) i"
    and lazy: "0 < i \<and> i \<in> needing c \<or> te_caller (ve_tx_env E (txs ! i)) \<notin> set (lazy_addresses (memory c))"
    and pay: "\<And>db r. db_tx db = ve_tx_env E (txs ! i) \<Longrightarrow> rewards_of P E db (txs ! i) r = rewards_at P (pay (txs ! i) r)"
      "\<And>r. fst ` set (pay (txs ! i) r) \<subseteq> rewarded"
    and reg: "flat_regular P S code_of E pay txs"
    and F: "flat_block P S code_of E pay txs i = Some (rs, F)" "shows_flat P S L (memory c) i F" "additive_below P L (memory c) i"
  shows "\<exists>F'. flat_block P S code_of E pay txs (Suc i) = Some (rs @ [the (results c ! i)], F') \<and>
    shows_flat P S L (memory c) (Suc i) F' \<and> additive_below P L (memory c) (Suc i) \<and> pays_entries P S code_of E pay txs (memory c) i"
proof -
  have "explained P S E txs c i" using inv i(1,2) by (simp add: inv_trace_def inv_explained_def)
  then obtain inc db ws res where x: "traced P S E txs (history c) (accessed c) (touched c) i db ws res"
    "results c ! i = Some res" "ll_read (last_locations (memory c) ! i) = db_read_set db" "i \<in> needing c \<longleftrightarrow> 0 < i \<and> \<not> db_is_lazy db"
    "db_is_lazy db \<longrightarrow> te_caller (ve_tx_env E (txs ! i)) \<in> set (lazy_addresses (memory c))"
    "\<forall>h \<in> fst ` set ws. entry_at (memory c) h i = Some (Data inc (the (map_of (rev ws) h)))"
    "\<forall>h. h \<notin> fst ` set ws \<longrightarrow> (\<forall>inc x. entry_at (memory c) h i \<noteq> Some (Data inc x))"
    unfolding explained_def by (elim exE conjE) (rule that)
  have nl: "\<not> db_is_lazy db" using x(4,5) lazy by blast
  have sub: "accessed c \<subseteq> L" "touched c \<subseteq> L" "LocBasic ` rewarded \<subseteq> L"
    and to: "\<And>a. te_kind (ve_tx_env E (txs ! i)) = TxCall a \<Longrightarrow> LocBasic a \<in> L" using L nth_mem [OF i(1)] unfolding block_locs_def by blast+
  have inj': "inj_on (hash_deterministic P) (accessed c)" by (rule inj_on_subset [OF inj sub(1)])
  have sound: "code_sound code_of (memory c)" using inv last_in_set by (force simp: inv_trace_def inv_codes_def)
  obtain r state f mv3 codes addrs new where
    run: "vm_run_as P S E (db_is_lazy db) (\<lambda>_. memory c) (new_vmdb E txs) i (txs ! i) = (Inr (Inr (r, state)), db)"
    and co: "vm_commit P E (memory c) db v0 (txs ! i) r state = Some (Inr (f, res), mv3)"
    and ws: "write_set_of P E db (txs ! i) r state = Some ws"
    and locs: "set (vm_locs_as P S E (db_is_lazy db) (\<lambda>_. memory c) (new_vmdb E txs) i (txs ! i)) \<subseteq> accessed c" "set (state_locs P state) \<subseteq> touched c"
    by (rule replay [OF i(1) inv con inj' x(1,3) i(4) _ sound, of v0]) simp
  have run': "vm_run_as P S E False (\<lambda>_. memory c) (new_vmdb E txs) i (txs ! i) = (Inr (Inr (r, state)), db)"
    and locs': "set (vm_locs_as P S E False (\<lambda>_. memory c) (new_vmdb E txs) i (txs ! i)) \<subseteq> L" using run locs(1) sub(1) nl by auto
  from vm_run_shows_flat [OF run' locs' inj to F(2) block_codes_known [OF con sound]]
  have rf: "run_flat P S code_of F (ve_evm E (txs ! i)) = Some (Inr (r, state))" and db: "db_shows P L F i db" by simp_all
  have st: "state_transitions_from_revm P (ve_eip161 E) state = Some (tr_state res)" "tr_receipt res = receipt_from_revm r"
    using co ws by (auto simp: vm_commit_def Let_def split: option.splits prod.splits)
  have regular: "regular P (ve_eip161 E) F state" by (rule flat_regularD [OF reg i(1) F(1) rf])
  have tx: "db_tx db = ve_tx_env E (txs ! i)" using x(1) unfolding traced_def by (auto dest: vm_run_tx)
  have ps: "LocBasic ` fst ` set (pay (txs ! i) r) \<subseteq> L" using pay(2) sub(3) by blast
  have keys: "distinct (map fst ws)"
    using commit_keys [OF db regular inj _ ps ws pay(1) [OF tx]] locs(2) sub(2) by blast
  have ent: "entry_at (memory c) h i = map_option (Data inc) (map_of ws h)" for h
  proof (cases "h \<in> fst ` set ws")
    case True
    then have "map_of ws h \<noteq> None" by (simp add: map_of_eq_None_iff)
    with x(6) True map_of_rev_distinct [OF keys] show ?thesis by auto
  next
    case False
    then have "map_of ws h = None" by (simp add: map_of_eq_None_iff)
    moreover have "entry_at (memory c) h i = None"
      using x(7) i(3) False unfolding no_estimates_def by (metis memory_entry.exhaust option.exhaust)
    ultimately show ?thesis by simp
  qed
  have tl: "set (state_locs P state) \<subseteq> L" using locs(2) sub(2) by blast
  note commit_shows_flat [OF F(2,3) db regular inj tl ps ws pay(1) [OF tx] refl ent]
  moreover have "flat_block P S code_of E pay txs (Suc i) =
    Some (rs @ [the (results c ! i)], flat_pay (pay (txs ! i) r) (flat_commit P (ve_eip161 E) state F))"
    using F(1) rf st x(2) by (cases res) simp
  moreover have "pays_entries P S code_of E pay txs (memory c) i"
  proof -
    have "hash_deterministic P (LocBasic a) \<in> fst ` set ws" if "a \<in> fst ` set (pay (txs ! i) r)" for a
      using apply_rewards_keys [OF ws [unfolded write_set_of_def pay(1) [OF tx]]] that by force
    with ent F(1) rf show ?thesis by (auto simp: pays_entries_def map_of_eq_None_iff)
  qed
  ultimately show ?thesis by blast
qed

lemma flat_refined:
  assumes inv: "inv_trace P S E txs code_of c" and con: "consistent_code P S E txs code_of"
    and inj: "inj_on (hash_deterministic P) (block_locs E txs rewarded c)" and fin: "{..<length txs} \<subseteq> finished c"
    and val: "\<And>i. i < length txs \<Longrightarrow> no_estimates (memory c) i \<and> validate_read_locations (memory c) i"
    and lazy: "\<forall>i < length txs. 0 < i \<and> i \<in> needing c \<or> te_caller (ve_tx_env E (txs ! i)) \<notin> set (lazy_addresses (memory c))"
    and pay: "\<And>tx db r. db_tx db = ve_tx_env E tx \<Longrightarrow> rewards_of P E db tx r = rewards_at P (pay tx r)" "\<And>tx r. fst ` set (pay tx r) \<subseteq> rewarded"
    and reg: "flat_regular P S code_of E pay txs"
  shows "k \<le> length txs \<Longrightarrow> \<exists>F. flat_block P S code_of E pay txs k = Some (map (\<lambda>i. the (results c ! i)) [0..<k], F) \<and>
    shows_flat P S (block_locs E txs rewarded c) (memory c) k F \<and> additive_below P (block_locs E txs rewarded c) (memory c) k \<and>
    (\<forall>j < k. pays_entries P S code_of E pay txs (memory c) j)"
proof (induction k)
  case 0
  then show ?case using flat_start by auto
next
  case (Suc k)
  then obtain F where F: "flat_block P S code_of E pay txs k = Some (map (\<lambda>i. the (results c ! i)) [0..<k], F)"
    "shows_flat P S (block_locs E txs rewarded c) (memory c) k F" "additive_below P (block_locs E txs rewarded c) (memory c) k"
    "\<forall>j < k. pays_entries P S code_of E pay txs (memory c) j" by auto
  have k: "k < length txs" "k \<in> finished c" using Suc.prems fin by auto
  from val [OF k(1)] lazy k(1) have v: "no_estimates (memory c) k" "validate_read_locations (memory c) k"
    "0 < k \<and> k \<in> needing c \<or> te_caller (ve_tx_env E (txs ! k)) \<notin> set (lazy_addresses (memory c))" by auto
  from flat_next [OF inv con inj order_refl k v pay reg F(1-3)] F(4) show ?case by (auto simp: less_Suc_eq)
qed

context reward_chain
begin

text \<open>Every joined run in which no transaction was executed lazily refines the flat specification.\<close>

lemma joined_run_flat_upto:
  assumes run: "executor_reaches P S E txs (build (ve_beneficiary E) txs) k c" "\<forall>w. pcs (workers c) w = Exited" "aborted_for c = None"
    and rew: "ve_rewards E = rewards" and codes: "new_bytecodes (build (ve_beneficiary E) txs) = Map.empty"
    and con: "consistent_code P S E txs code_of" and inj: "inj_on (hash_deterministic P) (block_locs E txs rewarded c)"
    and lazy: "\<forall>i < length txs. 0 < i \<and> i \<in> needing c \<or> te_caller (ve_tx_env E (txs ! i)) \<notin> set (lazy_addresses (memory c))"
    and pay: "\<And>tx db r. db_tx db = ve_tx_env E tx \<Longrightarrow> rewards_of P E db tx r = rewards_at P (pay tx r)" "\<And>tx r. fst ` set (pay tx r) \<subseteq> rewarded"
    and reg: "flat_regular P S code_of E pay txs"
  shows "m \<le> length txs \<Longrightarrow> \<exists>F. flat_block P S code_of E pay txs m = Some (map (\<lambda>i. the (results c ! i)) [0..<m], F) \<and>
    shows_flat P S (block_locs E txs rewarded c) (memory c) m F \<and> additive_below P (block_locs E txs rewarded c) (memory c) m \<and>
    (\<forall>j < m. pays_entries P S code_of E pay txs (memory c) j)"
proof -
  note tr = joined_run_traced [OF run codes con]
  have "accessed c \<subseteq> block_locs E txs rewarded c" by (auto simp: block_locs_def)
  then have inj': "inj_on (hash_deterministic P) (accessed c)" by (rule inj_on_subset [OF inj])
  have "i \<in> needing c" if "i < length txs" "0 < i" for i
  proof -
    have "explained P S E txs c i" using tr that(1) by (auto simp: inv_trace_def inv_explained_def)
    with lazy that show ?thesis unfolding explained_def by blast
  qed
  then have "no_estimates (memory c) i \<and> validate_read_locations (memory c) i" if "i < length txs" for i
    using joined_run_replays [OF run rew codes con inj' that] that by blast
  note val = this
  assume "m \<le> length txs"
  then show "\<exists>F. flat_block P S code_of E pay txs m = Some (map (\<lambda>i. the (results c ! i)) [0..<m], F) \<and>
    shows_flat P S (block_locs E txs rewarded c) (memory c) m F \<and> additive_below P (block_locs E txs rewarded c) (memory c) m \<and>
    (\<forall>j < m. pays_entries P S code_of E pay txs (memory c) j)" by (intro flat_refined [OF tr(1) con inj tr(2) _ lazy pay reg] val) simp_all
qed

end

section \<open>Refinement\<close>

text \<open>What a transaction of Ethereum pays: its priority fee, to the beneficiary of the block.\<close>

definition eth_pay :: "('bc, 'au, 'tx, 'lg) vm_env \<Rightarrow> 'tx \<Rightarrow> 'lg exec_result \<Rightarrow> (address \<times> u256) list" where
  "eth_pay E tx r = [(ve_beneficiary E,
     saturating_mul (ucast (effective_gas_price (ve_eip161 E) (ve_basefee E) (ve_tx_env E tx))) (ucast (er_gas_used r)))]"

lemma eth_pays:
  "ve_rewards E = eth_get_rewards \<Longrightarrow> db_tx db = ve_tx_env E tx \<Longrightarrow> rewards_of P E db tx r = rewards_at P (eth_pay E tx r)"
  "fst ` set (eth_pay E tx r) \<subseteq> {ve_beneficiary E}"
  by (simp_all add: rewards_of_def eth_get_rewards_def eth_pay_def)


text \<open>The same for RISE, whose transactions pay three more recipients; deposits pay nobody.\<close>

definition rise_pay :: "('au, 'sa) op_api \<Rightarrow> ('bc, 'au, 'au op_tx, 'lg) vm_env \<Rightarrow> 'au op_tx \<Rightarrow> 'lg exec_result \<Rightarrow> (address \<times> u256) list" where
  "rise_pay Q E tx r =
     (if op_is_deposit Q tx then []
      else [(ve_beneficiary E, saturating_mul (ucast (effective_gas_price (ve_eip161 E) (ve_basefee E) (ve_tx_env E tx))) (ucast (er_gas_used r))),
            (base_fee_recipient Q, saturating_mul (ucast (ve_basefee E)) (ucast (er_gas_used r))), (l1_fee_recipient Q, 0), (operator_fee_recipient Q, 0)])"

lemma rise_pays:
  "ve_rewards E = rise_get_rewards P Q \<Longrightarrow> db_tx db = ve_tx_env E tx \<Longrightarrow> rewards_of P E db tx r = rewards_at P (rise_pay Q E tx r)"
  "fst ` set (rise_pay Q E tx r) \<subseteq> {ve_beneficiary E, base_fee_recipient Q, l1_fee_recipient Q, operator_fee_recipient Q}"
  by (simp_all add: rewards_of_def rise_get_rewards_def rise_pay_def)

lemma rise_parallel_run_refines_flat:
  assumes "executor_reaches P S E txs (rise_build_mv_memory P Q (ve_beneficiary E) txs) k c" "\<forall>w. pcs (workers c) w = Exited" "aborted_for c = None"
    and "ve_rewards E = rise_get_rewards P Q" "consistent_code P S E txs code_of"
    and "rewarded = {ve_beneficiary E, base_fee_recipient Q, l1_fee_recipient Q, operator_fee_recipient Q}"
    and "inj_on (hash_deterministic P) (block_locs E txs rewarded c)"
    and "\<forall>i < length txs. 0 < i \<and> i \<in> needing c \<or> te_caller (ve_tx_env E (txs ! i)) \<notin> set (lazy_addresses (memory c))"
    and "flat_regular P S code_of E (rise_pay Q E) txs"
  shows "\<exists>F. flat_block P S code_of E (rise_pay Q E) txs (length txs) = Some (map (\<lambda>i. the (results c ! i)) [0..<length txs], F) \<and>
    shows_flat P S (block_locs E txs rewarded c) (memory c) (length txs) F"
proof -
  have "new_bytecodes (rise_build_mv_memory P Q (ve_beneficiary E) txs) = Map.empty" by (simp add: rise_build_mv_memory_def mv_new_def)
  moreover have "fst ` set (rise_pay Q E tx r) \<subseteq> rewarded" for tx r using rise_pays(2) assms(6) by simp
  ultimately show ?thesis
    using rise.joined_run_flat_upto [OF assms(1-4) _ assms(5,7,8) rise_pays(1) [OF assms(4)] _ assms(9) order_refl] by auto
qed

section \<open>The sample block\<close>

lemmas flat_sample_defs = eth_env_def eth_pay_def sample_defs flat_of_def flat_info_def flat_commit_def effective_gas_price_def
  saturating_mul_def transition_from_def evm_account_from_def receipt_from_revm_def

lemma sample_flat_first:
  "flat_block sample_api sample_storage Map.empty eth_env (eth_pay eth_env) [0, 1] 1 = Some (rs, F) \<Longrightarrow>
   f_basic F 11 = Inr (Some \<lparr>ab_balance = 1000, ab_nonce = 0\<rparr>) \<and> f_code_hash F 11 = Inr None"
  by (auto simp: flat_sample_defs)

lemma sample_flat_second:
  "flat_block sample_api sample_storage Map.empty eth_env (eth_pay eth_env) [0, 1] (Suc (Suc 0)) = Some (rs, F) \<Longrightarrow>
   f_slot F 50 1 = Inr 9 \<and> f_basic F 99 = Inr (Some \<lparr>ab_balance = 200, ab_nonce = 0\<rparr>)"
  by (auto simp: flat_sample_defs saturating_add_def)

lemma sample_flat_regular: "flat_regular sample_api sample_storage Map.empty eth_env (eth_pay eth_env) [0 :: nat, 1]"
  unfolding flat_regular_def
proof (intro allI impI)
  fix i rs F r state
  assume i: "i < length [0 :: nat, 1]" and F: "flat_block sample_api sample_storage Map.empty eth_env (eth_pay eth_env) [0, 1] i = Some (rs, F)"
    and run: "run_flat sample_api sample_storage Map.empty F (ve_evm eth_env ([0, 1] ! i)) = Some (Inr (r, state))"
  from i consider "i = 0" | "i = 1" by (auto simp: less_Suc_eq)
  then show "regular sample_api (ve_eip161 eth_env) F state"
  proof cases
    case 1
    with F run show ?thesis by (auto simp: flat_sample_defs regular_def)
  next
    case 2
    with F run sample_flat_first show ?thesis by (auto simp: eth_env_def sample_defs flat_info_def regular_def split: sum.splits)
  qed
qed

lemma pair_run_flat:
  assumes "workers c = pair_joined" "memory c = sample_mv2" "needing c = {1}" "accessed c \<subseteq> eth_locs" "touched c \<subseteq> eth_locs"
  shows "\<forall>w. pcs (workers c) w = Exited" "ve_rewards eth_env = eth_get_rewards"
    "inj_on (hash_deterministic sample_api) (block_locs eth_env [0, 1] {ve_beneficiary eth_env} c)"
    "\<forall>i < length [0 :: nat, 1]. 0 < i \<and> i \<in> needing c \<or> te_caller (ve_tx_env eth_env ([0, 1] ! i)) \<notin> set (lazy_addresses (memory c))"
proof -
  have L: "block_locs eth_env [0, 1] {ve_beneficiary eth_env} c \<subseteq> insert (LocBasic 99) eth_locs"
    using assms(4,5) by (auto simp: block_locs_def eth_locs_def eth_env_def sample_env_def sample_tx_def)
  have "inj_on (hash_deterministic sample_api) (insert (LocBasic 99) eth_locs)" by (simp add: eth_locs_def sample_api_def)
  then show "inj_on (hash_deterministic sample_api) (block_locs eth_env [0, 1] {ve_beneficiary eth_env} c)" using L by (rule inj_on_subset)
  show "\<forall>w. pcs (workers c) w = Exited" using assms(1) pair_exited by simp
  show "ve_rewards eth_env = eth_get_rewards" by (simp add: eth_env_def)
  show "\<forall>i < length [0 :: nat, 1]. 0 < i \<and> i \<in> needing c \<or> te_caller (ve_tx_env eth_env ([0, 1] ! i)) \<notin> set (lazy_addresses (memory c))"
    using assms(2,3) sample_mv2_history(2) by (auto simp: less_Suc_eq eth_env_def sample_env_def sample_tx_def)
qed


end
