(* ===== verification/Lazy_Race.thy ===== *)
theory Lazy_Race
  imports Parallel_Sample
begin

text \<open>
  A limit of the parallel executor. A transaction that was executed lazily (both ends of a plain transfer are lazy locations)
  is marked as validated at once, and as long as no transaction of the block needs validation nothing ever checks its
  only read, that its recipient has no code. Here the first transaction of a block deploys a contract and the second one, from the
  beneficiary, calls it; a run of the executor that starts with the second one ends with another receipt than the block has.
\<close>

section \<open>The block\<close>

definition race_tx :: "nat \<Rightarrow> unit tx_env" where
  "race_tx n = (if n = 0 then (sample_tx 0)\<lparr>te_kind := TxCreate\<rparr> else (sample_tx 0)\<lparr>te_caller := 99, te_value := 7\<rparr>)"

definition race_storage :: "bool list storage_api" where
  "race_storage = in_memory_api sample_api
     (in_memory_new (Map.empty(10 \<mapsto> sample_account 1000 None [], 99 \<mapsto> sample_account 1000 None [])) Map.empty Map.empty)"

definition touched_account :: "u256 \<Rightarrow> u64 \<Rightarrow> (b256 \<times> sample_code option) \<Rightarrow> sample_code revm_account" where
  "touched_account balance nonce code =
     \<lparr>ra_info = \<lparr>ai_balance = balance, ai_nonce = nonce, ai_code_hash = fst code, ai_code = snd code\<rparr>,
      ra_storage = [], ra_touched = True, ra_selfdestructed = False\<rparr>"

fun race_evm :: "nat \<Rightarrow> (sample_code, evm_failure + unit exec_result \<times> sample_code evm_state) evm_run" where
  "race_evm 0 =
     EvmBasic 10 (\<lambda>_. EvmDone (Inr (\<lparr>er_success = True, er_gas_used = 100, er_logs = []\<rparr>,
       [(10, touched_account 900 1 (77, None)), (50, touched_account 0 1 (5, Some (Inl ([96], 1, []))))])))"
| "race_evm (Suc n) =
     EvmBasic 99 (\<lambda>sender. EvmBasic 50 (\<lambda>to.
       case to of
         Some info \<Rightarrow> EvmDone (Inr (\<lparr>er_success = True, er_gas_used = 200, er_logs = []\<rparr>,
           [(99, touched_account 793 1 (77, None)), (50, touched_account 7 1 (5, Some (Inl ([96], 1, []))))]))
       | None \<Rightarrow> EvmDone (Inr (\<lparr>er_success = True, er_gas_used = 100, er_logs = []\<rparr>,
           [(99, touched_account (ai_balance (the sender) - 107) 1 (77, None)), (50, touched_account 7 0 (77, None))]))))"

definition race_env :: "(sample_code, unit, nat, unit) vm_env" where
  "race_env = eth_env\<lparr>ve_tx_env := race_tx, ve_evm := race_evm\<rparr>"

lemmas race_defs = race_tx_def race_storage_def touched_account_def race_env_def eth_env_def eth_get_rewards_def saturating_mul_def
  sample_defs vm_run_defs vm_execute_defs replicate_two

definition race_mv1 :: "sample_code mv_memory" where
  "race_mv1 =
     \<lparr>mv_data = [396 \<mapsto> (estimate_tree [0, 1])(1 \<mapsto> Data 0 (LazySender 7)), 200 \<mapsto> [1 \<mapsto> Data 0 (LazyRecipient 7)]],
      last_locations = [\<lparr>ll_read = [], ll_write = []\<rparr>, \<lparr>ll_read = [(201, [StorageOrigin])], ll_write = [396, 200]\<rparr>],
      lazy_addresses = [50, 99], new_bytecodes = Map.empty\<rparr>"

abbreviation race_execute ::
  "sample_code mv_memory \<Rightarrow> nat \<Rightarrow> ((vm_execution_error + finish_exec_flags \<times> (bool list, unit) tx_result) \<times> sample_code mv_memory) option" where
  "race_execute mv i \<equiv> vm_execute sample_api race_storage race_env [0, 1] (\<lambda>_. mv) mv sample_db (first_version i)"

lemma race_step_1:
  "\<exists>res. race_execute sample_mv 1 = Some (Inr (WroteNewLocation, res), race_mv1) \<and> rc_cumulative_gas_used (tr_receipt res) = 100"
  by (simp add: race_defs race_mv1_def saturating_sub_def flags_union_def flags_empty_def WroteNewLocation_def)

lemma race_step_0:
  "\<exists>res mv. race_execute race_mv1 0 = Some (Inr (WroteNewLocation, res), mv) \<and> \<not> validate_read_locations mv 1"
  by (simp add: race_defs race_mv1_def evm_code_from_def flags_union_def flags_empty_def WroteNewLocation_def
      validate_read_locations_def location_valid_def)

text \<open>In the order of the block the second transaction calls the contract.\<close>

definition ordered_mv1 :: "sample_code mv_memory" where
  "ordered_mv1 =
     \<lparr>mv_data = [40 \<mapsto> [0 \<mapsto> Data 0 (ValBasic \<lparr>ab_balance = 900, ab_nonce = 1\<rparr>)],
        200 \<mapsto> [0 \<mapsto> Data 0 (ValBasic \<lparr>ab_balance = 0, ab_nonce = 1\<rparr>)], 201 \<mapsto> [0 \<mapsto> Data 0 (ValCodeHash 5)],
        396 \<mapsto> (estimate_tree [0, 1])(0 \<mapsto> Data 0 (LazyRecipient 100))],
      last_locations = [\<lparr>ll_read = [(40, [StorageOrigin]), (41, [StorageOrigin])], ll_write = [40, 200, 201, 396]\<rparr>,
        \<lparr>ll_read = [], ll_write = []\<rparr>],
      lazy_addresses = [99], new_bytecodes = [5 \<mapsto> Inl ([96], 1, [])]\<rparr>"

lemma ordered_step_0: "\<exists>res. race_execute sample_mv 0 = Some (Inr (WroteNewLocation, res), ordered_mv1)"
  by (simp add: race_defs ordered_mv1_def evm_code_from_def flags_union_def flags_empty_def WroteNewLocation_def)

lemma ordered_step_1:
  "\<exists>flags res mv. race_execute ordered_mv1 1 = Some (Inr (flags, res), mv) \<and> rc_cumulative_gas_used (tr_receipt res) = 200"
  by (simp add: race_defs ordered_mv1_def evm_code_from_def flags_union_def flags_empty_def WroteNewLocation_def
      read_back.simps lazy_add_def)

section \<open>The run\<close>

text \<open>
  Both workers take a transaction; worker 1 finishes the second one and leaves, then worker 0 finishes the first one and leaves.
\<close>

abbreviation finishes :: "nat \<Rightarrow> nat \<Rightarrow> machine \<Rightarrow> machine" where
  "finishes w i m \<equiv> goto (m\<lparr>slots := (slots m)(i := True)\<rparr>) w (FE_lock (first_version i) WroteNewLocation)"

definition race_running :: machine where
  "race_running = the (run_quiet (replicate 5 0 @ replicate 5 1) (start_machine 2 2))"

definition race_left :: machine where
  "race_left = the (run_quiet (replicate 10 1) (finishes 1 1 race_running))"

definition race_joined :: machine where
  "race_joined = the (run_quiet (replicate 10 0) (finishes 0 0 race_left))"

lemma race_machine:
  "run_quiet (replicate 5 0 @ replicate 5 1) (start_machine 2 2) = Some race_running"
  "run_quiet (replicate 10 1) (finishes 1 1 race_running) = Some race_left"
  "run_quiet (replicate 10 0) (finishes 0 0 race_left) = Some race_joined"
  unfolding race_joined_def race_left_def race_running_def
  by (rule run_quiet_the, code_simp)+

lemma race_pcs:
  "pcs race_running 1 = RUN (first_version 1)" "pcs race_left 0 = RUN (first_version 0)" "pcs race_joined 0 = Exited"
  "pcs race_joined 1 = Exited"
  unfolding race_joined_def race_left_def race_running_def by code_simp+

lemma race_exited: "pcs race_joined w = Exited"
proof (cases "w = 0 \<or> w = 1")
  case False
  with quiet_frame [OF race_machine(1), of w] quiet_frame [OF race_machine(2), of w] quiet_frame [OF race_machine(3), of w]
  show ?thesis by (simp add: start_machine_def)
qed (use race_pcs in auto)

text \<open>
  C19: A lazily executed transaction is not validated, and nothing makes up for it: there is a block and a run of
  two workers that ends without abort reason, with every transaction validated, in which the second transaction was executed as
  a plain transfer before the first one deployed a contract at its recipient. Its read set does not validate in the final memory, and its
  receipt (gas 100) is not the one of executing the block in order (gas 200).
\<close>

theorem lazy_transaction_not_revalidated:
  "\<exists>c. executor_reaches sample_api race_storage race_env [0, 1] (eth_build_mv_memory sample_api 99 [0 :: nat, 1]) 2 c \<and>
     (\<forall>w. pcs (workers c) w = Exited) \<and> aborted_for c = None \<and> status_of (sched (workers c)) 0 = Validated \<and> status_of (sched (workers c)) 1 = Validated \<and>
     \<not> validate_read_locations (memory c) 1 \<and>
     (\<exists>r. results c ! 1 = Some r \<and> rc_cumulative_gas_used (tr_receipt r) = 100) \<and>
     (\<exists>f r0 mv f' r1 mv'. race_execute (eth_build_mv_memory sample_api 99 [0 :: nat, 1]) 0 = Some (Inr (f, r0), mv) \<and>
        race_execute mv 1 = Some (Inr (f', r1), mv') \<and> rc_cumulative_gas_used (tr_receipt r1) = 200)"
proof -
  let ?reach = "executor_reaches sample_api race_storage race_env [0 :: nat, 1] sample_mv 2"
  obtain r1 where s1: "race_execute sample_mv 1 = Some (Inr (WroteNewLocation, r1), race_mv1)"
    and g1: "rc_cumulative_gas_used (tr_receipt r1) = 100" using race_step_1 by blast
  obtain r0 mv where s0: "race_execute race_mv1 0 = Some (Inr (WroteNewLocation, r0), mv)"
    and val: "\<not> validate_read_locations mv 1" using race_step_0 by blast
  let ?c = "new_executor sample_mv (length [0 :: nat, 1]) 2 :: (sample_code, bool list, unit) executor"
  have "run_quiet (replicate 5 0 @ replicate 5 1) (workers ?c) = Some race_running"
    using race_machine(1) by (simp add: new_executor_def numeral_2_eq_2)
  then obtain c1 where c1: "?reach c1" "workers c1 = race_running" "memory c1 = sample_mv" "aborted_for c1 = None" "results c1 = [None, None]"
    by (rule quiet_executor [OF _ new_executor_reaches]) (simp_all add: new_executor_def grow_to_def)
  have "pcs (workers c1) 1 = RUN (first_version 1)" using c1 race_pcs(1) by simp
  moreover have "vm_execute sample_api race_storage race_env [0, 1] (\<lambda>_. memory c1) (memory c1) sample_db (first_version 1) =
      Some (Inr (WroteNewLocation, r1), race_mv1)" using s1 c1 by simp
  ultimately obtain c2 where c2: "?reach c2" "memory c2 = race_mv1" "aborted_for c2 = None" "results c2 = [None, Some r1]"
    "workers c2 = finishes 1 1 race_running"
    by (rule execute_executor [OF c1(1)]) (use c1 in simp_all)
  have "run_quiet (replicate 10 1) (workers c2) = Some race_left" using c2 race_machine(2) by simp
  then obtain c3 where c3: "?reach c3" "workers c3 = race_left" "memory c3 = race_mv1" "aborted_for c3 = None" "results c3 = [None, Some r1]"
    by (rule quiet_executor [OF _ c2(1)]) (use c2 in simp_all)
  have "pcs (workers c3) 0 = RUN (first_version 0)" using c3 race_pcs(2) by simp
  moreover have "vm_execute sample_api race_storage race_env [0, 1] (\<lambda>_. memory c3) (memory c3) sample_db (first_version 0) =
      Some (Inr (WroteNewLocation, r0), mv)" using s0 c3 by simp
  ultimately obtain c4 where c4: "?reach c4" "memory c4 = mv" "aborted_for c4 = None" "results c4 = [Some r0, Some r1]"
    "workers c4 = finishes 0 0 race_left"
    by (rule execute_executor [OF c3(1)]) (use c3 in simp_all)
  have "run_quiet (replicate 10 0) (workers c4) = Some race_joined" using c4 race_machine(3) by simp
  then obtain c5 where c5: "?reach c5" "workers c5 = race_joined" "memory c5 = mv" "aborted_for c5 = None" "results c5 = [Some r0, Some r1]"
    by (rule quiet_executor [OF _ c4(1)]) (use c4 in simp_all)
  have st: "status_of (sched race_joined) 0 = Validated" "status_of (sched race_joined) 1 = Validated"
    unfolding race_joined_def race_left_def race_running_def by code_simp+
  have mv0: "eth_build_mv_memory sample_api 99 [0 :: nat, 1] = sample_mv"
    by (simp only: eth_build_mv_memory_def sample_mv_def sample_hash_99) (simp add: numeral_2_eq_2)
  obtain q0 where o0: "race_execute sample_mv 0 = Some (Inr (WroteNewLocation, q0), ordered_mv1)" using ordered_step_0 by blast
  obtain f q1 mv' where o1: "race_execute ordered_mv1 1 = Some (Inr (f, q1), mv')" "rc_cumulative_gas_used (tr_receipt q1) = 200"
    using ordered_step_1 by blast
  show ?thesis unfolding mv0
    by (rule exI [of _ c5]) (use c5 st val g1 o0 o1 race_exited in auto)
qed

end
