(* ===== verification/Redelegation.thy ===== *)
theory Redelegation
  imports Flat Lazy_Race
begin

text \<open>
  A limit of the write set. The code hash of an account is recorded only when the account had no code when it was read, so a transaction
  that replaces the delegation of an account (EIP-7702, which RISE enables) leaves the old one in the memory of versions. Here the first
  transaction of a block of RISE changes the delegation of account 50 from 60 to 61 and the second one calls the account; the hypothesis of
  the flat refinement that code is not replaced fails, and so does its conclusion.
\<close>

section \<open>The block\<close>

text \<open>Account 10 sends a transaction with an authorization of account 50, then account 11 calls account 50.\<close>

definition redelegation_txs :: "unit op_tx list" where
  "redelegation_txs =
     [rise_tx\<lparr>op_base := (sample_tx 0)\<lparr>te_kind := TxCall 10, te_tx_type := 4, te_authorization_list := [()]\<rparr>\<rparr>, rise_tx\<lparr>op_base := sample_tx 1\<rparr>]"

definition redelegation_storage :: "bool list storage_api" where
  "redelegation_storage = in_memory_api sample_api
     (in_memory_new (Map.empty(10 \<mapsto> sample_account 1000 None [], 11 \<mapsto> sample_account 1000 None [], 50 \<mapsto> sample_account 5 (Some 60) []))
        (Map.empty(60 \<mapsto> Eip7702 60)) Map.empty)"

definition redelegation_evm :: "unit op_tx \<Rightarrow> (sample_code, evm_failure + unit exec_result \<times> sample_code evm_state) evm_run" where
  "redelegation_evm tx =
     (if te_caller (op_base tx) = 10
      then EvmBasic 10 (\<lambda>_. EvmBasic 50 (\<lambda>_. EvmDone (Inr (\<lparr>er_success = True, er_gas_used = 100, er_logs = []\<rparr>,
             [(10, touched_account 900 1 (77, None)), (50, touched_account 5 1 (61, Some (Inr 61)))]))))
      else EvmBasic 11 (\<lambda>_. EvmBasic 50 (\<lambda>to.
             EvmDone (Inr (\<lparr>er_success = True, er_gas_used = (if map_option ai_code_hash to = Some 61 then 200 else 100), er_logs = []\<rparr>,
               [(11, touched_account 900 1 (77, None))])))))"

definition redelegation_env :: "(sample_code, unit, unit op_tx, unit) vm_env" where
  "redelegation_env = rise_env\<lparr>ve_evm := redelegation_evm\<rparr>"

definition redelegation_code :: "b256 \<rightharpoonup> sample_code" where
  "redelegation_code = Map.empty(60 \<mapsto> Inr 60, 61 \<mapsto> Inr 61)"

lemmas redelegation_defs = redelegation_txs_def redelegation_storage_def redelegation_env_def redelegation_code_def redelegation_evm_def
  rise_tx_def rise_env_def rise_api_def rise_get_rewards_def rise_has_nonce_def rise_pay_def race_defs saturating_add_def evm_code_from_def

abbreviation delegation_after :: "(bool list, unit) tx_result \<Rightarrow> b256 option" where
  "delegation_after r \<equiv> case map_of (tr_state r) 50 of Some (Some account) \<Rightarrow> acc_code_hash account | _ \<Rightarrow> None"

lemma redelegated_in_order:
  "\<exists>r0 r1 mv. in_order sample_api redelegation_storage redelegation_env redelegation_txs (\<lambda>_. False) (\<lambda>_. 0)
       (rise_build_mv_memory sample_api rise_api 99 redelegation_txs) (Suc (Suc 0)) = Some ([r0, r1], mv) \<and>
     delegation_after r0 = Some 61 \<and> rc_cumulative_gas_used (tr_receipt r1) = 100"
  by (simp add: redelegation_defs rise_build_mv_memory_def fee_recipients_def push_estimate_def execute_as_def vm_run_as_def read_back.simps)

lemma redelegated_flat:
  "\<exists>r0 r1 F. flat_block sample_api redelegation_storage redelegation_code redelegation_env (rise_pay rise_api redelegation_env) redelegation_txs
       (Suc (Suc 0)) = Some ([r0, r1], F) \<and>
     delegation_after r0 = Some 61 \<and> rc_cumulative_gas_used (tr_receipt r1) = 200"
  by (simp add: redelegation_defs flat_sample_defs)


end
