(* ===== verification/Equivalence.thy ===== *)
theory Equivalence
  imports Flat
begin

text \<open>
  The two executors of \<^verbatim>\<open>pevm.rs\<close> agree: what \<^verbatim>\<open>execute_revm_parallel\<close> returns for a block has the receipts and the state transitions that
  \<^verbatim>\<open>execute_revm_sequential\<close> returns for it.
\<close>

section \<open>The final evaluation on the flat specification\<close>

lemma forward_Suc: "forward t (Suc i) b = (case t i of None \<Rightarrow> forward t i b | Some e \<Rightarrow> apply_update e (forward t i b))"
  by (simp add: forward_def split: option.splits)

lemma forward_absent: "(\<forall>j < i. t j = None) \<Longrightarrow> forward t i b = b"
  by (induction i) (auto simp: forward_Suc forward_def)

lemma first_entry: "entries_below n t = (k, e) # rest \<Longrightarrow> k < n \<and> t k = Some e \<and> (\<forall>j < k. t j = None)"
  using entries_below_split [of n t "[]" k e rest] set_entries_below [of k t] by fastforce

lemma paid_account: "\<exists>v'. paid x (Inr v) = Inr v' \<and>
    unwrap_or account_basic_default v' = apply_update (Data inc (LazyRecipient x)) (unwrap_or account_basic_default v)"
proof -
  have "unat x < 2 ^ LENGTH(256)" by (rule unsigned_less)
  then have "saturating_add 0 x = x" by (simp add: saturating_add_def)
  then show ?thesis by (cases v) (auto simp: account_basic_default_def word_gt_0)
qed

lemma forward_view:
  assumes "st_basic S a = Inr v0"
  shows "additive t i \<Longrightarrow> i \<le> n \<Longrightarrow> \<exists>v. basic_view (st_basic S a) t i = Inr v \<and> ((\<forall>j < i. t j = None) \<longrightarrow> v = v0) \<and>
    ((\<exists>j < i. t j \<noteq> None) \<longrightarrow> forward t i (initial_account S a (entries_below n t)) = unwrap_or account_basic_default v)"
proof (induction i)
  case 0
  then show ?case using assms
    by (auto simp: basic_view_def read_back_steps lazy_acc_init_def evaluated_def evaluate_balance_def split: option.splits)
next
  case (Suc i)
  let ?init = "initial_account S a (entries_below n t)"
  have ad: "additive t i" using additive_le [OF Suc.prems(1)] by simp
  from Suc.IH [OF ad] Suc.prems(2) obtain v where v: "basic_view (st_basic S a) t i = Inr v" "(\<forall>j < i. t j = None) \<longrightarrow> v = v0"
    "(\<exists>j < i. t j \<noteq> None) \<longrightarrow> forward t i ?init = unwrap_or account_basic_default v" by auto
  show ?case
  proof (cases "t i")
    case None
    with v views_none(1) [of t i "st_basic S a"] show ?thesis by (auto simp: forward_Suc less_Suc_eq)
  next
    case (Some e)
    with Suc.prems(1) consider (abs) inc b where "e = Data inc (ValBasic b)" | (lazy) inc x where "e = Data inc (LazyRecipient x)"
      unfolding additive_def by blast
    then show ?thesis
    proof cases
      case abs
      with Some views_data(1) [of t i inc b "st_basic S a"] show ?thesis by (auto simp: forward_Suc)
    next
      case lazy
      have base: "forward t i ?init = unwrap_or account_basic_default v"
      proof (cases "\<exists>j < i. t j \<noteq> None")
        case False
        have "(i, e) \<in> set (entries_below n t)" using Some Suc.prems(2) by (simp add: set_entries_below)
        then obtain k e' rest where h: "entries_below n t = (k, e') # rest" by (cases "entries_below n t") auto
        from first_entry [OF h] False Some have "k = i" by (metis linorder_neqE_nat option.discI)
        with first_entry [OF h] Some lazy have "e' = Data inc (LazyRecipient x)" by simp
        with h assms have "?init = unwrap_or account_basic_default v0" by (cases v0) (auto simp: initial_account_def)
        with False v(2) forward_absent [of i t ?init] show ?thesis by auto
      qed (use v(3) in blast)
      from paid_account [of x v inc] obtain v' where "paid x (Inr v) = Inr v'"
        "unwrap_or account_basic_default v' = apply_update (Data inc (LazyRecipient x)) (unwrap_or account_basic_default v)" by blast
      with basic_view_paid [of t i inc x "st_basic S a"] Some lazy ad v(1) base show ?thesis by (auto simp: forward_Suc)
    qed
  qed
qed

text \<open>Balance and nonce of an account in the state transitions of a transaction and in a flat state; an absent account has neither.\<close>

definition funds :: "(address \<times> 'jt evm_account option) list \<Rightarrow> address \<Rightarrow> u256 \<times> u64" where
  "funds st a = (case map_of st a of Some (Some acc) \<Rightarrow> (acc_balance acc, acc_nonce acc) | _ \<Rightarrow> (0, 0))"

definition flat_funds :: "flat \<Rightarrow> address \<Rightarrow> u256 \<times> u64" where
  "flat_funds F a = (case f_basic F a of Inr (Some b) \<Rightarrow> (ab_balance b, ab_nonce b) | _ \<Rightarrow> (0, 0))"

section \<open>The sequential executor on the flat specification\<close>

text \<open>
  What the EVM package promises of its own transactions and commits, over a database that stands in a relation to a flat state: a transaction
  has the outcome it has on the flat state, its changes are the same except at the accounts that are rewarded, whose balances and nonces are those
  after the reward, and committing them leads to the flat state after the transaction, rewards included.
\<close>

definition follows_flat ::
  "('bc, 'jt) revm_api \<Rightarrow> 'jt storage_api \<Rightarrow> (b256 \<rightharpoonup> 'bc) \<Rightarrow> ('bc, 'au, 'tx, 'lg) vm_env \<Rightarrow> ('tx \<Rightarrow> 'lg exec_result \<Rightarrow> (address \<times> u256) list) \<Rightarrow>
   ('s, 'tx, 'bc, 'lg) sequential_evm \<Rightarrow> ('s \<Rightarrow> flat \<Rightarrow> bool) \<Rightarrow> 'tx list \<Rightarrow> bool" where
  "follows_flat P S code_of E pay V rel txs \<longleftrightarrow>
     (\<forall>s F tx r state. tx \<in> set txs \<longrightarrow> rel s F \<longrightarrow> run_flat P S code_of F (ve_evm E tx) = Some (Inr (r, state)) \<longrightarrow>
        (\<exists>state' st'. se_transact V s tx = Inr (r, state') \<and> state_transitions_from_revm P (ve_eip161 E) state' = Some st' \<and>
           (\<forall>st a. state_transitions_from_revm P (ve_eip161 E) state = Some st \<longrightarrow> a \<notin> fst ` set (pay tx r) \<longrightarrow> map_of st' a = map_of st a) \<and>
           (\<forall>a \<in> fst ` set (pay tx r). funds st' a = flat_funds (flat_pay (pay tx r) (flat_commit P (ve_eip161 E) state F)) a) \<and>
           rel (se_commit V s state') (flat_pay (pay tx r) (flat_commit P (ve_eip161 E) state F))))"

lemma flat_block_prefix:
  "flat_block P S code_of E pay txs n = Some (rs, F) \<Longrightarrow> k \<le> n \<Longrightarrow> length rs = n \<and> (\<exists>Fk. flat_block P S code_of E pay txs k = Some (take k rs, Fk))"
proof (induction n arbitrary: rs F k)
  case (Suc n)
  from Suc.prems(1) obtain rs' F' r where rs': "flat_block P S code_of E pay txs n = Some (rs', F')" "rs = rs' @ [r]"
    by (auto split: option.splits sum.splits prod.splits)
  show ?case
  proof (cases "k = Suc n")
    case True
    with Suc.IH [OF rs'(1), of n] Suc.prems(1) rs'(2) show ?thesis by simp
  next
    case False
    with Suc.IH [OF rs'(1), of k] Suc.prems(2) rs'(2) show ?thesis by simp
  qed
qed simp

lemma flat_block_step:
  assumes "flat_block P S code_of E pay txs n = Some (rs, F)" "k < n"
  obtains Fk r state where "flat_block P S code_of E pay txs k = Some (take k rs, Fk)"
    "run_flat P S code_of Fk (ve_evm E (txs ! k)) = Some (Inr (r, state))"
    "state_transitions_from_revm P (ve_eip161 E) state = Some (tr_state (rs ! k))" "tr_receipt (rs ! k) = receipt_from_revm r"
    "flat_block P S code_of E pay txs (Suc k) = Some (take (Suc k) rs, flat_pay (pay (txs ! k) r) (flat_commit P (ve_eip161 E) state Fk))"
proof -
  from flat_block_prefix [OF assms(1), of k] flat_block_prefix [OF assms(1), of "Suc k"] assms(2) obtain Fk F1 where
    k: "flat_block P S code_of E pay txs k = Some (take k rs, Fk)" and k1: "flat_block P S code_of E pay txs (Suc k) = Some (take (Suc k) rs, F1)"
    and len: "length rs = n" by auto
  from k k1 obtain r state st where x: "run_flat P S code_of Fk (ve_evm E (txs ! k)) = Some (Inr (r, state))"
    "state_transitions_from_revm P (ve_eip161 E) state = Some st"
    "take (Suc k) rs = take k rs @ [\<lparr>tr_receipt = receipt_from_revm r, tr_state = st\<rparr>]"
    "F1 = flat_pay (pay (txs ! k) r) (flat_commit P (ve_eip161 E) state Fk)"
    by (auto split: option.splits sum.splits prod.splits)
  have "rs ! k = \<lparr>tr_receipt = receipt_from_revm r, tr_state = st\<rparr>"
    using x(3) len assms(2) by (simp add: take_Suc_conv_app_nth)
  with that [OF k x(1)] x(2,4) k1 show thesis by simp
qed

lemma add_gas_receipt: "tr_receipt r = tr_receipt r' \<Longrightarrow> tr_receipt (add_gas g r) = tr_receipt (add_gas g r')"
  by (simp add: add_gas_def)

lemma sequential_follows:
  assumes fol: "follows_flat P S code_of E pay V rel txs" and blk: "flat_block P S code_of E pay txs (length txs) = Some (rs, F)"
    and rew: "\<And>tx r. fst ` set (pay tx r) \<subseteq> rewarded" "\<And>tx r. payee \<in> fst ` set (pay tx r)"
  shows "k \<le> length txs \<Longrightarrow> flat_block P S code_of E pay txs k = Some (take k rs, Fk) \<Longrightarrow> rel s Fk \<Longrightarrow>
    \<exists>qs. sequential_loop P V (ve_eip161 E) s g (drop k txs) = Some (Inr qs) \<and> map tr_receipt qs = map tr_receipt (running_gas g (drop k rs)) \<and>
      (\<forall>j < length txs - k. \<forall>a. a \<notin> rewarded \<longrightarrow> map_of (tr_state (qs ! j)) a = map_of (tr_state (rs ! (k + j))) a) \<and>
      (\<forall>j < length txs - k. \<forall>ps F'. flat_block P S code_of E pay txs (Suc (k + j)) = Some (ps, F') \<longrightarrow> funds (tr_state (qs ! j)) payee = flat_funds F' payee)"
proof (induction "length txs - k" arbitrary: k Fk s g)
  case 0
  with flat_block_prefix [OF blk, of k] show ?case by simp
next
  case (Suc m)
  then have k: "k < length txs" by simp
  have len: "length rs = length txs" using flat_block_prefix [OF blk order_refl] by simp
  from flat_block_step [OF blk k] Suc.prems(2) obtain r state where
    run: "run_flat P S code_of Fk (ve_evm E (txs ! k)) = Some (Inr (r, state))"
    and st: "state_transitions_from_revm P (ve_eip161 E) state = Some (tr_state (rs ! k))" and rc: "tr_receipt (rs ! k) = receipt_from_revm r"
    and next_block: "flat_block P S code_of E pay txs (Suc k) = Some (take (Suc k) rs, flat_pay (pay (txs ! k) r) (flat_commit P (ve_eip161 E) state Fk))"
    by (metis option.inject prod.inject)
  from fol nth_mem [OF k] Suc.prems(3) run st obtain state' st' where tr: "se_transact V s (txs ! k) = Inr (r, state')"
    "state_transitions_from_revm P (ve_eip161 E) state' = Some st'" "\<forall>a. a \<notin> fst ` set (pay (txs ! k) r) \<longrightarrow> map_of st' a = map_of (tr_state (rs ! k)) a"
    "rel (se_commit V s state') (flat_pay (pay (txs ! k) r) (flat_commit P (ve_eip161 E) state Fk))"
    "\<forall>a \<in> fst ` set (pay (txs ! k) r). funds st' a = flat_funds (flat_pay (pay (txs ! k) r) (flat_commit P (ve_eip161 E) state Fk)) a"
    unfolding follows_flat_def by metis
  let ?q = "add_gas g \<lparr>tr_receipt = receipt_from_revm r, tr_state = st'\<rparr>"
  have q: "tr_receipt ?q = tr_receipt (add_gas g (rs ! k))" by (rule add_gas_receipt) (simp add: rc)
  have "m = length txs - Suc k" using Suc.hyps(2) by simp
  from Suc.hyps(1) [OF this _ next_block tr(4), of "gas_of ?q"] k obtain qs where
    qs: "sequential_loop P V (ve_eip161 E) (se_commit V s state') (gas_of ?q) (drop (Suc k) txs) = Some (Inr qs)"
      "map tr_receipt qs = map tr_receipt (running_gas (gas_of ?q) (drop (Suc k) rs))"
      "\<forall>j < length txs - Suc k. \<forall>a. a \<notin> rewarded \<longrightarrow> map_of (tr_state (qs ! j)) a = map_of (tr_state (rs ! (Suc k + j))) a"
      "\<forall>j < length txs - Suc k. \<forall>ps F'. flat_block P S code_of E pay txs (Suc (Suc k + j)) = Some (ps, F') \<longrightarrow>
         funds (tr_state (qs ! j)) payee = flat_funds F' payee" by auto
  have "sequential_loop P V (ve_eip161 E) s g (drop k txs) = Some (Inr (?q # qs))"
    using qs(1) tr(1,2) Cons_nth_drop_Suc [OF k] by (simp add: Let_def flip: Cons_nth_drop_Suc [OF k])
  moreover have "map tr_receipt (?q # qs) = map tr_receipt (running_gas g (drop k rs))"
    using qs(2) q k len by (simp flip: Cons_nth_drop_Suc)
  moreover have "map_of (tr_state ((?q # qs) ! j)) a = map_of (tr_state (rs ! (k + j))) a" if "j < length txs - k" "a \<notin> rewarded" for j a
  proof -
    have "a \<notin> fst ` set (pay (txs ! k) r)" using rew(1) that(2) by blast
    with qs(3) tr(3) that show ?thesis by (cases j) auto
  qed
  moreover have "funds (tr_state ((?q # qs) ! j)) payee = flat_funds F' payee"
    if "j < length txs - k" "flat_block P S code_of E pay txs (Suc (k + j)) = Some (ps, F')" for j ps F'
    using qs(4) bspec [OF tr(5) rew(2)] that next_block by (cases j) (auto simp del: flat_block.simps)
  ultimately show ?case by blast
qed

section \<open>The result of a parallel block\<close>

lemma updated_funds: "map_of st a = Some (updated_account eip161 ch code b old) \<Longrightarrow> funds st a = (ab_balance b, ab_nonce b)"
  by (auto simp: funds_def updated_account_def split: option.splits)

lemma finish_parallel_effect:
  assumes "finish_parallel P S blob_gas V s eip161 tx_env txs (None, filled, mv) = Some (Inr out)" "mv_wf n mv"
  shows "map tr_receipt out = map tr_receipt (running_gas 0 (map (\<lambda>i. the (filled ! i)) [0..<length txs]))"
    and "i < length txs \<Longrightarrow> a \<notin> set (lazy_addresses mv) \<Longrightarrow> map_of (tr_state (out ! i)) a = map_of (tr_state (the (filled ! i))) a"
    and "i < length txs \<Longrightarrow> a \<in> set (lazy_addresses mv) \<Longrightarrow> entry_at mv (hash_deterministic P (LocBasic a)) i \<noteq> None \<Longrightarrow>
      funds (tr_state (out ! i)) a = (let b = account_after_tx P S mv (length txs) a i in (ab_balance b, ab_nonce b))"
proof -
  let ?rs = "map (\<lambda>i. the (filled ! i)) [0..<length txs]"
  from assms(1) obtain results rest' where c: "collect_results (length txs) 0 0 filled = Some (results, rest')"
    and ev: "evaluate_lazy P S blob_gas (map tx_env txs) eip161 mv (lazy_addresses mv) results = Some (Inr out)"
    by (auto simp: finish_parallel_def consume_lazy_addresses_def split: option.splits prod.splits)
  have results: "results = running_gas 0 ?rs" using collect_results_running [OF c] by simp
  note e = evaluate_lazy_effect [OF ev _ mv_wfD(6) [OF assms(2)]]
  have len: "length out = length txs" using e results by simp
  show "map tr_receipt out = map tr_receipt (running_gas 0 ?rs)"
    using e results len by (intro nth_equalityI) auto
  show "map_of (tr_state (out ! i)) a = map_of (tr_state (the (filled ! i))) a" if "i < length txs" "a \<notin> set (lazy_addresses mv)"
    using e results that running_gas_state [of i ?rs 0] by simp
  show "funds (tr_state (out ! i)) a = (let b = account_after_tx P S mv (length txs) a i in (ab_balance b, ab_nonce b))"
    if "i < length txs" "a \<in> set (lazy_addresses mv)" "entry_at mv (hash_deterministic P (LocBasic a)) i \<noteq> None"
  proof -
    have "i \<in> fst ` set (lazy_history P mv (length txs) a)" using that(1,3) by (force simp: lazy_history_def set_entries_below)
    with e results that have "map_of (tr_state (out ! i)) a = Some (updated_account eip161 (fst (stored_code S a)) (snd (stored_code S a))
        (account_after_tx P S mv (length txs) a i) (unwrap_or None (map_of (tr_state (results ! i)) a)))" by simp
    then show ?thesis unfolding Let_def by (rule updated_funds)
  qed
qed

context reward_chain
begin

lemma joined_run_equals_sequential:
  assumes run: "executor_reaches P S E txs (build (ve_beneficiary E) txs) k c" "\<forall>w. pcs (workers c) w = Exited" "aborted_for c = None"
    and rew: "ve_rewards E = rewards" and codes: "new_bytecodes (build (ve_beneficiary E) txs) = Map.empty"
    and con: "consistent_code P S E txs code_of" and inj: "inj_on (hash_deterministic P) (block_locs E txs rewarded c)"
    and lazy: "\<forall>i < length txs. 0 < i \<and> i \<in> needing c \<or> te_caller (ve_tx_env E (txs ! i)) \<notin> set (lazy_addresses (memory c))"
    and pay: "\<And>tx db r. db_tx db = ve_tx_env E tx \<Longrightarrow> rewards_of P E db tx r = rewards_at P (pay tx r)" "\<And>tx r. fst ` set (pay tx r) \<subseteq> rewarded"
    and payee: "\<And>tx r. payee \<in> fst ` set (pay tx r)" "payee \<in> set (lazy_addresses (build (ve_beneficiary E) txs))" "st_basic S payee = Inr v0"
    and reg: "flat_regular P S code_of E pay txs" and fol: "follows_flat P S code_of E pay V rel txs" "rel s (flat_of S)"
    and fin: "finish_parallel P S blob_gas V s (ve_eip161 E) (ve_tx_env E) txs (aborted_for c, results c, memory c) = Some (Inr out)"
  shows "\<exists>qs. execute_revm_sequential P V (ve_eip161 E) s txs = Some (Inr qs) \<and> map tr_receipt out = map tr_receipt qs \<and>
    (\<forall>i < length txs. \<forall>a. a \<notin> rewarded \<union> set (lazy_addresses (memory c)) \<longrightarrow> map_of (tr_state (out ! i)) a = map_of (tr_state (qs ! i)) a) \<and>
    (\<forall>i < length txs. funds (tr_state (out ! i)) payee = funds (tr_state (qs ! i)) payee)"
proof -
  let ?rs = "map (\<lambda>i. the (results c ! i)) [0..<length txs]"
  have upto: "\<exists>F. flat_block P S code_of E pay txs m = Some (map (\<lambda>i. the (results c ! i)) [0..<m], F) \<and>
    shows_flat P S (block_locs E txs rewarded c) (memory c) m F \<and> additive_below P (block_locs E txs rewarded c) (memory c) m \<and>
    (\<forall>j < m. pays_entries P S code_of E pay txs (memory c) j)" if "m \<le> length txs" for m
    by (rule joined_run_flat_upto [OF run rew codes con inj lazy _ _ reg that]) (use pay in blast)+
  from upto [OF order_refl] obtain F where F: "flat_block P S code_of E pay txs (length txs) = Some (?rs, F)" by blast
  from sequential_follows [OF fol(1) F pay(2) payee(1), of 0 "flat_of S" s 0] fol(2) obtain qs where
    qs: "sequential_loop P V (ve_eip161 E) s 0 txs = Some (Inr qs)" "map tr_receipt qs = map tr_receipt (running_gas 0 ?rs)"
      "\<forall>j < length txs. \<forall>a. a \<notin> rewarded \<longrightarrow> map_of (tr_state (qs ! j)) a = map_of (tr_state (?rs ! j)) a"
      "\<forall>j < length txs. \<forall>ps F'. flat_block P S code_of E pay txs (Suc j) = Some (ps, F') \<longrightarrow> funds (tr_state (qs ! j)) payee = flat_funds F' payee" by auto
  have "mv_wf (length txs) (memory c)"
    using joined_run_traced(1) [OF run codes con] by (simp add: inv_trace_def inv_revalidation_def inv_memory_def)
  note out = finish_parallel_effect [OF fin [unfolded run(3)] this]
  have "block_run P S E txs (build (ve_beneficiary E) txs) (touched c) (finished c) (memory c)"
    using executor_invariant(1) [OF run(1)] by (simp add: inv_history_def)
  from run_lazy_addresses [OF this] payee(2) have la: "payee \<in> set (lazy_addresses (memory c))" by blast
  have "funds (tr_state (out ! i)) payee = funds (tr_state (qs ! i)) payee" if i: "i < length txs" for i
  proof -
    let ?t = "table_entry (mv_data (memory c)) (hash_deterministic P (LocBasic payee))" and ?L = "block_locs E txs rewarded c"
    from upto [of "Suc i"] i obtain F' where F': "flat_block P S code_of E pay txs (Suc i) = Some (map (\<lambda>i. the (results c ! i)) [0..<Suc i], F')"
      "shows_flat P S ?L (memory c) (Suc i) F'" "additive_below P ?L (memory c) (Suc i)" "pays_entries P S code_of E pay txs (memory c) i" by auto
    from payee(1) pay(2) have L: "LocBasic payee \<in> ?L" unfolding block_locs_def by blast
    from flat_block_step [OF F'(1), of i] F'(4) payee(1) have ent: "?t i \<noteq> None" unfolding pays_entries_def by (metis lessI)
    from F'(3) L have "additive ?t (Suc i)" by (simp add: additive_below_def)
    from forward_view [OF payee(3) this, of "length txs"] i ent obtain v where v: "basic_view (st_basic S payee) ?t (Suc i) = Inr v"
      "forward ?t (Suc i) (initial_account S payee (entries_below (length txs) ?t)) = unwrap_or account_basic_default v" by auto
    have "f_basic F' payee = Inr v" using F'(2) L v(1) by (simp add: shows_flat_def)
    then have "flat_funds F' payee = (let b = account_after_tx P S (memory c) (length txs) payee i in (ab_balance b, ab_nonce b))"
      using v(2) by (cases v) (simp_all add: flat_funds_def account_after_tx_def lazy_history_def account_basic_default_def)
    with out(3) [OF i la ent] qs(4) i F'(1) show ?thesis by metis
  qed
  then show ?thesis using qs(1-3) out(1,2) by (intro exI [of _ qs]) (auto simp: execute_revm_sequential_def)
qed

end


section \<open>The sample block\<close>

text \<open>A sequential EVM whose database is a flat state: it runs a transaction, appends the rewarded beneficiary to its changes and commits both.\<close>

definition flat_paid :: "flat \<Rightarrow> sample_code evm_state \<Rightarrow> account_basic" where
  "flat_paid F state =
     (case f_basic (flat_pay [(99, 100)] (flat_commit sample_api True state F)) 99 of Inr (Some b) \<Rightarrow> b | _ \<Rightarrow> account_basic_default)"

definition flat_evm :: "(flat, nat, sample_code, unit) sequential_evm" where
  "flat_evm =
     \<lparr>se_transact = (\<lambda>F tx.
        case run_flat sample_api sample_storage Map.empty F (sample_evm tx) of
          Some (Inr (r, state)) \<Rightarrow>
            Inr (r, state @ [(99, \<lparr>ra_info = \<lparr>ai_balance = ab_balance (flat_paid F state), ai_nonce = ab_nonce (flat_paid F state),
              ai_code_hash = 77, ai_code = None\<rparr>, ra_storage = [], ra_touched = True, ra_selfdestructed = False\<rparr>)])
        | _ \<Rightarrow> Inl ''failed''),
      se_commit = (\<lambda>F state. flat_pay [(99, 100)] (flat_commit sample_api True (butlast state) F))\<rparr>"

definition flat_sample :: "flat \<Rightarrow> flat \<Rightarrow> bool" where
  "flat_sample s F \<longleftrightarrow> s = F \<and> (\<exists>v. f_basic F 99 = Inr v) \<and> f_code_hash F 10 = Inr None \<and> f_code_hash F 11 = Inr None"

lemma state_transitions_append:
  "state_transitions_from_revm P eip161 (xs @ ys) =
     (case state_transitions_from_revm P eip161 xs of None \<Rightarrow> None | Some st \<Rightarrow> map_option ((@) st) (state_transitions_from_revm P eip161 ys))"
  by (cases "state_transitions_from_revm P eip161 ys"; induction xs) (auto split: option.splits if_splits)

lemma plain_transition: "ai_code_hash (ra_info acc) = 77 \<Longrightarrow> \<exists>t. transition_from sample_api eip161 acc = Some t"
  by (simp add: transition_from_def evm_account_from_def sample_api_def Let_def)

lemma plain_funds:
  "transition_from sample_api True acc = Some u \<Longrightarrow> ai_code_hash (ra_info acc) = 77 \<Longrightarrow> \<not> ra_selfdestructed acc \<Longrightarrow> map_of st a = Some u \<Longrightarrow>
   funds st a = (ai_balance (ra_info acc), ai_nonce (ra_info acc))"
  by (auto simp: funds_def transition_from_def evm_account_from_def sample_api_def Let_def split: if_splits)

lemma flat_paid_funds:
  "flat_funds (flat_pay [(99, 100)] (flat_commit sample_api True state F)) 99 = (ab_balance (flat_paid F state), ab_nonce (flat_paid F state))"
  by (simp add: flat_funds_def flat_paid_def account_basic_default_def split: sum.splits option.splits)

lemma flat_evm_follows: "follows_flat sample_api sample_storage Map.empty eth_env (eth_pay eth_env) flat_evm flat_sample [0, 1]"
  unfolding follows_flat_def
proof (intro allI impI)
  fix s F tx r state
  assume tx: "tx \<in> set [0 :: nat, 1]" and rel: "flat_sample s F"
    and run: "run_flat sample_api sample_storage Map.empty F (ve_evm eth_env tx) = Some (Inr (r, state))"
  have env: "ve_evm eth_env tx = sample_evm tx" "ve_eip161 eth_env" by (simp_all add: eth_env_def sample_env_def)
  from run obtain info v where x: "flat_info sample_api Map.empty F (te_caller (sample_tx tx)) = Inr info" 
    "state = sample_state (te_caller (sample_tx tx)) info v" "r = \<lparr>er_success = True, er_gas_used = 100, er_logs = []\<rparr>"
    by (auto simp: env sample_evm_def split: sum.splits)
  have pay: "eth_pay eth_env tx r = [(99, 100)]"
    by (simp add: x(3) eth_pay_def eth_env_def sample_env_def sample_tx_def effective_gas_price_def saturating_mul_def)
  let ?a = "te_caller (sample_tx tx)" and ?F = "flat_commit sample_api True state F"
  have caller: "?a = 10 \<or> ?a = 11" using tx by (auto simp: sample_tx_def)
  have ch: "f_code_hash F ?a = Inr None" using caller rel by (auto simp: flat_sample_def)
  with x(1) have "\<forall>i. info = Some i \<longrightarrow> ai_code_hash i = 77"
    by (auto simp: flat_info_def sample_api_def split: sum.splits option.splits)
  then obtain t where st: "state_transitions_from_revm sample_api True state = Some [(?a, t)]"
    using plain_transition [of "snd (hd state)" True] by (cases info) (auto simp: x(2) sample_state_def)
  have keep: "f_basic ?F 99 = f_basic F 99" "f_code_hash ?F 10 = Inr None" "f_code_hash ?F 11 = Inr None"
    using caller rel \<open>\<forall>i. info = Some i \<longrightarrow> ai_code_hash i = 77\<close>
    by (auto simp: flat_commit_def x(2) sample_state_def flat_sample_def sample_api_def split: option.splits)
  let ?acc = "\<lparr>ra_info = \<lparr>ai_balance = ab_balance (flat_paid F state), ai_nonce = ab_nonce (flat_paid F state),
    ai_code_hash = 77, ai_code = None\<rparr>, ra_storage = [], ra_touched = True, ra_selfdestructed = False\<rparr> :: sample_code revm_account"
  obtain u where u: "transition_from sample_api True ?acc = Some u"
    using plain_transition [of ?acc True] by auto
  have tr: "se_transact flat_evm s tx = Inr (r, state @ [(99, ?acc)])" using run rel by (simp add: flat_evm_def env flat_sample_def)
  have st': "state_transitions_from_revm sample_api True (state @ [(99, ?acc)]) = Some [(?a, t), (99, u)]"
    using st u by (simp add: state_transitions_append)
  have "funds [(?a, t), (99, u)] 99 = flat_funds (flat_pay [(99, 100)] ?F) 99"
    using plain_funds [OF u, of "[(?a, t), (99, u)]" 99] caller flat_paid_funds by auto
  moreover have "flat_sample (se_commit flat_evm s (state @ [(99, ?acc)])) (flat_pay [(99, 100)] ?F)"
  proof -
    from rel keep(1) obtain v where "f_basic ?F 99 = Inr v" by (auto simp: flat_sample_def)
    then have "\<exists>v'. f_basic (flat_pay [(99, 100)] ?F) 99 = Inr v'" by (cases v) auto
    then show ?thesis using rel keep(2,3) by (simp add: flat_sample_def flat_evm_def)
  qed
  ultimately show "\<exists>state' st'. se_transact flat_evm s tx = Inr (r, state') \<and> state_transitions_from_revm sample_api (ve_eip161 eth_env) state' = Some st' \<and>
     (\<forall>st a. state_transitions_from_revm sample_api (ve_eip161 eth_env) state = Some st \<longrightarrow> a \<notin> fst ` set (eth_pay eth_env tx r) \<longrightarrow> map_of st' a = map_of st a) \<and>
     (\<forall>a \<in> fst ` set (eth_pay eth_env tx r). funds st' a = flat_funds (flat_pay (eth_pay eth_env tx r) (flat_commit sample_api (ve_eip161 eth_env) state F)) a) \<and>
     flat_sample (se_commit flat_evm s state') (flat_pay (eth_pay eth_env tx r) (flat_commit sample_api (ve_eip161 eth_env) state F))"
    using tr st' st env(2) unfolding pay by (intro exI [of _ "state @ [(99, ?acc)]"] exI [of _ "[(?a, t), (99, u)]"]) simp
qed

lemma pair_evaluated:
  "\<exists>out. finish_parallel sample_api sample_storage (\<lambda>_. 0) V s True (ve_tx_env eth_env) [0, 1] (None, [Some r0, Some r1], sample_mv2) = Some (Inr out)"
proof -
  have ev: "\<exists>out. evaluate_lazy sample_api sample_storage (\<lambda>_. 0) [sample_tx 0, sample_tx 1] True sample_mv2 [99] [x, y] = Some (Inr out)" for x y
    by (simp add: sample_mv2_history evaluate_address_def sample_hash_99 entries_below_two initial_account_def sample_storage_def in_memory_api_def
        in_memory_new_def im_basic_def im_code_hash_def check_nonce_def sample_tx_def Let_def)
  obtain x y rest where "collect_results 2 0 0 [Some r0, Some r1] = Some ([x, y], rest)" by (auto simp: numeral_2_eq_2 Let_def take_slot_def)
  with ev [of x y] show ?thesis
    by (simp add: finish_parallel_def consume_lazy_addresses_def eth_env_def sample_env_def sample_mv2_history numeral_2_eq_2)
qed


end
