(* ===== verification/Rpc_Storage.thy ===== *)
theory Rpc_Storage
  imports Storage "HOL-Library.AList" Chain
begin

text \<open>
  The RPC storage of \<^verbatim>\<open>storage/rpc.rs\<close>: a storage that asks a node for the state of a block, retries failed
  requests and keeps what it learnt in three caches, which can be taken out as a snapshot for the in-memory
  storage. The node is a parameter: \<open>rpc_provider\<close> gives, for each request, the reply to each of its
  attempts. Every query takes the node as it behaves during that query, so two queries may meet different
  behaviour. A result \<open>None\<close> is a panic (an \<^verbatim>\<open>unwrap\<close> without value).
\<close>

section \<open>Requests\<close>

type_synonym 'a replies = "nat \<Rightarrow> string + 'a"

text \<open>
  The loop of \<^verbatim>\<open>fetch\<close> from attempt \<open>k\<close>: the reply it returns and the pauses in milliseconds.
\<close>

fun fetch_loop :: "'a replies \<Rightarrow> nat \<Rightarrow> nat \<Rightarrow> nat \<Rightarrow> (string + 'a) \<times> nat list" where
  "fetch_loop request lives delay k =
     (let result = request k
      in if lives > 0 \<and> isl result
         then (case fetch_loop request (lives - 1) (delay * 2) (k + 1) of (r, pauses) \<Rightarrow> (r, delay # pauses))
         else (result, []))"

declare fetch_loop.simps [simp del]

definition fetch_with_pauses :: "'a replies \<Rightarrow> (string + 'a) \<times> nat list" where
  "fetch_with_pauses request = fetch_loop request 8 125 0"

definition rpc_fetch :: "'a replies \<Rightarrow> string + 'a" where
  "rpc_fetch request = fst (fetch_with_pauses request)"

text \<open>The requests the storage makes; \<open>'b\<close> is the type of block identifiers.\<close>

record 'b rpc_provider =
  get_transaction_count :: "'b \<Rightarrow> address \<Rightarrow> u64 replies"
  get_balance :: "'b \<Rightarrow> address \<Rightarrow> u256 replies"
  get_code_at :: "'b \<Rightarrow> address \<Rightarrow> u8 list replies"
  get_proof_storage_hash :: "'b \<Rightarrow> address \<Rightarrow> b256 replies"
  get_storage_at :: "'b \<Rightarrow> address \<Rightarrow> u256 \<Rightarrow> u256 replies"
  get_block_hash_by_number :: "u64 \<Rightarrow> b256 option replies"

section \<open>The storage\<close>

type_synonym 'jt chain_state = "address \<rightharpoonup> 'jt evm_account"

record ('b, 'jt) rpc_storage =
  rs_block_id :: 'b
  rs_precompiles :: "address list"
  cache_accounts :: "'jt chain_state"
  cache_bytecodes :: "b256 \<rightharpoonup> 'jt evm_code"
  cache_block_hashes :: "u64 \<rightharpoonup> b256"

text \<open>The addresses of the precompiled contracts of a specification come from the EVM package.\<close>

definition rpc_new :: "(spec_id \<Rightarrow> address list) \<Rightarrow> spec_id \<Rightarrow> 'b \<Rightarrow> ('b, 'jt) rpc_storage" where
  "rpc_new precompiles spec_id block_id =
     \<lparr>rs_block_id = block_id, rs_precompiles = precompiles spec_id, cache_accounts = Map.empty,
      cache_bytecodes = Map.empty, cache_block_hashes = Map.empty\<rparr>"

definition into_snapshot ::
  "('b, 'jt) rpc_storage \<Rightarrow> 'jt chain_state \<times> (b256 \<rightharpoonup> 'jt evm_code) \<times> (u64 \<rightharpoonup> b256)" where
  "into_snapshot s = (cache_accounts s, cache_bytecodes s, cache_block_hashes s)"

text \<open>\<^verbatim>\<open>basic\<close>: the look into the cache, the three requests, and the update of the caches.\<close>

definition cached_basic :: "('b, 'jt) rpc_storage \<Rightarrow> address \<Rightarrow> account_basic option" where
  "cached_basic s a =
     map_option (\<lambda>account. \<lparr>ab_balance = acc_balance account, ab_nonce = acc_nonce account\<rparr>) (cache_accounts s a)"

definition fetch_account :: "'b rpc_provider \<Rightarrow> 'b \<Rightarrow> address \<Rightarrow> string + u64 \<times> u256 \<times> u8 list" where
  "fetch_account N b a =
     (case rpc_fetch (get_transaction_count N b a) of
        Inl e \<Rightarrow> Inl e
      | Inr nonce \<Rightarrow>
          (case rpc_fetch (get_balance N b a) of
             Inl e \<Rightarrow> Inl e
           | Inr balance \<Rightarrow>
               (case rpc_fetch (get_code_at N b a) of
                  Inl e \<Rightarrow> Inl e
                | Inr code \<Rightarrow> Inr (nonce, balance, code))))"

definition insert_bytecode ::
  "('bc, 'jt) revm_api \<Rightarrow> ('b, 'jt) rpc_storage \<Rightarrow> 'bc \<Rightarrow> (b256 option \<times> ('b, 'jt) rpc_storage) option" where
  "insert_bytecode P s code =
     (if bc_is_empty P code then Some (None, s)
      else map_option
        (\<lambda>c. (Some (bc_hash_slow P code), s\<lparr>cache_bytecodes := (cache_bytecodes s)(bc_hash_slow P code \<mapsto> c)\<rparr>))
        (evm_code_from P code))"

definition store_account ::
  "('bc, 'jt) revm_api \<Rightarrow> ('b, 'jt) rpc_storage \<Rightarrow> address \<Rightarrow> u64 \<times> u256 \<times> u8 list \<Rightarrow>
   account_basic option option \<times> ('b, 'jt) rpc_storage" where
  "store_account P s a = (\<lambda>(nonce, balance, code).
     if a \<notin> set (rs_precompiles s) \<and> balance = 0 \<and> nonce = 0 \<and> code = [] then (Some None, s)
     else (case insert_bytecode P s (bc_new_raw P code) of
             None \<Rightarrow> (None, s)
           | Some (code_hash, s1) \<Rightarrow>
               (Some (Some \<lparr>ab_balance = balance, ab_nonce = nonce\<rparr>),
                s1\<lparr>cache_accounts := (cache_accounts s1)(a \<mapsto>
                  \<lparr>acc_balance = balance, acc_nonce = nonce, acc_code_hash = code_hash, acc_code = None,
                   acc_storage = []\<rparr>)\<rparr>)))"

type_synonym ('b, 'jt, 'a) query = "('b, 'jt) rpc_storage \<Rightarrow> (string + 'a) option \<times> ('b, 'jt) rpc_storage"

definition rpc_basic ::
  "('bc, 'jt) revm_api \<Rightarrow> 'b rpc_provider \<Rightarrow> address \<Rightarrow> ('b, 'jt, account_basic option) query" where
  "rpc_basic P N a s =
     (case cached_basic s a of
        Some basic \<Rightarrow> (Some (Inr (Some basic)), s)
      | None \<Rightarrow>
          (case fetch_account N (rs_block_id s) a of
             Inl e \<Rightarrow> (Some (Inl e), s)
           | Inr account \<Rightarrow> apfst (map_option Inr) (store_account P s a account)))"

definition rpc_code_hash :: "('bc, 'jt) revm_api \<Rightarrow> 'b rpc_provider \<Rightarrow> address \<Rightarrow> ('b, 'jt, b256 option) query" where
  "rpc_code_hash P N a s =
     (case rpc_basic P N a s of
        (None, s1) \<Rightarrow> (None, s1)
      | (Some (Inl e), s1) \<Rightarrow> (Some (Inl e), s1)
      | (Some (Inr _), s1) \<Rightarrow> (Some (Inr (Option.bind (cache_accounts s1 a) acc_code_hash)), s1))"

definition rpc_code_by_hash :: "b256 \<Rightarrow> ('b, 'jt, 'jt evm_code option) query" where
  "rpc_code_by_hash h s = (Some (Inr (cache_bytecodes s h)), s)"

text \<open>The root hash of an empty trie is a constant of the consensus package.\<close>

definition rpc_has_storage :: "b256 \<Rightarrow> 'b rpc_provider \<Rightarrow> address \<Rightarrow> ('b, 'jt, bool) query" where
  "rpc_has_storage empty_root_hash N a s =
     (Some (map_sum id (\<lambda>storage_hash. storage_hash \<noteq> empty_root_hash)
              (rpc_fetch (get_proof_storage_hash N (rs_block_id s) a))), s)"

definition cached_slot :: "('b, 'jt) rpc_storage \<Rightarrow> address \<Rightarrow> u256 \<Rightarrow> u256 option" where
  "cached_slot s a i = Option.bind (cache_accounts s a) (\<lambda>account. map_of (acc_storage account) i)"

definition store_slot :: "('b, 'jt) rpc_storage \<Rightarrow> address \<Rightarrow> u256 \<Rightarrow> u256 \<Rightarrow> ('b, 'jt) rpc_storage" where
  "store_slot s a i v =
     (case cache_accounts s a of
        Some account \<Rightarrow>
          s\<lparr>cache_accounts := (cache_accounts s)(a \<mapsto> account\<lparr>acc_storage := AList.update i v (acc_storage account)\<rparr>)\<rparr>
      | None \<Rightarrow> s)"

definition rpc_storage_at ::
  "('bc, 'jt) revm_api \<Rightarrow> 'b rpc_provider \<Rightarrow> address \<Rightarrow> u256 \<Rightarrow> ('b, 'jt, u256) query" where
  "rpc_storage_at P N a i s =
     (case cached_slot s a i of
        Some v \<Rightarrow> (Some (Inr v), s)
      | None \<Rightarrow>
          (case rpc_fetch (get_storage_at N (rs_block_id s) a i) of
             Inl e \<Rightarrow> (Some (Inl e), s)
           | Inr v \<Rightarrow>
               (case rpc_basic P N a s of
                  (None, s1) \<Rightarrow> (None, s1)
                | (Some (Inl e), s1) \<Rightarrow> (Some (Inl e), s1)
                | (Some (Inr _), s1) \<Rightarrow> (Some (Inr v), store_slot s1 a i v))))"

definition store_block_hash :: "('b, 'jt) rpc_storage \<Rightarrow> u64 \<Rightarrow> b256 \<Rightarrow> ('b, 'jt) rpc_storage" where
  "store_block_hash s n h = s\<lparr>cache_block_hashes := (cache_block_hashes s)(n \<mapsto> h)\<rparr>"

definition rpc_block_hash :: "'b rpc_provider \<Rightarrow> u64 \<Rightarrow> ('b, 'jt, b256) query" where
  "rpc_block_hash N n s =
     (case cache_block_hashes s n of
        Some h \<Rightarrow> (Some (Inr h), s)
      | None \<Rightarrow>
          (case rpc_fetch (get_block_hash_by_number N n) of
             Inl e \<Rightarrow> (Some (Inl e), s)
           | Inr None \<Rightarrow> (None, s)
           | Inr (Some h) \<Rightarrow> (Some (Inr h), store_block_hash s n h)))"

section \<open>Retries\<close>

lemma fetch_loop_spec:
  "\<exists>m \<le> lives. fetch_loop r lives delay k = (r (k + m), map (\<lambda>j. delay * 2 ^ j) [0..<m]) \<and>
     (\<forall>j < m. isl (r (k + j))) \<and> (\<not> isl (r (k + m)) \<or> m = lives)"
proof (induction lives arbitrary: delay k)
  case 0
  then show ?case by (simp add: fetch_loop.simps)
next
  case (Suc lives)
  show ?case
  proof (cases "\<not> isl (r k)")
    case True
    then show ?thesis by (intro exI [of _ 0]) (simp add: fetch_loop.simps)
  next
    case False
    from Suc.IH [of "delay * 2" "k + 1"] obtain m where m: "m \<le> lives"
      "fetch_loop r lives (delay * 2) (k + 1) = (r (k + 1 + m), map (\<lambda>j. delay * 2 * 2 ^ j) [0..<m])"
      "\<forall>j < m. isl (r (k + 1 + j))" "\<not> isl (r (k + 1 + m)) \<or> m = lives" by blast
    have "map (\<lambda>j. delay * 2 ^ j) [0..<Suc m] = delay # map (\<lambda>j. delay * 2 * 2 ^ j) [0..<m]"
      by (simp add: upt_rec [of 0] map_Suc_upt [symmetric] mult.assoc del: upt_Suc)
    moreover have "isl (r (k + j))" if "j < Suc m" for j
      using that m(3) False by (cases j) auto
    ultimately show ?thesis using m False
      by (intro exI [of _ "Suc m"]) (simp add: fetch_loop.simps [of _ "Suc lives"] del: upt_Suc)
  qed
qed

text \<open>
  \<^verbatim>\<open>fetch\<close> sends a request at most nine times: it returns the first successful reply, or the ninth
  failure, after pauses of 125, 250, 500, ... milliseconds, no longer than 31875 milliseconds together.
\<close>

theorem fetch_retries:
  "\<exists>m \<le> 8. fetch_with_pauses r = (r m, map (\<lambda>j. 125 * 2 ^ j) [0..<m]) \<and>
     (\<forall>j < m. isl (r j)) \<and> (\<not> isl (r m) \<or> m = 8) \<and> sum_list (snd (fetch_with_pauses r)) \<le> 31875"
proof -
  from fetch_loop_spec [of 8 r 125 0] obtain m where m: "m \<le> 8"
    "fetch_with_pauses r = (r m, map (\<lambda>j. 125 * 2 ^ j) [0..<m])" "\<forall>j < m. isl (r j)" "\<not> isl (r m) \<or> m = 8"
    unfolding fetch_with_pauses_def by auto
  have "sum_list (map (\<lambda>j. 125 * 2 ^ j) [0..<n]) = 125 * (2 ^ n - 1 :: nat)" for n
    by (induction n) (simp_all add: diff_mult_distrib2)
  moreover have "(2 :: nat) ^ m \<le> 2 ^ 8" using m(1) by (intro power_increasing) simp_all
  ultimately show ?thesis using m by auto
qed

theorem fetch_retries_witness:
  "fetch_with_pauses (\<lambda>k. if k = 2 then Inr (7 :: nat) else Inl ''429'') = (Inr 7, [125, 250])"
proof -
  let ?r = "\<lambda>k :: nat. if k = 2 then Inr (7 :: nat) else Inl ''429''"
  from fetch_retries [of ?r] obtain m where m: "m \<le> 8" "fetch_with_pauses ?r = (?r m, map (\<lambda>j. 125 * 2 ^ j) [0..<m])"
    "\<forall>j < m. isl (?r j)" "\<not> isl (?r m) \<or> m = 8" by blast
  have "m \<le> 2" using m(3) by (rule_tac ccontr) (auto dest: spec [of _ 2])
  with m(4) have "m = 2" by (auto split: if_splits)
  with m(2) show ?thesis by (simp add: upt_rec)
qed

section \<open>The caches and the state of the block\<close>

text \<open>The state of the block the node answers for.\<close>

record world =
  w_nonce :: "address \<Rightarrow> u64"
  w_balance :: "address \<Rightarrow> u256"
  w_code :: "address \<Rightarrow> u8 list"
  w_storage_hash :: "address \<Rightarrow> b256"
  w_storage :: "address \<Rightarrow> u256 \<Rightarrow> u256"
  w_block :: "u64 \<Rightarrow> b256 option"

definition world_exists :: "address list \<Rightarrow> world \<Rightarrow> address \<Rightarrow> bool" where
  "world_exists pre W a \<longleftrightarrow> a \<in> set pre \<or> w_balance W a \<noteq> 0 \<or> w_nonce W a \<noteq> 0 \<or> w_code W a \<noteq> []"

definition world_basic :: "address list \<Rightarrow> world \<Rightarrow> address \<Rightarrow> account_basic option" where
  "world_basic pre W a =
     (if world_exists pre W a then Some \<lparr>ab_balance = w_balance W a, ab_nonce = w_nonce W a\<rparr> else None)"

abbreviation world_code :: "('bc, 'jt) revm_api \<Rightarrow> world \<Rightarrow> address \<Rightarrow> 'bc" where
  "world_code P W a \<equiv> bc_new_raw P (w_code W a)"

definition world_code_hash :: "('bc, 'jt) revm_api \<Rightarrow> address list \<Rightarrow> world \<Rightarrow> address \<Rightarrow> b256 option" where
  "world_code_hash P pre W a =
     (if world_exists pre W a \<and> \<not> bc_is_empty P (world_code P W a) then Some (bc_hash_slow P (world_code P W a)) else None)"

text \<open>A node that answers for \<open>W\<close>: any attempt may fail, but a reply is the truth; and one that
  answers each request within nine attempts.\<close>

definition replies_with :: "'a replies \<Rightarrow> 'a \<Rightarrow> bool" where
  "replies_with r v \<longleftrightarrow> (\<forall>k. r k = Inr v \<or> isl (r k))"

definition honest :: "'b rpc_provider \<Rightarrow> 'b \<Rightarrow> world \<Rightarrow> bool" where
  "honest N b W \<longleftrightarrow>
     (\<forall>a. replies_with (get_transaction_count N b a) (w_nonce W a) \<and> replies_with (get_balance N b a) (w_balance W a) \<and>
        replies_with (get_code_at N b a) (w_code W a) \<and> replies_with (get_proof_storage_hash N b a) (w_storage_hash W a) \<and>
        (\<forall>i. replies_with (get_storage_at N b a i) (w_storage W a i))) \<and>
     (\<forall>n. replies_with (get_block_hash_by_number N n) (w_block W n))"

definition answers :: "'a replies \<Rightarrow> bool" where
  "answers r \<longleftrightarrow> (\<exists>k \<le> 8. \<not> isl (r k))"

definition responsive :: "'b rpc_provider \<Rightarrow> 'b \<Rightarrow> bool" where
  "responsive N b \<longleftrightarrow>
     (\<forall>a. answers (get_transaction_count N b a) \<and> answers (get_balance N b a) \<and> answers (get_code_at N b a) \<and>
        answers (get_proof_storage_hash N b a) \<and> (\<forall>i. answers (get_storage_at N b a i))) \<and>
     (\<forall>n. answers (get_block_hash_by_number N n))"

lemma rpc_fetch_attempt:
  "\<exists>m \<le> 8. rpc_fetch r = r m \<and> (\<forall>j < m. isl (r j)) \<and> (\<not> isl (r m) \<or> m = 8)"
  using fetch_loop_spec [of 8 r 125 0] by (auto simp: rpc_fetch_def fetch_with_pauses_def)

lemma rpc_fetch_honest: "replies_with r v \<Longrightarrow> rpc_fetch r = Inr x \<Longrightarrow> x = v"
  using rpc_fetch_attempt [of r] by (metis replies_with_def isl_def sum.distinct(1) sum.inject(2))

lemma rpc_fetch_answers: "replies_with r v \<Longrightarrow> answers r \<Longrightarrow> rpc_fetch r = Inr v"
  using rpc_fetch_attempt [of r] unfolding answers_def replies_with_def
  by (metis le_neq_implies_less linorder_not_less)

lemma fetch_account_honest:
  "honest N b W \<Longrightarrow> fetch_account N b a = Inr x \<Longrightarrow> x = (w_nonce W a, w_balance W a, w_code W a)"
  by (auto simp: fetch_account_def honest_def split: sum.splits dest!: rpc_fetch_honest [rotated])

lemma honest_fetch:
  assumes "honest N b W" "responsive N b"
  shows "rpc_fetch (get_transaction_count N b a) = Inr (w_nonce W a)"
    "rpc_fetch (get_balance N b a) = Inr (w_balance W a)"
    "rpc_fetch (get_code_at N b a) = Inr (w_code W a)"
    "rpc_fetch (get_proof_storage_hash N b a) = Inr (w_storage_hash W a)"
    "rpc_fetch (get_storage_at N b a i) = Inr (w_storage W a i)"
    "rpc_fetch (get_block_hash_by_number N n) = Inr (w_block W n)"
  using assms by (auto simp: honest_def responsive_def intro: rpc_fetch_answers)

lemma fetch_account_answers:
  "honest N b W \<Longrightarrow> responsive N b \<Longrightarrow> fetch_account N b a = Inr (w_nonce W a, w_balance W a, w_code W a)"
  by (simp add: fetch_account_def honest_fetch)

text \<open>What the caches may hold: only what is true of the block, and the code of every account in them.\<close>

definition account_coherent :: "('bc, 'jt) revm_api \<Rightarrow> address list \<Rightarrow> world \<Rightarrow> address \<Rightarrow> 'jt evm_account \<Rightarrow> bool" where
  "account_coherent P pre W a acc \<longleftrightarrow> world_exists pre W a \<and> acc_balance acc = w_balance W a \<and> acc_nonce acc = w_nonce W a \<and>
     acc_code_hash acc = world_code_hash P pre W a \<and> acc_code acc = None \<and>
     (\<forall>i v. map_of (acc_storage acc) i = Some v \<longrightarrow> v = w_storage W a i)"

definition coherent :: "('bc, 'jt) revm_api \<Rightarrow> 'b \<Rightarrow> address list \<Rightarrow> world \<Rightarrow> ('b, 'jt) rpc_storage \<Rightarrow> bool" where
  "coherent P b pre W s \<longleftrightarrow> rs_block_id s = b \<and> rs_precompiles s = pre \<and>
     (\<forall>a acc. cache_accounts s a = Some acc \<longrightarrow> account_coherent P pre W a acc \<and>
        (\<forall>h. acc_code_hash acc = Some h \<longrightarrow> cache_bytecodes s h \<noteq> None)) \<and>
     (\<forall>h c. cache_bytecodes s h = Some c \<longrightarrow>
        (\<exists>a. world_code_hash P pre W a = Some h \<and> evm_code_from P (world_code P W a) = Some c)) \<and>
     (\<forall>n h. cache_block_hashes s n = Some h \<longrightarrow> w_block W n = Some h)"

lemma coherent_new: "coherent P b (precompiles spec) W (rpc_new precompiles spec b)"
  by (simp add: coherent_def rpc_new_def)

lemma insert_bytecode_some:
  assumes "coherent P b pre W s" "world_exists pre W a" "insert_bytecode P s (world_code P W a) = Some (ch, s1)"
  shows "coherent P b pre W s1" "ch = world_code_hash P pre W a" "\<forall>h. ch = Some h \<longrightarrow> cache_bytecodes s1 h \<noteq> None"
proof -
  have *: "coherent P b pre W (s\<lparr>cache_bytecodes := (cache_bytecodes s)(h \<mapsto> c)\<rparr>)"
    if "world_code_hash P pre W a = Some h" "evm_code_from P (world_code P W a) = Some c" for h c
    using assms(1) that by (auto simp: coherent_def)
  show "coherent P b pre W s1" "ch = world_code_hash P pre W a" "\<forall>h. ch = Some h \<longrightarrow> cache_bytecodes s1 h \<noteq> None"
    using assms * by (auto simp: insert_bytecode_def world_code_hash_def split: if_splits)
qed

lemma coherent_insert_account:
  assumes "coherent P b pre W s" "account_coherent P pre W a acc" "\<forall>h. acc_code_hash acc = Some h \<longrightarrow> cache_bytecodes s h \<noteq> None"
  shows "coherent P b pre W (s\<lparr>cache_accounts := (cache_accounts s)(a \<mapsto> acc)\<rparr>)"
  using assms unfolding coherent_def by simp

lemma coherent_store_account:
  assumes coh: "coherent P b pre W s"
  shows "coherent P b pre W (snd (store_account P s a (w_nonce W a, w_balance W a, w_code W a)))"
proof (cases "world_exists pre W a")
  case True
  show ?thesis
  proof (cases "insert_bytecode P s (world_code P W a)")
    case None
    with coh show ?thesis by (simp add: store_account_def)
  next
    case (Some r)
    obtain ch s1 where r: "r = (ch, s1)" by (cases r)
    note ib = insert_bytecode_some [OF coh True Some [unfolded r]]
    have "account_coherent P pre W a
        \<lparr>acc_balance = w_balance W a, acc_nonce = w_nonce W a, acc_code_hash = ch, acc_code = None, acc_storage = []\<rparr>"
      using True ib(2) by (simp add: account_coherent_def)
    from coherent_insert_account [OF ib(1) this] ib(3) Some r coh show ?thesis by (simp add: store_account_def)
  qed
next
  case False
  with coh show ?thesis by (simp add: store_account_def coherent_def world_exists_def)
qed

lemma coherentD:
  assumes "coherent P b pre W s"
  shows "rs_block_id s = b" "rs_precompiles s = pre"
    and "cache_accounts s a = Some acc \<Longrightarrow> account_coherent P pre W a acc"
    and "cache_accounts s a = Some acc \<Longrightarrow> acc_code_hash acc = Some h \<Longrightarrow> cache_bytecodes s h \<noteq> None"
    and "cache_bytecodes s h = Some c \<Longrightarrow> \<exists>a. world_code_hash P pre W a = Some h \<and> evm_code_from P (world_code P W a) = Some c"
    and "cache_block_hashes s n = Some h \<Longrightarrow> w_block W n = Some h"
  using assms unfolding coherent_def by blast+

lemma coherent_store_slot:
  assumes coh: "coherent P b pre W s"
  shows "coherent P b pre W (store_slot s a i (w_storage W a i))"
proof (cases "cache_accounts s a")
  case None
  with coh show ?thesis by (simp add: store_slot_def)
next
  case (Some acc)
  from coherentD(3) [OF coh Some]
  have "account_coherent P pre W a (acc\<lparr>acc_storage := AList.update i (w_storage W a i) (acc_storage acc)\<rparr>)"
    by (simp add: account_coherent_def update_conv)
  from coherent_insert_account [OF coh this] coherentD(4) [OF coh Some] Some show ?thesis by (simp add: store_slot_def)
qed

lemma coherent_store_block_hash:
  "coherent P b pre W s \<Longrightarrow> w_block W n = Some h \<Longrightarrow> coherent P b pre W (store_block_hash s n h)"
  by (simp add: coherent_def store_block_hash_def)

text \<open>
  Several threads query one storage. The states they reach: each thread updates the caches with what the
  node told it, at any time, whatever it saw in the caches when its query began.
\<close>

inductive rpc_reachable ::
  "('bc, 'jt) revm_api \<Rightarrow> 'b \<Rightarrow> address list \<Rightarrow> world \<Rightarrow> ('b, 'jt) rpc_storage \<Rightarrow> bool"
  for P :: "('bc, 'jt) revm_api" and b :: 'b and pre :: "address list" and W :: world where
  new: "precompiles spec = pre \<Longrightarrow> rpc_reachable P b pre W (rpc_new precompiles spec b)"
| account: "rpc_reachable P b pre W s \<Longrightarrow>
    rpc_reachable P b pre W (snd (store_account P s a (w_nonce W a, w_balance W a, w_code W a)))"
| slot: "rpc_reachable P b pre W s \<Longrightarrow> rpc_reachable P b pre W (store_slot s a i (w_storage W a i))"
| block: "rpc_reachable P b pre W s \<Longrightarrow> w_block W n = Some h \<Longrightarrow> rpc_reachable P b pre W (store_block_hash s n h)"

lemma reachable_coherent: "rpc_reachable P b pre W s \<Longrightarrow> coherent P b pre W s"
  by (induction rule: rpc_reachable.induct)
    (use coherent_new in \<open>auto intro: coherent_store_account coherent_store_slot coherent_store_block_hash\<close>)

lemma rpc_basic_cases:
  assumes "rs_block_id s = b" "honest N b W"
  obtains (cached) acc where "cache_accounts s a = Some acc"
      "rpc_basic P N a s = (Some (Inr (Some \<lparr>ab_balance = acc_balance acc, ab_nonce = acc_nonce acc\<rparr>)), s)"
  | (failed) e where "rpc_basic P N a s = (Some (Inl e), s)" "\<not> responsive N b"
  | (fetched) "cache_accounts s a = None" "rpc_basic P N a s =
      apfst (map_option Inr) (store_account P s a (w_nonce W a, w_balance W a, w_code W a))"
proof (cases "cache_accounts s a")
  case None
  then have nc: "cached_basic s a = None" by (simp add: cached_basic_def)
  show thesis
  proof (cases "fetch_account N b a")
    case (Inl e)
    with fetch_account_answers [OF assms(2), of a] have "\<not> responsive N b" by auto
    with failed [of e] Inl nc assms(1) show thesis by (simp add: rpc_basic_def)
  next
    case (Inr x)
    with fetch_account_honest [OF assms(2) Inr] fetched None nc assms(1) show thesis by (simp add: rpc_basic_def)
  qed
next
  case (Some acc)
  with cached show thesis by (simp add: rpc_basic_def cached_basic_def)
qed

lemma rpc_basic_reachable:
  assumes s: "rpc_reachable P b pre W s" and N: "honest N b W"
  shows "rpc_reachable P b pre W (snd (rpc_basic P N a s))"
proof -
  have b: "rs_block_id s = b" using coherentD(1) [OF reachable_coherent [OF s]] .
  show ?thesis by (rule rpc_basic_cases [OF b N, of a P]) (use s rpc_reachable.account [OF s] in \<open>auto\<close>)
qed

text \<open>Conversion of a bytecode never panics under the laws of the EVM package.\<close>

lemma evm_code_total: "bytecode_laws P \<Longrightarrow> \<exists>e. evm_code_from P c = Some e"
  by (cases "bc_kind P c") (auto simp: bytecode_laws_def evm_code_from_def)

lemma store_account_result:
  assumes "bytecode_laws P" "rs_precompiles s = pre"
  shows "fst (store_account P s a (w_nonce W a, w_balance W a, w_code W a)) = Some (world_basic pre W a)"
    and "world_exists pre W a \<Longrightarrow>
      \<exists>acc. cache_accounts (snd (store_account P s a (w_nonce W a, w_balance W a, w_code W a))) a = Some acc \<and> acc_storage acc = []"
    and "\<not> world_exists pre W a \<Longrightarrow> snd (store_account P s a (w_nonce W a, w_balance W a, w_code W a)) = s"
proof -
  obtain e where "evm_code_from P (world_code P W a) = Some e"
    using evm_code_total [OF assms(1)] by blast
  then show "fst (store_account P s a (w_nonce W a, w_balance W a, w_code W a)) = Some (world_basic pre W a)"
    and "world_exists pre W a \<Longrightarrow>
      \<exists>acc. cache_accounts (snd (store_account P s a (w_nonce W a, w_balance W a, w_code W a))) a = Some acc \<and> acc_storage acc = []"
    and "\<not> world_exists pre W a \<Longrightarrow> snd (store_account P s a (w_nonce W a, w_balance W a, w_code W a)) = s"
    using assms(2) by (auto simp: store_account_def insert_bytecode_def world_basic_def world_exists_def)
qed

section \<open>Queries answer for the block\<close>

lemma coherent_basic: "account_coherent P pre W a acc \<Longrightarrow> Some \<lparr>ab_balance = acc_balance acc, ab_nonce = acc_nonce acc\<rparr> = world_basic pre W a"
  by (simp add: account_coherent_def world_basic_def)

lemma coherent_hash: "coherent P b pre W s \<Longrightarrow> cache_accounts s a = Some acc \<Longrightarrow> acc_code_hash acc = world_code_hash P pre W a"
  by (drule (1) coherentD(3)) (simp add: account_coherent_def)

lemma coherent_bind_hash:
  assumes "coherent P b pre W s" "world_exists pre W a \<longrightarrow> cache_accounts s a \<noteq> None"
  shows "Option.bind (cache_accounts s a) acc_code_hash = world_code_hash P pre W a"
proof (cases "cache_accounts s a")
  case None
  with assms(2) show ?thesis by (auto simp: world_code_hash_def)
next
  case (Some acc)
  with coherent_hash [OF assms(1) Some] show ?thesis by simp
qed

text \<open>What a query about an account returns, and that the account is in the cache afterwards.\<close>

lemma rpc_basic_result:
  assumes coh: "coherent P b pre W s" and N: "honest N b W" and P: "bytecode_laws P"
    and r: "rpc_basic P N a s = (r, s1)"
  shows "r = Some (Inr (world_basic pre W a)) \<and> (world_exists pre W a \<longrightarrow> cache_accounts s1 a \<noteq> None) \<or>
    (\<exists>e. r = Some (Inl e)) \<and> s1 = s \<and> \<not> responsive N b"
proof (rule rpc_basic_cases [OF coherentD(1) [OF coh] N, of a P])
  fix acc
  assume "cache_accounts s a = Some acc"
    "rpc_basic P N a s = (Some (Inr (Some \<lparr>ab_balance = acc_balance acc, ab_nonce = acc_nonce acc\<rparr>)), s)"
  with r coherent_basic [OF coherentD(3) [OF coh]] show ?thesis by auto
next
  fix e
  assume "rpc_basic P N a s = (Some (Inl e), s)" "\<not> responsive N b"
  with r show ?thesis by auto
next
  assume "rpc_basic P N a s = apfst (map_option Inr) (store_account P s a (w_nonce W a, w_balance W a, w_code W a))"
  with r store_account_result [OF P coherentD(2) [OF coh], where W = W and a = a] show ?thesis
    by (cases "store_account P s a (w_nonce W a, w_balance W a, w_code W a)") auto
qed

lemma rpc_code_hash_result:
  assumes s: "rpc_reachable P b pre W s" and N: "honest N b W" and P: "bytecode_laws P"
    and r: "rpc_code_hash P N a s = (r, s1)"
  shows "s1 = snd (rpc_basic P N a s)"
    "r = Some (Inr (world_code_hash P pre W a)) \<and> (world_exists pre W a \<longrightarrow> cache_accounts s1 a \<noteq> None) \<or>
     (\<exists>e. r = Some (Inl e)) \<and> s1 = s \<and> \<not> responsive N b"
proof -
  obtain x where x: "rpc_basic P N a s = (x, snd (rpc_basic P N a s))" by (cases "rpc_basic P N a s") simp
  note coh = reachable_coherent [OF rpc_basic_reachable [OF s N, of a]]
  from rpc_basic_result [OF reachable_coherent [OF s] N P x] r x coh
  show "s1 = snd (rpc_basic P N a s)"
    "r = Some (Inr (world_code_hash P pre W a)) \<and> (world_exists pre W a \<longrightarrow> cache_accounts s1 a \<noteq> None) \<or>
     (\<exists>e. r = Some (Inl e)) \<and> s1 = s \<and> \<not> responsive N b"
    by (auto simp: rpc_code_hash_def coherent_bind_hash split: prod.splits intro: coherent_hash)
qed

lemma cached_slot_coherent:
  assumes "coherent P b pre W s" "cached_slot s a i = Some v" shows "v = w_storage W a i"
  using assms(2) coherentD(3) [OF assms(1)] by (auto simp: cached_slot_def account_coherent_def split: bind_splits)

lemma store_slot_cached: "cache_accounts s a = Some acc \<Longrightarrow> cached_slot (store_slot s a i v) a i = Some v"
  by (auto simp: cached_slot_def store_slot_def update_conv)

lemma rpc_storage_result:
  assumes s: "rpc_reachable P b pre W s" and N: "honest N b W" and P: "bytecode_laws P"
    and r: "rpc_storage_at P N a i s = (r, s1)"
  shows "rpc_reachable P b pre W s1"
    "r = Some (Inr (w_storage W a i)) \<and> (world_exists pre W a \<longrightarrow> cached_slot s1 a i \<noteq> None) \<or>
     (\<exists>e. r = Some (Inl e)) \<and> s1 = s \<and> \<not> responsive N b"
proof -
  note coh = reachable_coherent [OF s]
  obtain x where x: "rpc_basic P N a s = (x, snd (rpc_basic P N a s))" by (cases "rpc_basic P N a s") simp
  have "rpc_reachable P b pre W s1 \<and> (r = Some (Inr (w_storage W a i)) \<and> (world_exists pre W a \<longrightarrow> cached_slot s1 a i \<noteq> None) \<or>
     (\<exists>e. r = Some (Inl e)) \<and> s1 = s \<and> \<not> responsive N b)"
  proof (cases "cached_slot s a i")
    case (Some v)
    with r s cached_slot_coherent [OF coh Some] show ?thesis by (auto simp: rpc_storage_at_def)
  next
    case None
    show ?thesis
    proof (cases "rpc_fetch (get_storage_at N b a i)")
      case (Inl e)
      with None r s honest_fetch(5) [OF N, of a i] coherentD(1) [OF coh] show ?thesis by (auto simp: rpc_storage_at_def)
    next
      case (Inr v)
      with N have "v = w_storage W a i" by (auto simp: honest_def dest: rpc_fetch_honest)
      with None Inr r s rpc_basic_result [OF coh N P x] x coherentD(1) [OF coh] rpc_basic_reachable [OF s N, of a]
        rpc_reachable.slot [OF rpc_basic_reachable [OF s N, of a], of a i]
      show ?thesis by (auto simp: rpc_storage_at_def store_slot_cached split: prod.splits)
    qed
  qed
  then show "rpc_reachable P b pre W s1"
    "r = Some (Inr (w_storage W a i)) \<and> (world_exists pre W a \<longrightarrow> cached_slot s1 a i \<noteq> None) \<or>
     (\<exists>e. r = Some (Inl e)) \<and> s1 = s \<and> \<not> responsive N b" by blast+
qed

lemma rpc_block_hash_result:
  assumes s: "rpc_reachable P b pre W s" and N: "honest N b W"
    and r: "rpc_block_hash N n s = (r, s1)" and known: "w_block W n = Some h"
  shows "rpc_reachable P b pre W s1"
    "r = Some (Inr h) \<and> cache_block_hashes s1 n = Some h \<or> (\<exists>e. r = Some (Inl e)) \<and> s1 = s \<and> \<not> responsive N b"
proof -
  note coh = reachable_coherent [OF s]
  have honest_hash: "x = Some h" if "rpc_fetch (get_block_hash_by_number N n) = Inr x" for x
    using N that known by (auto simp: honest_def dest: rpc_fetch_honest)
  show "rpc_reachable P b pre W s1"
    "r = Some (Inr h) \<and> cache_block_hashes s1 n = Some h \<or> (\<exists>e. r = Some (Inl e)) \<and> s1 = s \<and> \<not> responsive N b"
    using r s coherentD(6) [OF coh, of n] known honest_hash honest_fetch(6) [OF N, of n] rpc_reachable.block [OF s known]
    by (auto simp: rpc_block_hash_def store_block_hash_def split: option.splits sum.splits)
qed

text \<open>Different codes of the block have different hashes.\<close>

definition no_collision :: "('bc, 'jt) revm_api \<Rightarrow> address list \<Rightarrow> world \<Rightarrow> bool" where
  "no_collision P pre W \<longleftrightarrow>
     (\<forall>a a' h. world_code_hash P pre W a = Some h \<longrightarrow> world_code_hash P pre W a' = Some h \<longrightarrow> world_code P W a = world_code P W a')"

lemma coherent_code_unique:
  assumes "coherent P b pre W s" "coherent P b pre W s'" "no_collision P pre W" "cache_bytecodes s h = Some c" "cache_bytecodes s' h = Some c'"
  shows "c = c'"
proof -
  from coherentD(5) [OF assms(1,4)] obtain a where a: "world_code_hash P pre W a = Some h" "evm_code_from P (world_code P W a) = Some c" by blast
  from coherentD(5) [OF assms(2,5)] obtain a' where a': "world_code_hash P pre W a' = Some h" "evm_code_from P (world_code P W a') = Some c'" by blast
  from assms(3) a(1) a'(1) have "world_code P W a = world_code P W a'" unfolding no_collision_def by blast
  with a(2) a'(2) show ?thesis by simp
qed

lemma cached_code:
  assumes "coherent P b pre W s" "no_collision P pre W" "cache_accounts s a \<noteq> None" "world_code_hash P pre W a = Some h"
  shows "cache_bytecodes s h = evm_code_from P (world_code P W a) \<and> cache_bytecodes s h \<noteq> None"
proof -
  from assms(3) obtain acc where "cache_accounts s a = Some acc" by auto
  then obtain c where c: "cache_bytecodes s h = Some c"
    using coherentD(4) [OF assms(1), of a acc h] coherent_hash [OF assms(1), of a acc] assms(4) by auto
  from coherentD(5) [OF assms(1) c] obtain a' where "world_code_hash P pre W a' = Some h" "evm_code_from P (world_code P W a') = Some c" by blast
  moreover from this(1) assms(2,4) have "world_code P W a' = world_code P W a" unfolding no_collision_def by blast
  ultimately show ?thesis using c by simp
qed


section \<open>Snapshots\<close>

text \<open>Nothing that is cached is lost by one query after another.\<close>

definition cache_le :: "('b, 'jt) rpc_storage \<Rightarrow> ('b, 'jt) rpc_storage \<Rightarrow> bool" where
  "cache_le s s' \<longleftrightarrow> dom (cache_accounts s) \<subseteq> dom (cache_accounts s') \<and> dom (cache_bytecodes s) \<subseteq> dom (cache_bytecodes s') \<and>
     dom (cache_block_hashes s) \<subseteq> dom (cache_block_hashes s') \<and> (\<forall>a. dom (cached_slot s a) \<subseteq> dom (cached_slot s' a))"

lemma cache_le_slot: "cache_le s s' \<Longrightarrow> cached_slot s a i \<noteq> None \<Longrightarrow> cached_slot s' a i \<noteq> None"
  unfolding cache_le_def by (simp only: domIff [symmetric] not_not) (metis domIff subsetD)

lemma cache_le_refl [simp]: "cache_le s s"
  by (simp add: cache_le_def)

lemma cache_le_trans: "cache_le s s1 \<Longrightarrow> cache_le s1 s2 \<Longrightarrow> cache_le s s2"
  unfolding cache_le_def by (meson subset_trans)

lemma cache_le_store_account:
  "cache_accounts s a = None \<Longrightarrow> cache_le s (snd (store_account P s a x))"
  by (auto simp: store_account_def insert_bytecode_def cache_le_def cached_slot_def split: prod.splits option.splits if_splits bind_splits)

lemma cache_le_store_slot: "cache_le s (store_slot s a i v)"
  by (auto simp: store_slot_def cache_le_def cached_slot_def update_conv split: option.splits bind_splits)

lemma cache_le_store_block_hash: "cache_le s (store_block_hash s n h)"
  by (auto simp: store_block_hash_def cache_le_def cached_slot_def)

lemma cache_le_basic: "cache_le s (snd (rpc_basic P N a s))"
  using cache_le_store_account [of s a P]
  by (auto simp: rpc_basic_def cached_basic_def split: option.splits sum.splits)

lemma cache_le_storage: "cache_le s (snd (rpc_storage_at P N a i s))"
  using cache_le_basic [of s P N a] cache_le_trans [OF _ cache_le_store_slot]
  by (force simp: rpc_storage_at_def split: option.splits sum.splits prod.splits)

lemma cache_le_block_hash: "cache_le s (snd (rpc_block_hash N n s))"
  using cache_le_store_block_hash by (auto simp: rpc_block_hash_def split: option.splits sum.splits)

text \<open>One query after another, to nodes that answer for the block.\<close>

inductive rpc_later ::
  "('bc, 'jt) revm_api \<Rightarrow> 'b \<Rightarrow> world \<Rightarrow> ('b, 'jt) rpc_storage \<Rightarrow> ('b, 'jt) rpc_storage \<Rightarrow> bool"
  for P :: "('bc, 'jt) revm_api" and b :: 'b and W :: world and s :: "('b, 'jt) rpc_storage" where
  now: "rpc_later P b W s s"
| basic: "rpc_later P b W s s1 \<Longrightarrow> honest N b W \<Longrightarrow> rpc_later P b W s (snd (rpc_basic P N a s1))"
| code_hash: "rpc_later P b W s s1 \<Longrightarrow> honest N b W \<Longrightarrow> rpc_later P b W s (snd (rpc_code_hash P N a s1))"
| code_by_hash: "rpc_later P b W s s1 \<Longrightarrow> rpc_later P b W s (snd (rpc_code_by_hash h s1))"
| has_storage: "rpc_later P b W s s1 \<Longrightarrow> honest N b W \<Longrightarrow> rpc_later P b W s (snd (rpc_has_storage root N a s1))"
| storage: "rpc_later P b W s s1 \<Longrightarrow> honest N b W \<Longrightarrow> rpc_later P b W s (snd (rpc_storage_at P N a i s1))"
| block_hash: "rpc_later P b W s s1 \<Longrightarrow> honest N b W \<Longrightarrow> rpc_later P b W s (snd (rpc_block_hash N n s1))"

lemma rpc_code_hash_state: "snd (rpc_code_hash P N a s) = snd (rpc_basic P N a s)"
  by (auto simp: rpc_code_hash_def split: prod.splits option.splits sum.splits)

lemma rpc_block_hash_reachable:
  "rpc_reachable P b pre W s \<Longrightarrow> honest N b W \<Longrightarrow> rpc_reachable P b pre W (snd (rpc_block_hash N n s))"
  using rpc_fetch_honest [of "get_block_hash_by_number N n" "w_block W n"]
  by (auto simp: rpc_block_hash_def honest_def split: option.splits sum.splits intro!: rpc_reachable.block)

lemma later_grows:
  assumes "rpc_later P b W s s'" "rpc_reachable P b pre W s" "bytecode_laws P"
  shows "rpc_reachable P b pre W s' \<and> cache_le s s'"
  using assms
proof (induction rule: rpc_later.induct)
  case (basic s1 N a)
  then show ?case using rpc_basic_reachable [of P b pre W s1 N a] cache_le_trans [OF _ cache_le_basic] by auto
next
  case (code_hash s1 N a)
  then show ?case using rpc_basic_reachable [of P b pre W s1 N a] cache_le_trans [OF _ cache_le_basic]
    unfolding rpc_code_hash_state by auto
next
  case (storage s1 N a i)
  then show ?case using rpc_storage_result(1) [OF _ _ _ surjective_pairing, of P b pre W s1 N a i] cache_le_trans [OF _ cache_le_storage] by auto
next
  case (block_hash s1 N n)
  then show ?case using rpc_block_hash_reachable [of P b pre W s1 N n] cache_le_trans [OF _ cache_le_block_hash] by auto
qed (simp_all add: rpc_code_by_hash_def rpc_has_storage_def)

definition snapshot :: "('b, 'jt) rpc_storage \<Rightarrow> 'jt in_memory_storage" where
  "snapshot s = (case into_snapshot s of (accounts, bytecodes, block_hashes) \<Rightarrow> in_memory_new accounts bytecodes block_hashes)"

lemma snapshot_sel [simp]:
  "im_accounts (snapshot s) = cache_accounts s" "im_bytecodes (snapshot s) = cache_bytecodes s"
  "im_block_hashes (snapshot s) = cache_block_hashes s"
  by (simp_all add: snapshot_def into_snapshot_def in_memory_new_def)

lemma im_storage_snapshot: "im_storage (snapshot s) a i = Inr (case cached_slot s a i of Some v \<Rightarrow> v | None \<Rightarrow> 0)"
  by (simp add: im_storage_def cached_slot_def)

lemma snapshot_basic:
  assumes "coherent P b pre W s" "world_exists pre W a \<longrightarrow> cache_accounts s a \<noteq> None"
  shows "im_basic (snapshot s) a = Inr (world_basic pre W a)"
proof (cases "cache_accounts s a")
  case None
  with assms(2) show ?thesis by (simp add: im_basic_def world_basic_def)
next
  case (Some acc)
  with coherent_basic [OF coherentD(3) [OF assms(1) Some]] show ?thesis by (simp add: im_basic_def)
qed

lemma snapshot_storage:
  assumes "coherent P b pre W s" "world_exists pre W a \<longrightarrow> cached_slot s a i \<noteq> None"
    and "\<not> world_exists pre W a \<longrightarrow> w_storage W a i = 0"
  shows "im_storage (snapshot s) a i = Inr (w_storage W a i)"
  using assms(2,3) cached_slot_coherent [OF assms(1), of a i] unfolding im_storage_snapshot
  by (cases "cached_slot s a i") auto


text \<open>
  C40: Two threads can lose a slot from the snapshot. One thread asks for an account that it did not find in the cache; while its
  requests are under way another one reads a slot of that account, which caches the account and the slot; then the first thread
  puts its fresh account over the cached one. The slot is gone: the in-memory storage of the snapshot answers zero.
\<close>

theorem racing_query_drops_slots:
  assumes "rpc_reachable P b pre W s" "honest N b W" "honest N' b W" "bytecode_laws P" "world_exists pre W a"
    and "fetch_account N b a = Inr account" "rpc_storage_at P N' a i s = (Some (Inr v), s1)"
  shows "im_storage (snapshot s1) a i = Inr v \<and> im_storage (snapshot (snd (store_account P s1 a account))) a i = Inr 0"
proof
  note res = rpc_storage_result [OF assms(1,3,4,7)]
  note coh = reachable_coherent [OF res(1)]
  from res(2) assms(5) snapshot_storage [OF coh, of a i] show "im_storage (snapshot s1) a i = Inr v" by auto
  from fetch_account_honest [OF assms(2,6)] store_account_result(2) [OF assms(4) coherentD(2) [OF coh] assms(5)]
  show "im_storage (snapshot (snd (store_account P s1 a account))) a i = Inr 0"
    by (auto simp: im_storage_snapshot cached_slot_def)
qed

text \<open>
  A snapshot answers \<^verbatim>\<open>has_storage\<close> from the slots that happen to be cached: as soon as any slot of an existing
  account has been read it answers yes, also when the account has no storage and the RPC storage answers no.
\<close>

lemma snapshot_has_storage:
  assumes "rpc_reachable P b pre W s" "honest N b W" "responsive N b" "bytecode_laws P" "world_exists pre W a"
    and "rpc_storage_at P N a i s = (Some (Inr v), s1)"
  shows "im_has_storage (snapshot s1) a = Inr True \<and> fst (rpc_has_storage root N a s1) = Some (Inr (w_storage_hash W a \<noteq> root))"
proof
  note res = rpc_storage_result [OF assms(1,2,4,6)]
  show "im_has_storage (snapshot s1) a = Inr True"
    using res(2) assms(5) by (auto simp: im_has_storage_def cached_slot_def split: option.splits bind_splits)
  show "fst (rpc_has_storage root N a s1) = Some (Inr (w_storage_hash W a \<noteq> root))"
    using coherentD(1) [OF reachable_coherent [OF res(1)]] by (simp add: rpc_has_storage_def honest_fetch(4) [OF assms(2,3)])
qed

section \<open>A sample node\<close>

text \<open>Account 10 has a balance, code and one slot, account 12 only a balance; every first request is refused.\<close>

definition sample_world :: world where
  "sample_world =
     \<lparr>w_nonce = (\<lambda>_. 0), w_balance = (\<lambda>a. if a = 10 then 100 else if a = 12 then 3 else 0), w_code = (\<lambda>a. if a = 10 then [96] else []),
      w_storage_hash = (\<lambda>a. if a = 10 then 3 else 1), w_storage = (\<lambda>a i. if a = 10 \<and> i = 1 then 5 else 0),
      w_block = (\<lambda>n. if n = 7 then Some 70 else None)\<rparr>"

definition second_time :: "'a \<Rightarrow> 'a replies" where
  "second_time v k = (if k = 0 then Inl ''429'' else Inr v)"

definition sample_node :: "nat rpc_provider" where
  "sample_node =
     \<lparr>get_transaction_count = (\<lambda>_ a. second_time (w_nonce sample_world a)), get_balance = (\<lambda>_ a. second_time (w_balance sample_world a)),
      get_code_at = (\<lambda>_ a. second_time (w_code sample_world a)), get_proof_storage_hash = (\<lambda>_ a. second_time (w_storage_hash sample_world a)),
      get_storage_at = (\<lambda>_ a i. second_time (w_storage sample_world a i)), get_block_hash_by_number = (\<lambda>n. second_time (w_block sample_world n))\<rparr>"

definition sample_rpc :: "(nat, bool list) rpc_storage" where
  "sample_rpc = rpc_new (\<lambda>_. [1, 2]) CANCUN 17"

lemma sample_node_ok: "honest sample_node 17 sample_world" "responsive sample_node 17"
  by (auto simp: honest_def responsive_def replies_with_def answers_def sample_node_def second_time_def intro!: exI [of _ 1])

lemma sample_rpc_reachable: "rpc_reachable sample_api 17 [1, 2] sample_world sample_rpc"
  unfolding sample_rpc_def by (rule rpc_reachable.new) simp

lemma sample_no_collision: "no_collision sample_api [1, 2] sample_world"
  by (auto simp: no_collision_def world_code_hash_def sample_api_def sample_world_def split: if_splits)

lemma sample_exists: "world_exists [1, 2] sample_world 10" "world_exists [1, 2] sample_world 12"
  by (simp_all add: world_exists_def sample_world_def)


lemma sample_slot_query:
  "\<exists>s1. rpc_storage_at sample_api sample_node a i sample_rpc = (Some (Inr (w_storage sample_world a i)), s1)"
  using rpc_storage_result(2) [OF sample_rpc_reachable sample_node_ok(1) sample_api_laws surjective_pairing, of a i] sample_node_ok(2)
  by (intro exI prod_eqI) auto

lemma sample_slots: "w_storage sample_world 10 1 = 5" "w_storage sample_world 12 0 = 0" "w_storage_hash sample_world 12 = 1"
  by (simp_all add: sample_world_def)


theorem racing_query_drops_slots_witness:
  "\<exists>s1 account. rpc_storage_at sample_api sample_node 10 1 sample_rpc = (Some (Inr 5), s1) \<and>
     fetch_account sample_node 17 10 = Inr account \<and> im_storage (snapshot (snd (store_account sample_api s1 10 account))) 10 1 = Inr 0"
proof -
  obtain s1 where q: "rpc_storage_at sample_api sample_node 10 1 sample_rpc = (Some (Inr 5), s1)"
    using sample_slot_query [of 10 1, unfolded sample_slots] by blast
  note account = fetch_account_answers [OF sample_node_ok, of 10]
  from racing_query_drops_slots [OF sample_rpc_reachable sample_node_ok(1) sample_node_ok(1) sample_api_laws sample_exists(1) account q] q account
  show ?thesis by blast
qed

lemma snapshot_has_storage_witness:
  "\<exists>s1. rpc_storage_at sample_api sample_node 12 0 sample_rpc = (Some (Inr 0), s1) \<and> im_has_storage (snapshot s1) 12 = Inr True \<and>
     fst (rpc_has_storage 1 sample_node 12 s1) = Some (Inr False)"
proof -
  obtain s1 where q: "rpc_storage_at sample_api sample_node 12 0 sample_rpc = (Some (Inr 0), s1)"
    using sample_slot_query [of 12 0, unfolded sample_slots] by blast
  from snapshot_has_storage [OF sample_rpc_reachable sample_node_ok sample_api_laws sample_exists(2) q, of 1] q
  show ?thesis by (simp add: sample_slots)
qed

end
