(* ===== verification/Fetch.thy ===== *)
theory Fetch
  imports Block Rpc_Storage
begin

text \<open>
  The tool \<^verbatim>\<open>bins/fetch\<close>: fetch a block, execute it over an RPC storage and write the block, the state it read, the code and the
  block hashes to disk. The files are a map from paths to contents, which every outcome of a run returns.
\<close>

section \<open>Files\<close>

type_synonym path = string
type_synonym files = "path \<rightharpoonup> u8 list"

text \<open>
  The file system: the error of creating a directory or a file, whether a file can be opened, and what reaches a file of the bytes
  written to it, with the error if the write fails. Creating a file truncates it.
\<close>

record io_api =
  io_create_dir_all :: "path \<Rightarrow> string option"
  io_open :: "path \<Rightarrow> bool"
  io_create :: "path \<Rightarrow> string option"
  io_write :: "path \<Rightarrow> u8 list \<Rightarrow> u8 list \<times> string option"

definition open_file :: "io_api \<Rightarrow> files \<Rightarrow> path \<Rightarrow> u8 list option" where
  "open_file IO fs p = (if io_open IO p then fs p else None)"

text \<open>The errors of a run, one for each \<^verbatim>\<open>context\<close> of the code, with the error it wraps.\<close>

datatype fetch_error =
    BlockRequestFailed string | NoBlockFound | BlockSpecFailed u64 string | BlockExecutionFailed pevm_error
  | BlockDirNotCreated string | BlockFileNotCreated string | BlockNotWritten string
  | BytecodesNotDecoded string | CodeHashMissing string | BytecodesFileNotCreated string | BytecodesNotWritten string
  | StateFileNotCreated string | StateNotWritten string
  | HashesNotDecoded string | HashesFileNotCreated string | HashesNotWritten string

text \<open>Create a file and write to it, and read a file that may be absent.\<close>

definition save :: "io_api \<Rightarrow> (string \<Rightarrow> fetch_error) \<Rightarrow> (string \<Rightarrow> fetch_error) \<Rightarrow> path \<Rightarrow> u8 list \<Rightarrow> files \<Rightarrow> fetch_error option \<times> files" where
  "save IO not_created not_written p bytes fs =
     (case io_create IO p of
        Some e \<Rightarrow> (Some (not_created e), fs)
      | None \<Rightarrow> (case io_write IO p bytes of (reached, err) \<Rightarrow> (map_option not_written err, fs(p \<mapsto> reached))))"

definition load :: "io_api \<Rightarrow> (string \<Rightarrow> fetch_error) \<Rightarrow> (u8 list \<Rightarrow> string + ('k \<rightharpoonup> 'v)) \<Rightarrow> path \<Rightarrow> files \<Rightarrow> fetch_error + ('k \<rightharpoonup> 'v)" where
  "load IO not_decoded decode p fs =
     (case open_file IO fs p of Some bytes \<Rightarrow> map_sum not_decoded id (decode bytes) | None \<Rightarrow> Inr Map.empty)"

section \<open>Paths\<close>

definition block_dir :: "path \<Rightarrow> u64 \<Rightarrow> path" where
  "block_dir data_dir n = data_dir @ ''/blocks/'' @ decimal (unat n)"

definition block_path :: "path \<Rightarrow> u64 \<Rightarrow> path" where
  "block_path data_dir n = block_dir data_dir n @ ''/block.json''"

definition state_path :: "path \<Rightarrow> u64 \<Rightarrow> path" where
  "state_path data_dir n = block_dir data_dir n @ ''/pre_state.json''"

definition bytecodes_path :: "path \<Rightarrow> path" where
  "bytecodes_path data_dir = data_dir @ ''/bytecodes.bincode.gz''"

definition hashes_path :: "path \<Rightarrow> path" where
  "hashes_path data_dir = data_dir @ ''/block_hashes.bincode''"

section \<open>A run\<close>

record 'tx fetched_block =
  fb_header :: header
  fb_transactions :: "'tx block_transactions"

text \<open>The serialisers: JSON for the block and the state, bincode (compressed for the code) for the rest.\<close>

record ('tx, 'jt) codecs =
  encode_block :: "'tx fetched_block \<Rightarrow> u8 list"
  encode_state :: "'jt chain_state \<Rightarrow> u8 list"
  encode_bytecodes :: "(b256 \<rightharpoonup> 'jt evm_code) \<Rightarrow> u8 list"
  decode_bytecodes :: "u8 list \<Rightarrow> string + (b256 \<rightharpoonup> 'jt evm_code)"
  encode_hashes :: "(u64 \<rightharpoonup> b256) \<Rightarrow> u8 list"
  decode_hashes :: "u8 list \<Rightarrow> string + (u64 \<rightharpoonup> b256)"

text \<open>
  The accounts of a snapshot: bytecodes are added to the ones of earlier blocks, also
  those kept in the accounts, which then are written without. An account with code but without a code
  hash is an error, a code under the hash of empty code a panic (\<open>None\<close>).
\<close>

fun merge_accounts ::
  "('bc, 'jt) revm_api \<Rightarrow> (address \<times> 'jt evm_account) list \<Rightarrow> (b256 \<rightharpoonup> 'jt evm_code) \<Rightarrow> 'jt chain_state \<Rightarrow>
   (string + (b256 \<rightharpoonup> 'jt evm_code) \<times> 'jt chain_state) option" where
  "merge_accounts P [] bytecodes state = Some (Inr (bytecodes, state))"
| "merge_accounts P ((a, account) # rest) bytecodes state =
     (case acc_code account of
        None \<Rightarrow> merge_accounts P rest bytecodes (state(a \<mapsto> account))
      | Some code \<Rightarrow>
          (case acc_code_hash account of
             None \<Rightarrow> Some (Inl ''Failed to get code hash'')
           | Some code_hash \<Rightarrow>
               if code_hash = keccak_empty P then None
               else merge_accounts P rest (bytecodes(code_hash \<mapsto> code)) (state(a \<mapsto> account\<lparr>acc_code := None\<rparr>))))"

text \<open>
  What follows the execution of the block, with the storage \<open>s\<close> its queries have left; \<open>listing\<close> lists the accounts of the
  snapshot in the order of the iteration, and \<open>None\<close> is a panic.
\<close>

definition save_hashes :: "io_api \<Rightarrow> ('tx, 'jt) codecs \<Rightarrow> path \<Rightarrow> (u64 \<rightharpoonup> b256) \<Rightarrow> files \<Rightarrow> (fetch_error + unit) option \<times> files" where
  "save_hashes IO K data_dir cached_block_hashes fs =
     (case load IO HashesNotDecoded (decode_hashes K) (hashes_path data_dir) fs of
        Inl e \<Rightarrow> (Some (Inl e), fs)
      | Inr old \<Rightarrow>
          (let block_hashes = old ++ cached_block_hashes
           in if block_hashes = Map.empty then (Some (Inr ()), fs)
              else case save IO HashesFileNotCreated HashesNotWritten (hashes_path data_dir) (encode_hashes K block_hashes) fs of
                     (Some e, fs) \<Rightarrow> (Some (Inl e), fs)
                   | (None, fs) \<Rightarrow> (Some (Inr ()), fs)))"

definition write_snapshot ::
  "('bc, 'jt) revm_api \<Rightarrow> io_api \<Rightarrow> ('tx, 'jt) codecs \<Rightarrow> ('jt chain_state \<Rightarrow> (address \<times> 'jt evm_account) list) \<Rightarrow> path \<Rightarrow> 'tx fetched_block \<Rightarrow>
   ('b, 'jt) rpc_storage \<Rightarrow> files \<Rightarrow> (fetch_error + unit) option \<times> files" where
  "write_snapshot P IO K listing data_dir block s fs =
     (let n = hd_number (fb_header block)
      in case io_create_dir_all IO (block_dir data_dir n) of
           Some e \<Rightarrow> (Some (Inl (BlockDirNotCreated e)), fs)
         | None \<Rightarrow>
             (case save IO BlockFileNotCreated BlockNotWritten (block_path data_dir n) (encode_block K block) fs of
                (Some e, fs) \<Rightarrow> (Some (Inl e), fs)
              | (None, fs) \<Rightarrow>
                  (case load IO BytecodesNotDecoded (decode_bytecodes K) (bytecodes_path data_dir) fs of
                     Inl e \<Rightarrow> (Some (Inl e), fs)
                   | Inr old \<Rightarrow>
                       (case into_snapshot s of (chainstate, cached_bytecodes, cached_block_hashes) \<Rightarrow>
                          case merge_accounts P (listing chainstate) (old ++ cached_bytecodes) Map.empty of
                            None \<Rightarrow> (None, fs)
                          | Some (Inl e) \<Rightarrow> (Some (Inl (CodeHashMissing e)), fs)
                          | Some (Inr (bytecodes, state)) \<Rightarrow>
                              (case save IO BytecodesFileNotCreated BytecodesNotWritten (bytecodes_path data_dir) (encode_bytecodes K bytecodes) fs of
                                 (Some e, fs) \<Rightarrow> (Some (Inl e), fs)
                               | (None, fs) \<Rightarrow>
                                   (case save IO StateFileNotCreated StateNotWritten (state_path data_dir n) (encode_state K state) fs of
                                      (Some e, fs) \<Rightarrow> (Some (Inl e), fs)
                                    | (None, fs) \<Rightarrow> save_hashes IO K data_dir cached_block_hashes fs))))))"

text \<open>
  What a run gets from outside for its chain: the node, the EVM over the RPC storage, the blob gas of a transaction, the storage after the
  queries that the EVM made during the execution of the block, and the serialisers.
\<close>

record ('tx, 'etx, 'sp, 'bp, 'bc, 'au, 's, 'lg, 'b, 'jt) fetch_client =
  fc_get_block :: "'b \<Rightarrow> string + 'tx fetched_block option"
  fc_build_evm :: "('b, 'jt) rpc_storage \<Rightarrow> 'sp \<Rightarrow> 'bp block_env \<Rightarrow> ('s, 'etx, 'bc, 'lg) sequential_evm \<times> 's"
  fc_blob_gas :: "'au tx_env \<Rightarrow> u64"
  fc_queried :: "('b, 'jt) rpc_storage \<Rightarrow> 'tx fetched_block \<Rightarrow> ('b, 'jt) rpc_storage"
  fc_codecs :: "('tx, 'jt) codecs"

text \<open>
  The whole of \<^verbatim>\<open>run\<close>. The RPC storage is that of the parent block (whose number wraps around for the genesis block), and the executor is new, has
  one worker and is forced to be sequential, so that the parallel workers and the storage they would use do not matter.
\<close>

definition fetch_run ::
  "('bc, 'jt) revm_api \<Rightarrow> (spec_id \<Rightarrow> address list) \<Rightarrow> 'bp blob_api \<Rightarrow> 'jt storage_api \<Rightarrow>
   ('bc mv_memory \<Rightarrow> ('jt, 'lg) execution_results \<Rightarrow> ('bc, 'jt, 'lg) outcome) \<Rightarrow> (u64 \<Rightarrow> 'b) \<Rightarrow>
   ('jt chain_state \<Rightarrow> (address \<times> 'jt evm_account) list) \<Rightarrow> io_api \<Rightarrow> ('tx, 'etx, 'sp, 'bp, 'bc, 'au) chain_ops \<Rightarrow>
   ('tx, 'etx, 'sp, 'bp, 'bc, 'au, 's, 'lg, 'b, 'jt) fetch_client \<Rightarrow> 'b \<Rightarrow> path \<Rightarrow> files \<Rightarrow> (fetch_error + unit) option \<times> files" where
  "fetch_run P precompiles B S workers number_id listing IO C D block_id data_dir fs =
     (case fc_get_block D block_id of
        Inl e \<Rightarrow> (Some (Inl (BlockRequestFailed e)), fs)
      | Inr None \<Rightarrow> (Some (Inl NoBlockFound), fs)
      | Inr (Some block) \<Rightarrow>
          (let header = fb_header block
           in case co_get_block_spec C header of
                Inl e \<Rightarrow> (Some (Inl (BlockSpecFailed (hd_number header) e)), fs)
              | Inr spec \<Rightarrow>
                  (let storage = rpc_new precompiles (co_into_spec C spec) (number_id (hd_number header - 1))
                   in case pevm_execute P S B C (fc_blob_gas D) (fc_build_evm D storage) [] workers header (fb_transactions block) 1 True of
                        None \<Rightarrow> (None, fs)
                      | Some (Inl e) \<Rightarrow> (Some (Inl (BlockExecutionFailed e)), fs)
                      | Some (Inr results) \<Rightarrow>
                          write_snapshot P IO (fc_codecs D) listing data_dir block (fc_queried D storage block) fs)))"

section \<open>The command line\<close>

datatype chain_choice = ChainEthereum | ChainRise

record ('url, 'b) fetch_args =
  fa_chain :: chain_choice
  fa_rpc_url :: 'url
  fa_block_id :: 'b

text \<open>\<^verbatim>\<open>main\<close>: the chain, a client for the URL of its node, and its data directory.\<close>

definition fetch_main ::
  "('bc, 'jt) revm_api \<Rightarrow> (spec_id \<Rightarrow> address list) \<Rightarrow> 'bp blob_api \<Rightarrow> 'jt storage_api \<Rightarrow>
   ('bc mv_memory \<Rightarrow> ('jt, 'lg) execution_results \<Rightarrow> ('bc, 'jt, 'lg) outcome) \<Rightarrow> (u64 \<Rightarrow> 'b) \<Rightarrow>
   ('jt chain_state \<Rightarrow> (address \<times> 'jt evm_account) list) \<Rightarrow> io_api \<Rightarrow> (tx_type \<Rightarrow> u8) \<Rightarrow> ('sa + 'ra, 'sa) op_api \<Rightarrow> (op_spec_id \<Rightarrow> spec_id) \<Rightarrow>
   ('url \<Rightarrow> ((tx_type, 'sa) signed_tx, ('sa + 'ra) tx_env, spec_id, 'bp, 'bc, 'sa + 'ra, 's, 'lg, 'b, 'jt) fetch_client) \<Rightarrow>
   ('url \<Rightarrow> ((op_tx_type, 'sa) signed_tx, ('sa + 'ra) op_tx, op_spec_id, 'bp, 'bc, 'sa + 'ra, 's, 'lg, 'b, 'jt) fetch_client) \<Rightarrow>
   ('url, 'b) fetch_args \<Rightarrow> files \<Rightarrow> (fetch_error + unit) option \<times> files" where
  "fetch_main P precompiles B S workers number_id listing IO type_byte Q into_spec connect_ethereum connect_optimism args fs =
     (case fa_chain args of
        ChainEthereum \<Rightarrow>
          fetch_run P precompiles B S workers number_id listing IO (eth_chain P type_byte) (connect_ethereum (fa_rpc_url args))
            (fa_block_id args) ''data/ethereum'' fs
      | ChainRise \<Rightarrow>
          fetch_run P precompiles B S workers number_id listing IO (rise_chain P Q into_spec) (connect_optimism (fa_rpc_url args))
            (fa_block_id args) ''data/rise'' fs)"

section \<open>The paths are apart\<close>

definition decimal_value :: "string \<Rightarrow> nat" where
  "decimal_value = foldl (\<lambda>v c. 10 * v + (of_char c - 48)) 0"

lemma decimal_value: "decimal_value (decimal n) = n"
proof (induction n rule: decimal.induct)
  case (1 n)
  then show ?case by (subst decimal.simps) (auto simp: decimal_value_def)
qed

lemma decimal_digits: "CHR ''/'' \<notin> set (decimal n)"
proof (induction n rule: decimal.induct)
  case (1 n)
  have slash: "char_of (48 + k) \<noteq> CHR ''/''" if "k < 10" for k :: nat
  proof
    assume "char_of (48 + k) = CHR ''/''"
    then have "of_char (char_of (48 + k)) = (47 :: nat)" by simp
    with that show False by simp
  qed
  from 1 slash [of n] slash [of "n mod 10"] show ?case by (subst decimal.simps) (auto simp: eq_commute [of "CHR ''/''"])
qed

lemma block_paths_apart: "block_dir d n @ ''/'' @ x = block_dir d m @ ''/'' @ y \<longleftrightarrow> n = m \<and> x = y"
proof
  assume "block_dir d n @ ''/'' @ x = block_dir d m @ ''/'' @ y"
  then have eq: "decimal (unat n) @ CHR ''/'' # x = decimal (unat m) @ CHR ''/'' # y" by (simp add: block_dir_def)
  have "takeWhile (\<lambda>c. c \<noteq> CHR ''/'') (decimal k @ CHR ''/'' # r) = decimal k" for k r
    using decimal_digits [of k] by (subst takeWhile_append2) auto
  from this [of "unat n" x] this [of "unat m" y] have "decimal (unat n) = decimal (unat m)" by (simp only: eq)
  with eq show "n = m \<and> x = y" by (metis append_same_eq decimal_value list.inject same_append_eq word_unat_eq_iff)
qed simp

lemma paths_apart [simp]:
  "block_path d n = block_path d m \<longleftrightarrow> n = m" "state_path d n = state_path d m \<longleftrightarrow> n = m" "block_path d n \<noteq> state_path d m"
  "state_path d n \<noteq> block_path d m" "bytecodes_path d \<noteq> hashes_path d" "hashes_path d \<noteq> bytecodes_path d"
  "block_path d n \<noteq> bytecodes_path d" "bytecodes_path d \<noteq> block_path d n" "block_path d n \<noteq> hashes_path d" "hashes_path d \<noteq> block_path d n"
  "state_path d n \<noteq> bytecodes_path d" "bytecodes_path d \<noteq> state_path d n" "state_path d n \<noteq> hashes_path d" "hashes_path d \<noteq> state_path d n"
  using block_paths_apart [of d n "''block.json''" m "''block.json''"] block_paths_apart [of d n "''pre_state.json''" m "''pre_state.json''"]
    block_paths_apart [of d n "''block.json''" m "''pre_state.json''"] block_paths_apart [of d n "''pre_state.json''" m "''block.json''"]
  by (simp_all add: block_path_def state_path_def bytecodes_path_def hashes_path_def block_dir_def)

section \<open>What a run leaves\<close>

lemma save_frame: "save IO f g p bytes fs = (e, fs') \<Longrightarrow> q \<noteq> p \<Longrightarrow> fs' q = fs q"
  by (auto simp: save_def split: option.splits prod.splits)

lemma save_error: "save IO f g p bytes fs = (Some e, fs') \<Longrightarrow> e \<in> range f \<and> fs' = fs \<or> e \<in> range g"
  by (auto simp: save_def split: option.splits prod.splits)

lemma load_error: "load IO f decode p fs = Inl e \<Longrightarrow> e \<in> range f"
  by (auto simp: load_def map_sum_def split: option.splits sum.splits)

text \<open>The outcomes that come after the bytecodes file was created, and after the block hashes file was created.\<close>

fun past_bytecodes :: "(fetch_error + unit) option \<Rightarrow> bool" where
  "past_bytecodes (Some (Inl (BytecodesNotWritten e))) = True"
| "past_bytecodes (Some (Inl (StateFileNotCreated e))) = True"
| "past_bytecodes (Some (Inl (StateNotWritten e))) = True"
| "past_bytecodes (Some (Inl (HashesNotDecoded e))) = True"
| "past_bytecodes (Some (Inl (HashesFileNotCreated e))) = True"
| "past_bytecodes (Some (Inl (HashesNotWritten e))) = True"
| "past_bytecodes (Some (Inr u)) = True"
| "past_bytecodes r = False"

fun past_hashes :: "(fetch_error + unit) option \<Rightarrow> bool" where
  "past_hashes (Some (Inl (HashesNotWritten e))) = True"
| "past_hashes (Some (Inr u)) = True"
| "past_hashes r = False"

lemma save_hashes_frame:
  assumes "save_hashes IO K d cached fs = (r, fs')"
  shows "q \<noteq> hashes_path d \<Longrightarrow> fs' q = fs q" "past_hashes r \<or> fs' = fs" "past_bytecodes r"
  using assms by (auto simp: save_hashes_def Let_def save_frame dest!: load_error save_error split: sum.splits if_splits prod.splits option.splits)

text \<open>The stages of writing a snapshot.\<close>

lemma write_snapshot_cases:
  assumes "write_snapshot P IO K listing d block s fs = (r, fs')" "n = hd_number (fb_header block)"
  obtains (early) "fs' = fs" "\<not> past_bytecodes r" "\<not> past_hashes r"
  | (block) fs1 e1 where "save IO BlockFileNotCreated BlockNotWritten (block_path d n) (encode_block K block) fs = (e1, fs1)"
      "fs' = fs1" "\<not> past_bytecodes r" "\<not> past_hashes r"
  | (codes) fs1 fs2 bytes e2 where "save IO BlockFileNotCreated BlockNotWritten (block_path d n) (encode_block K block) fs = (None, fs1)"
      "save IO BytecodesFileNotCreated BytecodesNotWritten (bytecodes_path d) bytes fs1 = (Some e2, fs2)" "r = Some (Inl e2)" "fs' = fs2"
  | (state) fs1 fs2 fs3 bytes bytes' e3 where "save IO BlockFileNotCreated BlockNotWritten (block_path d n) (encode_block K block) fs = (None, fs1)"
      "save IO BytecodesFileNotCreated BytecodesNotWritten (bytecodes_path d) bytes fs1 = (None, fs2)"
      "save IO StateFileNotCreated StateNotWritten (state_path d n) bytes' fs2 = (Some e3, fs3)" "r = Some (Inl e3)" "fs' = fs3"
  | (hashes) fs1 fs2 fs3 bytes bytes' where "save IO BlockFileNotCreated BlockNotWritten (block_path d n) (encode_block K block) fs = (None, fs1)"
      "save IO BytecodesFileNotCreated BytecodesNotWritten (bytecodes_path d) bytes fs1 = (None, fs2)"
      "save IO StateFileNotCreated StateNotWritten (state_path d n) bytes' fs2 = (None, fs3)"
      "save_hashes IO K d (cache_block_hashes s) fs3 = (r, fs')"
proof (cases "io_create_dir_all IO (block_dir d n)")
  case (Some e)
  with assms show thesis by (intro early) (auto simp: write_snapshot_def Let_def)
next
  case None
  obtain e1 fs1 where b: "save IO BlockFileNotCreated BlockNotWritten (block_path d n) (encode_block K block) fs = (e1, fs1)" by fastforce
  show thesis
  proof (cases e1)
    case (Some e)
    with b None assms show thesis
      by (intro block [OF b]) (auto simp: write_snapshot_def Let_def dest!: save_error)
  next
    case e1: None
    let ?load = "load IO BytecodesNotDecoded (decode_bytecodes K) (bytecodes_path d) fs1"
    show thesis
    proof (cases ?load)
      case (Inl e)
      with b e1 None assms load_error [OF Inl] show thesis by (intro block [OF b]) (auto simp: write_snapshot_def Let_def)
    next
      case (Inr old)
      let ?merge = "merge_accounts P (listing (cache_accounts s)) (old ++ cache_bytecodes s) Map.empty"
      consider "?merge = None" | e where "?merge = Some (Inl e)" | codes state where "?merge = Some (Inr (codes, state))"
        by (metis option.exhaust sum.exhaust surj_pair)
      then show thesis
      proof cases
        case (3 bytecodes st)
        obtain e2 fs2 where c: "save IO BytecodesFileNotCreated BytecodesNotWritten (bytecodes_path d) (encode_bytecodes K bytecodes) fs1 = (e2, fs2)"
          by fastforce
        obtain e3 fs3 where t: "save IO StateFileNotCreated StateNotWritten (state_path d n) (encode_state K st) fs2 = (e3, fs3)" by fastforce
        have eq: "(r, fs') = (case e2 of Some e \<Rightarrow> (Some (Inl e), fs2) | None \<Rightarrow>
            (case e3 of Some e \<Rightarrow> (Some (Inl e), fs3) | None \<Rightarrow> save_hashes IO K d (cache_block_hashes s) fs3))"
          using assms None b e1 Inr 3 c t by (cases e2; cases e3) (simp_all add: write_snapshot_def Let_def into_snapshot_def)
        with codes [OF b [unfolded e1]] state [OF b [unfolded e1]] hashes [OF b [unfolded e1]] c t show thesis
          by (cases e2; cases e3) auto
      qed (use b e1 None assms Inr in \<open>auto intro!: block [OF b] simp: write_snapshot_def Let_def into_snapshot_def\<close>)
    qed
  qed
qed

lemma write_snapshot_frame:
  assumes "write_snapshot P IO K listing d block s fs = (r, fs')" "n = hd_number (fb_header block)"
  shows "q \<notin> {block_path d n, state_path d n, bytecodes_path d, hashes_path d} \<Longrightarrow> fs' q = fs q"
    and "past_hashes r \<or> fs' (hashes_path d) = fs (hashes_path d)"
    and "past_bytecodes r \<or> fs' (bytecodes_path d) = fs (bytecodes_path d)"
proof -
  have "(q \<notin> {block_path d n, state_path d n, bytecodes_path d, hashes_path d} \<longrightarrow> fs' q = fs q) \<and>
    (past_hashes r \<or> fs' (hashes_path d) = fs (hashes_path d)) \<and> (past_bytecodes r \<or> fs' (bytecodes_path d) = fs (bytecodes_path d))"
    using assms
  proof (cases rule: write_snapshot_cases)
    case (block fs1 e1)
    with save_frame [OF block(1)] show ?thesis by auto
  next
    case (codes fs1 fs2 bytes e2)
    with save_frame [OF codes(1)] save_frame [OF codes(2)] save_error [OF codes(2)] show ?thesis by auto
  next
    case (state fs1 fs2 fs3 bytes bytes' e3)
    with save_frame [OF state(1)] save_frame [OF state(2)] save_frame [OF state(3)] save_error [OF state(3)] show ?thesis by auto
  next
    case (hashes fs1 fs2 fs3 bytes bytes')
    with save_frame [OF hashes(1)] save_frame [OF hashes(2)] save_frame [OF hashes(3)] save_hashes_frame [OF hashes(4)] show ?thesis by auto
  qed simp
  then show "q \<notin> {block_path d n, state_path d n, bytecodes_path d, hashes_path d} \<Longrightarrow> fs' q = fs q"
    and "past_hashes r \<or> fs' (hashes_path d) = fs (hashes_path d)"
    and "past_bytecodes r \<or> fs' (bytecodes_path d) = fs (bytecodes_path d)" by blast+
qed

text \<open>
  C24: What \<^verbatim>\<open>fetch\<close> can change on disk, in every outcome (success, every error, a panic): only the two files of the block it fetched, the bytecodes and
  the block hashes, so that the files of other blocks stay as they were. The accumulated bytecodes are touched only by runs that
  got as far as creating the new bytecodes file, and the accumulated block hashes only by runs that succeed or fail to write them.
\<close>

theorem fetch_keeps_other_data:
  assumes "fetch_run P precompiles B S workers number_id listing IO C D block_id d fs = (r, fs')"
  shows "(case fc_get_block D block_id of
      Inr (Some block) \<Rightarrow>
        (\<forall>q. q \<notin> {block_path d (hd_number (fb_header block)), state_path d (hd_number (fb_header block)), bytecodes_path d, hashes_path d} \<longrightarrow>
           fs' q = fs q) \<and>
        (\<forall>m. m \<noteq> hd_number (fb_header block) \<longrightarrow> fs' (block_path d m) = fs (block_path d m) \<and> fs' (state_path d m) = fs (state_path d m))
    | _ \<Rightarrow> fs' = fs) \<and>
    (past_bytecodes r \<or> fs' (bytecodes_path d) = fs (bytecodes_path d)) \<and> (past_hashes r \<or> fs' (hashes_path d) = fs (hashes_path d))"
proof -
  have "fs' = fs \<or> (\<exists>block s. fc_get_block D block_id = Inr (Some block) \<and>
      write_snapshot P IO (fc_codecs D) listing d block (fc_queried D s block) fs = (r, fs'))"
    using assms by (auto simp: fetch_run_def Let_def split: sum.splits option.splits)
  then show ?thesis
  proof (elim disjE exE conjE)
    fix block s assume b: "fc_get_block D block_id = Inr (Some block)"
      and w: "write_snapshot P IO (fc_codecs D) listing d block (fc_queried D s block) fs = (r, fs')"
    show ?thesis using write_snapshot_frame [OF w refl] by (simp add: b)
  qed (auto split: sum.splits option.splits)
qed

section \<open>What can be read back\<close>

text \<open>A file system without failures.\<close>

definition reliable :: "io_api \<Rightarrow> bool" where
  "reliable IO \<longleftrightarrow> (\<forall>p. io_create_dir_all IO p = None \<and> io_open IO p \<and> io_create IO p = None) \<and> (\<forall>p bytes. io_write IO p bytes = (bytes, None))"

lemma reliable_save: "reliable IO \<Longrightarrow> save IO f g p bytes fs = (None, fs(p \<mapsto> bytes))"
  by (simp add: reliable_def save_def)

lemma reliable_load: "reliable IO \<Longrightarrow> load IO f decode p fs = (case fs p of Some bytes \<Rightarrow> map_sum f id (decode bytes) | None \<Rightarrow> Inr Map.empty)"
  by (simp add: reliable_def load_def open_file_def)

text \<open>Merging accounts without code of their own never fails and keeps them.\<close>

lemma merge_accounts_plain:
  "(\<forall>(a, acc) \<in> set xs. acc_code acc = None) \<Longrightarrow> distinct (map fst xs) \<Longrightarrow>
   merge_accounts P xs bytecodes state = Some (Inr (bytecodes, state ++ map_of xs))"
proof (induction xs arbitrary: state)
  case (Cons x xs)
  obtain a acc where x: "x = (a, acc)" by (cases x)
  with Cons.prems have "a \<notin> dom (map_of xs)" by (force simp: dom_map_of_conv_image_fst)
  then have "state(a \<mapsto> acc) ++ map_of xs = state ++ map_of (x # xs)" by (auto simp: x map_add_def dom_def split: option.splits)
  with Cons x show ?case by (simp del: map_of.simps)
qed simp

lemma merged_accounts:
  assumes "rpc_reachable P b pre W s" "map_of chainstate = cache_accounts s" "distinct (map fst chainstate)"
  shows "merge_accounts P chainstate bytecodes Map.empty = Some (Inr (bytecodes, cache_accounts s))"
proof -
  have "acc_code acc = None" if "(a, acc) \<in> set chainstate" for a acc
    using map_of_is_SomeI [OF assms(3) that] coherentD(3) [OF reachable_coherent [OF assms(1)]] assms(2)
    by (simp add: account_coherent_def)
  then have "\<forall>(a, acc) \<in> set chainstate. acc_code acc = None" by blast
  from merge_accounts_plain [OF this assms(3), of P bytecodes Map.empty] assms(2) show ?thesis by simp
qed

lemma hashes_read_back:
  assumes IO: "reliable IO" and old: "load IO HashesNotDecoded (decode_hashes K) (hashes_path d) fs = Inr old"
    and codec: "decode_hashes K (encode_hashes K (old ++ cached)) = Inr (old ++ cached)"
  shows "\<exists>fs'. save_hashes IO K d cached fs = (Some (Inr ()), fs') \<and> (\<forall>q. q \<noteq> hashes_path d \<longrightarrow> fs' q = fs q) \<and>
    load IO HashesNotDecoded (decode_hashes K) (hashes_path d) fs' = Inr (old ++ cached)"
proof (cases "old ++ cached = Map.empty")
  case True
  then show ?thesis using old by (auto simp: save_hashes_def)
next
  case False
  have "load IO HashesNotDecoded (decode_hashes K) (hashes_path d) (fs(hashes_path d \<mapsto> encode_hashes K (old ++ cached))) = Inr (old ++ cached)"
    using codec by (simp add: reliable_load [OF IO])
  with False old show ?thesis by (auto simp: save_hashes_def Let_def reliable_save [OF IO])
qed

text \<open>
  C23: A fetched block can be read back. Over a file system without failures, for a block that the node returns and that executes, and caches that its queries filled with
  the state of the parent block, the run succeeds and leaves the block, the accounts of the caches, the code of the caches added to the code of
  earlier blocks, and the block hashes of the caches added to the earlier ones. So the in-memory storage made of the three files is the snapshot of the RPC
  storage (which replays its answers), with what earlier blocks left.
\<close>

theorem fetched_block_reads_back:
  assumes "reliable IO" "fc_get_block D block_id = Inr (Some block)" "n = hd_number (fb_header block)"
    and "co_get_block_spec C (fb_header block) = Inr spec" "storage = rpc_new precompiles (co_into_spec C spec) (number_id (n - 1))"
    and "pevm_execute P S B C (fc_blob_gas D) (fc_build_evm D storage) [] workers (fb_header block) (fb_transactions block) 1 True = Some (Inr results)"
    and "s = fc_queried D storage block" "rpc_reachable P (number_id (n - 1)) pre W s"
    and "map_of (listing (cache_accounts s)) = cache_accounts s" "distinct (map fst (listing (cache_accounts s)))" "K = fc_codecs D"
    and "load IO BytecodesNotDecoded (decode_bytecodes K) (bytecodes_path d) fs = Inr codes"
    and "load IO HashesNotDecoded (decode_hashes K) (hashes_path d) fs = Inr hashes"
    and "decode_bytecodes K (encode_bytecodes K (codes ++ cache_bytecodes s)) = Inr (codes ++ cache_bytecodes s)"
    and "decode_hashes K (encode_hashes K (hashes ++ cache_block_hashes s)) = Inr (hashes ++ cache_block_hashes s)"
  shows "\<exists>fs'. fetch_run P precompiles B S workers number_id listing IO C D block_id d fs = (Some (Inr ()), fs') \<and>
    fs' (block_path d n) = Some (encode_block K block) \<and> fs' (state_path d n) = Some (encode_state K (cache_accounts s)) \<and>
    load IO BytecodesNotDecoded (decode_bytecodes K) (bytecodes_path d) fs' = Inr (codes ++ cache_bytecodes s) \<and>
    load IO HashesNotDecoded (decode_hashes K) (hashes_path d) fs' = Inr (hashes ++ cache_block_hashes s)"
proof -
  let ?fs1 = "fs(block_path d n \<mapsto> encode_block K block)"
  let ?fs3 = "?fs1(bytecodes_path d \<mapsto> encode_bytecodes K (codes ++ cache_bytecodes s), state_path d n \<mapsto> encode_state K (cache_accounts s))"
  note IO = reliable_save [OF assms(1)] reliable_load [OF assms(1)]
  have "load IO HashesNotDecoded (decode_hashes K) (hashes_path d) ?fs3 = Inr hashes" using assms(13) by (simp add: IO)
  from hashes_read_back [OF assms(1) this assms(15)] obtain fs' where
    h: "save_hashes IO K d (cache_block_hashes s) ?fs3 = (Some (Inr ()), fs')" "\<forall>q. q \<noteq> hashes_path d \<longrightarrow> fs' q = ?fs3 q"
      "load IO HashesNotDecoded (decode_hashes K) (hashes_path d) fs' = Inr (hashes ++ cache_block_hashes s)" by blast
  have old: "load IO BytecodesNotDecoded (decode_bytecodes K) (bytecodes_path d) ?fs1 = Inr codes" using assms(12) by (simp add: IO)
  have dir: "io_create_dir_all IO p = None" for p using assms(1) by (simp add: reliable_def)
  have "write_snapshot P IO K listing d block s fs = (Some (Inr ()), fs')"
    using h(1) old merged_accounts [OF assms(8-10)] by (simp add: write_snapshot_def dir IO(1) into_snapshot_def flip: assms(3))
  then have "fetch_run P precompiles B S workers number_id listing IO C D block_id d fs = (Some (Inr ()), fs')"
    using assms(2-7,11) by (simp add: fetch_run_def)
  moreover have "load IO BytecodesNotDecoded (decode_bytecodes K) (bytecodes_path d) fs' = Inr (codes ++ cache_bytecodes s)"
    using h(2) assms(14) by (simp add: IO)
  ultimately show ?thesis using h(2,3) by simp
qed

section \<open>A sample run\<close>

text \<open>Block 18 without transactions over the sample node; the EVM asks for one slot.\<close>

definition sample_block :: "(tx_type, unit) signed_tx fetched_block" where
  "sample_block =
     \<lparr>fb_header = \<lparr>hd_number = 18, hd_timestamp = 0, hd_beneficiary = 99, hd_gas_limit = 0, hd_gas_used = 0, hd_base_fee_per_gas = None, hd_difficulty = 0,
        hd_mix_hash = 0, hd_excess_blob_gas = None\<rparr>, fb_transactions = FullTransactions []\<rparr>"

definition sample_queried :: "(nat, bool list) rpc_storage" where
  "sample_queried = snd (rpc_storage_at sample_api sample_node 10 1 sample_rpc)"

lemma sample_queried_reachable: "rpc_reachable sample_api 17 [1, 2] sample_world sample_queried"
  unfolding sample_queried_def by (rule rpc_storage_result(1) [OF sample_rpc_reachable sample_node_ok(1) sample_api_laws surjective_pairing])

definition sample_listing :: "bool list chain_state \<Rightarrow> (address \<times> bool list evm_account) list" where
  "sample_listing m = (case m 10 of Some account \<Rightarrow> [(10, account)] | None \<Rightarrow> [])"

lemma sample_accounts: "dom (cache_accounts sample_queried) = {10}" "cache_block_hashes sample_queried = Map.empty"
  by (simp_all add: sample_queried_def rpc_storage_at_def rpc_basic_def cached_slot_def cached_basic_def sample_rpc_def rpc_new_def store_account_def
      insert_bytecode_def store_slot_def evm_code_from_def honest_fetch [OF sample_node_ok] fetch_account_answers [OF sample_node_ok])
    (simp_all add: sample_api_def sample_world_def store_slot_def)

definition sample_io :: io_api where
  "sample_io = \<lparr>io_create_dir_all = (\<lambda>_. None), io_open = (\<lambda>_. True), io_create = (\<lambda>_. None), io_write = (\<lambda>_ bytes. (bytes, None))\<rparr>"

definition sample_codecs :: "((tx_type, unit) signed_tx, bool list) codecs" where
  "sample_codecs = \<lparr>encode_block = (\<lambda>_. [1]), encode_state = (\<lambda>_. [2]), encode_bytecodes = (\<lambda>_. [3]),
     decode_bytecodes = (\<lambda>_. Inr (cache_bytecodes sample_queried)), encode_hashes = (\<lambda>_. [4]), decode_hashes = (\<lambda>_. Inr Map.empty)\<rparr>"

definition sample_client ::
  "((tx_type, unit) signed_tx, (unit + unit) tx_env, spec_id, unit, sample_code, unit + unit, unit, unit, nat, bool list) fetch_client" where
  "sample_client =
     \<lparr>fc_get_block = (\<lambda>_. Inr (Some sample_block)), fc_build_evm = (\<lambda>_ _ _. (\<lparr>se_transact = (\<lambda>_ _. Inl []), se_commit = (\<lambda>s _. s)\<rparr>, ())),
      fc_blob_gas = (\<lambda>_. 0), fc_queried = (\<lambda>s _. snd (rpc_storage_at sample_api sample_node 10 1 s)),
      fc_codecs = sample_codecs\<rparr>"

lemma sample_listing:
  "map_of (sample_listing (cache_accounts sample_queried)) = cache_accounts sample_queried" "distinct (map fst (sample_listing (cache_accounts sample_queried)))"
proof -
  obtain acc where acc: "cache_accounts sample_queried 10 = Some acc" using sample_accounts(1) by (metis domD singletonI)
  have "cache_accounts sample_queried a = None" if "a \<noteq> 10" for a using sample_accounts(1) that by (metis domIff singletonD)
  with acc show "map_of (sample_listing (cache_accounts sample_queried)) = cache_accounts sample_queried"
    by (auto simp: sample_listing_def fun_eq_iff)
  from acc show "distinct (map fst (sample_listing (cache_accounts sample_queried)))" by (simp add: sample_listing_def)
qed

lemma sample_client [simp]:
  "fc_get_block sample_client i = Inr (Some sample_block)" "fc_codecs sample_client = sample_codecs" "hd_number (fb_header sample_block) = 18"
  "fc_queried sample_client sample_rpc block = sample_queried" "reliable sample_io"
  by (simp_all add: sample_client_def sample_block_def sample_queried_def reliable_def sample_io_def)

theorem fetched_block_reads_back_witness:
  "\<forall>B S workers. \<exists>fs'. fetch_run sample_api (\<lambda>_. [1, 2]) B S workers unat sample_listing sample_io (eth_chain sample_api (\<lambda>_. 0)) sample_client
       18 ''data/ethereum'' Map.empty = (Some (Inr ()), fs') \<and>
     fs' (block_path ''data/ethereum'' 18) = Some [1] \<and> fs' (state_path ''data/ethereum'' 18) = Some [2]"
proof (intro allI)
  fix B :: "unit blob_api" and S :: "bool list storage_api"
    and workers :: "sample_code mv_memory \<Rightarrow> (bool list, unit) execution_results \<Rightarrow> (sample_code, bool list, unit) outcome"
  let ?C = "eth_chain sample_api (\<lambda>_. 0)" and ?d = "''data/ethereum''"
  let ?spec = "eth_get_block_spec (fb_header sample_block)"
  have storage: "sample_rpc = rpc_new (\<lambda>_. [1, 2]) (co_into_spec ?C ?spec) (unat (18 - 1 :: u64))" by (simp add: sample_rpc_def rpc_new_def)
  have ex: "pevm_execute sample_api S B ?C (fc_blob_gas sample_client) (fc_build_evm sample_client sample_rpc) [] workers
      (fb_header sample_block) (fb_transactions sample_block) 1 True = Some (Inr [])"
    by (simp add: sample_block_def pevm_execute_def Let_def execute_revm_sequential_def split: prod.splits)
  have reach: "rpc_reachable sample_api (unat (18 - 1 :: u64)) [1, 2] sample_world sample_queried" using sample_queried_reachable by simp
  have loads: "load sample_io BytecodesNotDecoded (decode_bytecodes sample_codecs) (bytecodes_path ?d) Map.empty = Inr Map.empty"
    "load sample_io HashesNotDecoded (decode_hashes sample_codecs) (hashes_path ?d) Map.empty = Inr Map.empty"
    by (simp_all add: load_def open_file_def)
  have dec: "decode_bytecodes sample_codecs (encode_bytecodes sample_codecs (Map.empty ++ cache_bytecodes sample_queried)) = Inr (Map.empty ++ cache_bytecodes sample_queried)"
    "decode_hashes sample_codecs (encode_hashes sample_codecs (Map.empty ++ cache_block_hashes sample_queried)) = Inr (Map.empty ++ cache_block_hashes sample_queried)"
    by (simp_all add: sample_codecs_def sample_accounts)
  from fetched_block_reads_back [where number_id = unat and precompiles = "\<lambda>_. [1, 2]" and listing = sample_listing, OF sample_client(5) sample_client(1) [of 18] sample_client(3) [symmetric] eth_chain_sel(1) storage ex sample_client(4) [symmetric] reach sample_listing
      sample_client(2) [symmetric] loads dec]
  show "\<exists>fs'. fetch_run sample_api (\<lambda>_. [1, 2]) B S workers unat sample_listing sample_io ?C sample_client 18 ?d Map.empty = (Some (Inr ()), fs') \<and>
     fs' (block_path ?d 18) = Some [1] \<and> fs' (state_path ?d 18) = Some [2]"
    by (auto simp: sample_codecs_def)
qed

theorem fetch_keeps_other_data_witness:
  "\<forall>B S workers. \<exists>r fs'. fetch_run sample_api (\<lambda>_. [1, 2]) B S workers unat sample_listing sample_io (eth_chain sample_api (\<lambda>_. 0)) sample_client
       18 ''data/ethereum'' [block_path ''data/ethereum'' 17 \<mapsto> [9]] = (r, fs') \<and> fs' (block_path ''data/ethereum'' 17) = Some [9]"
proof (intro allI)
  fix B :: "unit blob_api" and S :: "bool list storage_api"
    and workers :: "sample_code mv_memory \<Rightarrow> (bool list, unit) execution_results \<Rightarrow> (sample_code, bool list, unit) outcome"
  obtain r fs' where run: "fetch_run sample_api (\<lambda>_. [1, 2]) B S workers unat sample_listing sample_io (eth_chain sample_api (\<lambda>_. 0)) sample_client
       18 ''data/ethereum'' [block_path ''data/ethereum'' 17 \<mapsto> [9]] = (r, fs')" by fastforce
  from fetch_keeps_other_data [OF run] run
  show "\<exists>r fs'. fetch_run sample_api (\<lambda>_. [1, 2]) B S workers unat sample_listing sample_io (eth_chain sample_api (\<lambda>_. 0)) sample_client
       18 ''data/ethereum'' [block_path ''data/ethereum'' 17 \<mapsto> [9]] = (r, fs') \<and> fs' (block_path ''data/ethereum'' 17) = Some [9]" by auto
qed

end
