(* ===== verification/Evm_Config.thy ===== *)
theory Evm_Config
  imports Block
begin

text \<open>
  How the executors configure the EVM: \<^verbatim>\<open>build_evm\<close> of the two chains, the handler that replaces the payment of the beneficiary
  (\<^verbatim>\<open>NoBeneficiaryHandler\<close> of \<^verbatim>\<open>vm.rs\<close>), and the background thread that frees the shared structures of a block (\<^verbatim>\<open>AsyncDropper\<close> of \<^verbatim>\<open>pevm.rs\<close>).
\<close>

section \<open>Building the EVM\<close>

text \<open>What the EVM package is told: specification, chain identifier and, where it is set, the limit of blobs per transaction.\<close>

record 'sp evm_cfg =
  cf_spec :: 'sp
  cf_chain_id :: u64
  cf_max_blobs_per_tx :: "u64 option"

record ('sp, 'bp, 'db) evm_context =
  cx_cfg :: "'sp evm_cfg"
  cx_block :: "'bp block_env"
  cx_db :: 'db

definition new_with_spec :: "'sp \<Rightarrow> u64 \<Rightarrow> 'sp evm_cfg" where
  "new_with_spec spec chain_id = \<lparr>cf_spec = spec, cf_chain_id = chain_id, cf_max_blobs_per_tx = None\<rparr>"

record pevm_ethereum =
  pe_id :: u64

definition mainnet :: pevm_ethereum where
  "mainnet = \<lparr>pe_id = 1\<rparr>"

text \<open>The two limits are constants of the EVM package.\<close>

definition eth_build_evm ::
  "u64 \<Rightarrow> u64 \<Rightarrow> pevm_ethereum \<Rightarrow> spec_id \<Rightarrow> 'bp block_env \<Rightarrow> 'db \<Rightarrow> (spec_id, 'bp, 'db) evm_context" where
  "eth_build_evm max_blobs_cancun max_blobs_prague chain spec block_env db =
     (let cfg = new_with_spec spec (pe_id chain);
          cfg = (if PRAGUE \<le> spec then cfg\<lparr>cf_max_blobs_per_tx := Some max_blobs_prague\<rparr>
                 else if CANCUN \<le> spec then cfg\<lparr>cf_max_blobs_per_tx := Some max_blobs_cancun\<rparr> else cfg)
      in \<lparr>cx_cfg = cfg, cx_block = block_env, cx_db = db\<rparr>)"

definition rise_chain_id :: u64 where
  "rise_chain_id = 4153"

definition rise_build_evm :: "op_spec_id \<Rightarrow> 'bp block_env \<Rightarrow> 'db \<Rightarrow> (op_spec_id, 'bp, 'db) evm_context" where
  "rise_build_evm spec block_env db = \<lparr>cx_cfg = new_with_spec spec rise_chain_id, cx_block = block_env, cx_db = db\<rparr>"

lemma spec_rank_if: "spec_rank a \<le> k \<Longrightarrow> spec_rank b \<le> k \<Longrightarrow> spec_rank (if c then a else b) \<le> k"
  by (rule if_split [THEN iffD2]) blast

lemma block_spec_bound:
  "\<not> PRAGUE \<le> eth_get_block_spec header" "CANCUN \<le> eth_get_block_spec header \<longleftrightarrow> 1710338135 \<le> hd_timestamp header"
proof -
  have "spec_rank (eth_get_block_spec header) \<le> 11" unfolding eth_get_block_spec_def by (intro spec_rank_if) simp_all
  then show "\<not> PRAGUE \<le> eth_get_block_spec header" by (simp add: less_eq_spec_id_def)
  show "CANCUN \<le> eth_get_block_spec header \<longleftrightarrow> 1710338135 \<le> hd_timestamp header"
  proof (cases "1710338135 \<le> hd_timestamp header")
    case True
    then have "eth_get_block_spec header = CANCUN" by (simp only: eth_get_block_spec_def if_True)
    with True show ?thesis by simp
  next
    case False
    have "spec_rank (eth_get_block_spec header) \<le> 10"
      unfolding eth_get_block_spec_def if_not_P [OF False] by (intro spec_rank_if) simp_all
    with False show ?thesis by (simp add: less_eq_spec_id_def)
  qed
qed

text \<open>
  The EVM of a block of Ethereum: the limit of Cancun from the time of Cancun on, the default before, and never the limit of Prague, which the specification of a
  block never reaches.
\<close>

lemma prague_limit_never_used:
  "eth_build_evm cancun prague chain (eth_get_block_spec header) env db =
     \<lparr>cx_cfg = \<lparr>cf_spec = eth_get_block_spec header, cf_chain_id = pe_id chain,
        cf_max_blobs_per_tx = (if 1710338135 \<le> hd_timestamp header then Some cancun else None)\<rparr>, cx_block = env, cx_db = db\<rparr>"
  unfolding eth_build_evm_def block_spec_bound(2) if_not_P [OF block_spec_bound(1)] new_with_spec_def Let_def
  by (cases "1710338135 \<le> hd_timestamp header") (simp_all only: if_True if_False evm_cfg.simps evm_cfg.update_convs)

section \<open>The handler\<close>

text \<open>
  A handler of the EVM package, as far as the code changes it: the stage that pays the beneficiary, on the EVM and the result of the
  last frame. Here it changes nothing, so that the rewards in the write set are the only ones.
\<close>

record ('evm, 'fr, 'err) evm_handler =
  reward_beneficiary :: "'evm \<Rightarrow> 'fr \<Rightarrow> ('err + unit) \<times> 'evm \<times> 'fr"

definition no_beneficiary_handler :: "('evm, 'fr, 'err) evm_handler" where
  "no_beneficiary_handler = \<lparr>reward_beneficiary = (\<lambda>evm frame. (Inr (), evm, frame))\<rparr>"

section \<open>Freeing in the background\<close>

text \<open>
  \<^verbatim>\<open>AsyncDropper\<close>: a channel and a thread that drops what it receives, in order. \<open>receiving\<close> is false once the thread is gone; a value
  sent then is dropped by the sender, whose error is ignored.
\<close>

record 'a async_dropper =
  channel :: "'a list"
  receiving :: bool
  dropped :: "'a list"

definition dropper_default :: "'a async_dropper" where
  "dropper_default = \<lparr>channel = [], receiving = True, dropped = []\<rparr>"

definition dropper_drop :: "'a \<Rightarrow> 'a async_dropper \<Rightarrow> 'a async_dropper" where
  "dropper_drop t d = (if receiving d then d\<lparr>channel := channel d @ [t]\<rparr> else d\<lparr>dropped := dropped d @ [t]\<rparr>)"

text \<open>The thread takes one value.\<close>

definition dropper_receive :: "'a async_dropper \<Rightarrow> 'a async_dropper" where
  "dropper_receive d = (case channel d of [] \<Rightarrow> d | t # ts \<Rightarrow> d\<lparr>channel := ts, dropped := dropped d @ [t]\<rparr>)"

inductive dropper_run :: "'a list \<Rightarrow> 'a async_dropper \<Rightarrow> bool" where
  start: "dropper_run [] dropper_default"
| drop: "dropper_run ts d \<Longrightarrow> dropper_run (ts @ [t]) (dropper_drop t d)"
| receive: "dropper_run ts d \<Longrightarrow> dropper_run ts (dropper_receive d)"

text \<open>Every value given to the dropper is dropped exactly once and in order, and all of them once the thread has emptied the channel.\<close>

lemma dropper_conserves: "dropper_run ts d \<Longrightarrow> receiving d \<and> dropped d @ channel d = ts"
  by (induction rule: dropper_run.induct) (auto simp: dropper_default_def dropper_drop_def dropper_receive_def split: list.splits)

lemma dropper_frees_all:
  assumes "dropper_run ts d" shows "dropped ((dropper_receive ^^ length (channel d)) d) = ts"
proof -
  have "dropped ((dropper_receive ^^ length (channel d)) d) = dropped d @ channel d" for d :: "'a async_dropper"
  proof (induction "channel d" arbitrary: d)
    case (Cons t cs)
    let ?d = "d\<lparr>channel := cs, dropped := dropped d @ [t]\<rparr>"
    have "dropper_receive d = ?d" by (simp add: dropper_receive_def flip: Cons.hyps(2))
    with Cons.hyps(1) [of ?d] show ?case by (simp add: funpow_swap1 flip: Cons.hyps(2))
  qed simp
  with dropper_conserves [OF assms] show ?thesis by simp
qed

end
