(* ===== verification/Spec2Isabelle.thy ===== *)
theory Spec2Isabelle
  imports Scheduler_Props Typing Redelegation Equivalence Fetch Evm_Config
begin

text \<open>
  A verification of pevm, a parallel executor of EVM blocks (the crate \<^verbatim>\<open>src/crates/pevm\<close>).

  \<^bold>\<open>The program.\<close> A block is a list of transactions that must have the effect of executing them in
  order. pevm follows the Block-STM scheme: worker threads execute transactions speculatively,
  \<^verbatim>\<open>MvMemory\<close> keeps one version of every written location per transaction, reads are recorded with
  their origins, and a validation that finds other origins aborts the incarnation and has the
  transaction executed again. The scheduler hands out executions and validations. Balances of the fee
  recipients and of plain transfers are updated lazily and evaluated at the end of the block.

  \<^bold>\<open>Theories and code.\<close>
  \<^item> \<open>Pevm_Prelude\<close>: words, saturating arithmetic, association lists, and the collections of simplification
    rules. \<open>Pevm_Types\<close>: the types, flags and hashers of \<^verbatim>\<open>lib.rs\<close>.
  \<^item> \<open>Scheduler\<close>: every method of \<^verbatim>\<open>scheduler.rs\<close> as a function on the state of the scheduler, the sections
    under a status mutex as functions of their own; \<open>Scheduler_Props\<close>: what each method does when no other
    thread interferes, and how many iterations \<^verbatim>\<open>next_task\<close> takes (the fuel of \<open>next_task\<close> is
    bounded by the remaining indices, or the call spins because work of other threads is outstanding).
  \<^item> \<open>Lifecycle\<close>, \<open>Scheduler_Steps\<close>, \<open>Worker_Protocol\<close>, \<open>Worker_Runs\<close>, \<open>Worker_Completion\<close>, \<open>Worker_Properties\<close>: the worker
    loops of \<^verbatim>\<open>execute_revm_parallel\<close>, \<^verbatim>\<open>try_execute\<close> and \<^verbatim>\<open>try_validate\<close> (\<^verbatim>\<open>pevm.rs\<close>) as a step relation in
    which every access to an atomic and every section under a mutex is one step of one worker, so that all
    interleavings are covered. What the EVM answers and what a validation finds is left open. The life
    cycle of the transactions is an abstract protocol that the workers refine; the invariants give
    mutual exclusion, bounds of the unchecked indices, absence of deadlock, and that all transactions are executed
    when the workers have left.
  \<^item> \<open>Mv_Memory\<close>: every method of \<^verbatim>\<open>mv_memory.rs\<close>, the invariant of the memory, and what recording, aborting
    and validating do to one another.
  \<^item> \<open>Storage\<close>: \<^verbatim>\<open>storage.rs\<close> and \<^verbatim>\<open>storage/in_memory.rs\<close>; the contract of a storage is the locale \<open>chain_storage\<close>.
    \<open>Rpc_Storage\<close>: \<^verbatim>\<open>storage/rpc.rs\<close> (retries, caches, queries, snapshots): answers agree with the block, and a snapshot replays them.
    \<open>Fetch\<close>: \<^verbatim>\<open>bins/fetch\<close> over files that are a map from paths to contents: what a run can change on disk in every outcome, and that a fetched
    block can be read back. The storage that the queries of the EVM leave behind is an input (\<open>fc_queried\<close>), and the parent of the genesis block
    has the number that wrapping subtraction gives.
  \<^item> \<open>Vm_Db\<close>, \<open>Vm_Reads\<close>: \<^verbatim>\<open>VmDb\<close> of \<^verbatim>\<open>vm.rs\<close>, the database of one execution, with lazy evaluation, nonce
    check and read set; \<open>Vm\<close>: \<^verbatim>\<open>Vm::execute\<close> with write set, rewards, flags and errors;
    \<open>Vm_Properties\<close>: a validated execution is reproducible, lazy evaluation is exact, and what an execution publishes.
    \<open>Vm_Sample\<close>: a concrete block on which the hypotheses of the theorems are discharged.
  \<^item> \<open>Pevm\<close>: collecting results, final evaluation of lazy accounts and sequential execution (\<^verbatim>\<open>pevm.rs\<close>).
  \<^item> \<open>Chain\<close>, \<open>Chain_Rewards\<close>, \<open>Receipts\<close>: \<^verbatim>\<open>chain.rs\<close>, \<^verbatim>\<open>chain/ethereum.rs\<close>, \<^verbatim>\<open>chain/rise.rs\<close> and \<^verbatim>\<open>compat.rs\<close>.
    The locale \<open>reward_chain\<close> states what the executor needs of the estimates and rewards of a chain and is
    interpreted for both chains: an executed block leaves no estimate at a lazily updated account.
  \<^item> \<open>Block\<close>: \<^verbatim>\<open>Pevm::execute\<close> and \<^verbatim>\<open>execute_revm_parallel\<close> put together. \<open>Evm_Config\<close>: what \<^verbatim>\<open>build_evm\<close> of the two chains tells the EVM,
    \<^verbatim>\<open>NoBeneficiaryHandler\<close>, and \<^verbatim>\<open>AsyncDropper\<close>, which frees every value given to it once and in order.
  \<^item> \<open>Parallel\<close>: the workers with the memory, the result slots and the abort reason as one machine, which refines the
    workers alone; a block whose workers have left has a result. \<open>Parallel_Sample\<close>: a run of it on the sample block.
    \<open>Typing\<close>: every state of the memory is well typed, so that no read finds a value of the wrong kind.
  \<^item> \<open>Revalidation\<close>: the four indices of the scheduler never lose a validation, so that in the end the reads of every transaction that
    asked for validation are valid. \<open>Traces\<close>: every version has one value throughout a run, and every result, read set and entry of the memory
    comes from one run of the EVM on states the memory had. \<open>Serializable\<close>: the two together make parallel execution equivalent to
    executing the block in order (\<open>in_order\<close>). Lazily executed transactions are never validated by the program; that their reads are
    still valid is a hypothesis there, and \<open>Lazy_Race\<close> shows a block for which it fails and the program gives a wrong result.
  \<^item> \<open>Flat_State\<close>, \<open>Flat_Run\<close>, \<open>Flat_Commit\<close>, \<open>Flat\<close>: the specification of a block without versions, read sets or lazy values: one flat state
    of accounts, code hashes and slots on which the transactions run one after the other, are committed and pay their rewards (\<open>flat_block\<close>). A parallel
    run refines it: the same results, and the memory represents the flat state at every index (\<open>shows_flat\<close>). This needs what the EVM promises of its changes
    (\<open>regular\<close>: no self-destruction, code is neither replaced nor removed, no account is emptied), \<open>consistent_code\<close>, and that no transaction
    was executed lazily. \<open>Redelegation\<close> shows a block of RISE that replaces code, for which the program gives a wrong result.
  \<^item> \<open>Equivalence\<close>: \<^verbatim>\<open>execute_revm_parallel\<close> and \<^verbatim>\<open>execute_revm_sequential\<close> return the same receipts, state transitions and funds of the
    beneficiary, for an EVM whose own database follows the flat state (\<open>follows_flat\<close>).

  \<^bold>\<open>Modelling.\<close> A field of the code is a field of a record, an enumeration a datatype, a fallible call a value
  of a sum type, and a panic or undefined behaviour (\<^verbatim>\<open>unwrap\<close>, \<^verbatim>\<open>unreachable!\<close>, an unchecked index or an
  empty slot) the value \<open>None\<close>, which the theorems exclude. Integers keep their width, except \<^verbatim>\<open>usize\<close>
  indices and counters, which are natural numbers. A hash map that is iterated over is an
  association list with distinct keys, one that is only looked up a partial map. The relaxed atomics are
  taken as sequentially consistent. Each access of an execution to the shared memory sees a memory of its own, \<open>M k\<close>
  for the k-th access, so that an execution may run while others change the memory.

  \<^bold>\<open>Parameters.\<close> Third-party code is an argument of the definitions that call it: the EVM (an
  arbitrary client of the database that returns a result), its bytecode type and account predicates, the Fx
  and Keccak hashes, transaction types and their encodings, the trie builder, the OP package and the RPC node.
  Where a theorem relies on documented behaviour of such code this is a named hypothesis (\<open>bytecode_laws\<close>,
  \<open>honest\<close>, \<open>responsive\<close>, \<open>consistent_code\<close>: one code per code hash, injective index encodings). That the 64-bit location hash does
  not collide on the locations a block uses is a hypothesis wherever it matters (\<open>inj_on\<close>, \<open>kinds_separated\<close>, \<open>kinds_agree\<close>). Errors of a storage and of a chain appear in printed form, which
  is all the crate uses of them.

  \<^bold>\<open>Not modelled.\<close> The Tokio runtime and running futures on it (\<^verbatim>\<open>block_on\<close>), reading the command line and printing in \<^verbatim>\<open>bins/fetch\<close>,
  the associated types of the trait \<^verbatim>\<open>PevmChain\<close>, mock transactions, test and benchmark code, and \<^verbatim>\<open>debug_assert!\<close> outside the scheduler.
\<close>

end
